(* ===== verification/Prelude.thy ===== *)
theory Prelude
  imports Main "HOL-Library.Word"
begin

text \<open>
  Shared vocabulary of the development: the machine integers of the Rust source, the error
  enumeration of src/src/error.rs, the outcome of a fallible call, and the generic lemmas
  on lists and maps that several components use.

  A Rust call has three outcomes: it returns a value (\<open>Ok\<close>), it returns an error
  (\<open>Err\<close>, the variants of src/src/error.rs), or it panics (\<open>Panic\<close>: an index out of
  range, a failed \<open>assert!\<close>, an \<open>unreachable!\<close> that is reached). \<open>res_bind\<close> is the
  question-mark operator. The text carried by the diagnostic variants is the format string
  of the source; the values interpolated into it are not rendered.
  \<open>usize\<close> is \<open>nat\<close>: every size here is bounded by the memory of the process.
\<close>

type_synonym u8 = "8 word"
type_synonym u16 = "16 word"
type_synonym u32 = "32 word"
type_synonym u64 = "64 word"
type_synonym page_id = "64 word"

datatype error =
    NotImplementedYet string
  | PageNotFound u64
  | PageFull
  | TupleTooLarge nat
  | Io string
  | CorruptPage string
  | LruEviction
  | DuplicateKey u64
  | KeyNotFound u64
  | ParseErr string
  | SyntaxErr string
  | ColumnNotFound string
  | Duplicate string
  | ConstraintViolation string
  | TableNotFound string
  | ActionNotAllowed string

datatype 'a res = Ok 'a | Err error | Panic

fun res_bind :: "'a res \<Rightarrow> ('a \<Rightarrow> 'b res) \<Rightarrow> 'b res" where
  "res_bind (Ok a) f = f a"
| "res_bind (Err e) f = Err e"
| "res_bind Panic f = Panic"

lemma res_bind_eq_Ok: "res_bind m f = Ok b \<longleftrightarrow> (\<exists>a. m = Ok a \<and> f a = Ok b)"
  by (cases m) auto

lemma res_bind_Ok_right [simp]: "res_bind m Ok = m"
  by (cases m) auto

lemma res_bind_assoc: "res_bind (res_bind m f) g = res_bind m (\<lambda>a. res_bind (f a) g)"
  by (cases m) auto

text \<open>Indexing and in-place update of a \<open>Vec\<close>, which panic out of range.\<close>

definition vec_get :: "'a list \<Rightarrow> nat \<Rightarrow> 'a res" where
  "vec_get xs i = (if i < length xs then Ok (xs ! i) else Panic)"

lemma vec_get_Ok [simp]: "i < length xs \<Longrightarrow> vec_get xs i = Ok (xs ! i)"
  by (simp add: vec_get_def)

fun res_map :: "('a \<Rightarrow> 'b res) \<Rightarrow> 'a list \<Rightarrow> 'b list res" where
  "res_map f [] = Ok []"
| "res_map f (x # xs) = res_bind (f x) (\<lambda>y. res_bind (res_map f xs) (\<lambda>ys. Ok (y # ys)))"

lemma res_map_Ok: "(\<And>x. x \<in> set xs \<Longrightarrow> f x = Ok (g x)) \<Longrightarrow> res_map f xs = Ok (map g xs)"
  by (induction xs) auto

text \<open>A loop that threads a state through a list and stops at the first failure.\<close>

fun res_fold :: "('a \<Rightarrow> 's \<Rightarrow> 's res) \<Rightarrow> 'a list \<Rightarrow> 's \<Rightarrow> 's res" where
  "res_fold f [] s = Ok s"
| "res_fold f (x # xs) s = res_bind (f x s) (res_fold f xs)"

lemma res_fold_append: "res_fold f (xs @ ys) s = res_bind (res_fold f xs s) (res_fold f ys)"
proof (induction xs arbitrary: s)
  case (Cons x xs)
  then show ?case by (cases "f x s") simp_all
qed simp

text \<open>\<open>Vec::insert\<close>, for an index within the vector.\<close>

definition vec_insert :: "nat \<Rightarrow> 'a \<Rightarrow> 'a list \<Rightarrow> 'a list" where
  "vec_insert i x xs = take i xs @ x # drop i xs"

lemma set_vec_insert [simp]: "set (vec_insert i x xs) = insert x (set xs)"
proof -
  have "set (take i xs) \<union> set (drop i xs) = set xs"
    by (metis append_take_drop_id set_append)
  then show ?thesis by (auto simp: vec_insert_def)
qed

lemma length_vec_insert [simp]: "i \<le> length xs \<Longrightarrow> length (vec_insert i x xs) = Suc (length xs)"
  by (simp add: vec_insert_def)

lemma map_vec_insert: "map f (vec_insert i x xs) = vec_insert i (f x) (map f xs)"
  by (simp add: vec_insert_def take_map drop_map)

lemma distinct_vec_insert [simp]:
  "distinct (vec_insert i x xs) \<longleftrightarrow> x \<notin> set xs \<and> distinct xs"
proof -
  have s: "set (take i xs) \<union> set (drop i xs) = set xs"
    by (metis append_take_drop_id set_append)
  have d: "distinct xs \<longleftrightarrow> distinct (take i xs @ drop i xs)"
    by simp
  show ?thesis unfolding vec_insert_def d using s by (auto simp del: append_take_drop_id)
qed

lemma find_rev_last: "xs \<noteq> [] \<Longrightarrow> p (last xs) \<Longrightarrow> List.find p (rev xs) = Some (last xs)"
  by (cases xs rule: rev_cases) auto

lemma find_append:
  "List.find p (xs @ ys) = (case List.find p xs of None \<Rightarrow> List.find p ys | Some x \<Rightarrow> Some x)"
  by (induction xs) auto

lemma length_remove1_less: "x \<in> set xs \<Longrightarrow> length (remove1 x xs) < length xs"
  by (cases xs) (auto simp: length_remove1 intro: diff_less length_pos_if_in_set)

lemma remove1_mid: "x \<notin> set as \<Longrightarrow> remove1 x (as @ x # bs) = as @ bs"
  by (induction as) auto

text \<open>The decimal digits of a number, as \<open>format!\<close> prints them.\<close>

fun decimal :: "nat \<Rightarrow> string" where
  "decimal n = (if n < 10 then [] else decimal (n div 10)) @ [char_of (48 + n mod 10)]"

declare decimal.simps [simp del]

end
