(* ===== verification/StateErr.thy ===== *)
theory StateErr
  imports Prelude
begin

text \<open>
  Calls on shared mutable state. A call takes the state to an outcome and a new state; the
  state is kept on every outcome, since a Rust call that returns an error leaves the
  mutations it has made behind. The outer option is \<open>None\<close> when the call does not return
  (a loop over cyclic links); a loop is a partial function in this monad.

  \<open>outcome (m s) Q E\<close> is total correctness: the call \<open>m\<close> on the state \<open>s\<close> returns, without
  a panic, a value and a state satisfying \<open>Q\<close> or an error and a state satisfying \<open>E\<close>.
\<close>

type_synonym ('s, 'a) call = "'s \<Rightarrow> ('a res \<times> 's) option"

definition ret :: "'a \<Rightarrow> ('s, 'a) call" where "ret a s = Some (Ok a, s)"

definition fail :: "error \<Rightarrow> ('s, 'a) call" where "fail e s = Some (Err e, s)"

definition panic :: "('s, 'a) call" where "panic s = Some (Panic, s)"

definition seq :: "('s, 'a) call \<Rightarrow> ('a \<Rightarrow> ('s, 'b) call) \<Rightarrow> ('s, 'b) call" where
  "seq m f s = Option.bind (m s) (\<lambda>(r, s').
     case r of Ok a \<Rightarrow> f a s' | Err e \<Rightarrow> Some (Err e, s') | Panic \<Rightarrow> Some (Panic, s'))"

definition lift :: "'a res \<Rightarrow> ('s, 'a) call" where "lift r s = Some (r, s)"

definition gets :: "('s \<Rightarrow> 'a) \<Rightarrow> ('s, 'a) call" where "gets f s = Some (Ok (f s), s)"

definition modify :: "('s \<Rightarrow> 's) \<Rightarrow> ('s, unit) call" where "modify f s = Some (Ok (), f s)"

text \<open>A call whose error is a value for the caller, as in a \<open>match\<close> on its result.\<close>

definition attempt :: "('s, 'a) call \<Rightarrow> ('s, 'a res) call" where
  "attempt m s = Option.bind (m s) (\<lambda>(r, s').
     case r of Panic \<Rightarrow> Some (Panic, s') | _ \<Rightarrow> Some (Ok r, s'))"

fun for_each :: "('a \<Rightarrow> ('s, unit) call) \<Rightarrow> 'a list \<Rightarrow> ('s, unit) call" where
  "for_each f [] = ret ()"
| "for_each f (x # xs) = seq (f x) (\<lambda>_. for_each f xs)"

text \<open>A call on a component of the state.\<close>

definition focus :: "('s \<Rightarrow> 't) \<Rightarrow> ('t \<Rightarrow> 's \<Rightarrow> 's) \<Rightarrow> ('t, 'a) call \<Rightarrow> ('s, 'a) call" where
  "focus get put m s = Option.bind (m (get s)) (\<lambda>(r, t). Some (r, put t s))"

lemma seq_mono [partial_function_mono]:
  assumes m: "\<And>s. mono_option (\<lambda>g. M g s)" and f: "\<And>y s. mono_option (\<lambda>g. F g y s)"
  shows "mono_option (\<lambda>g. seq (M g) (F g) s)"
  unfolding seq_def
proof (rule bind_mono, rule m, goal_cases)
  case (1 y)
  show ?case
    by (cases y, cases "fst y") (simp_all add: f option.const_mono)
qed

section \<open>Equations\<close>

lemma seq_ret [simp]: "seq (ret a) f s = f a s"
  by (simp add: seq_def ret_def)

lemma seq_fail [simp]: "seq (fail e) f s = fail e s"
  by (simp add: seq_def fail_def)

lemma seq_panic [simp]: "seq panic f s = panic s"
  by (simp add: seq_def panic_def)

lemma seq_modify [simp]: "seq (modify g) f s = f () (g s)"
  by (simp add: seq_def modify_def)

lemma seq_gets [simp]: "seq (gets g) f s = f (g s) s"
  by (simp add: seq_def gets_def)

lemma lift_simps [simp]: "lift (Ok a) = ret a" "lift (Err e) = fail e" "lift Panic = panic"
  by (auto simp: lift_def ret_def fail_def panic_def)

lemma seq_Some: "m s = Some (Ok a, s') \<Longrightarrow> seq m f s = f a s'"
  by (simp add: seq_def)

lemma seq_assoc: "seq (seq m f) g s = seq m (\<lambda>a. seq (f a) g) s"
  by (auto simp: seq_def split: option.splits res.splits prod.splits bind_split)

section \<open>Total correctness\<close>

definition outcome ::
    "('a res \<times> 's) option \<Rightarrow> ('a \<Rightarrow> 's \<Rightarrow> bool) \<Rightarrow> (error \<Rightarrow> 's \<Rightarrow> bool) \<Rightarrow> bool" where
  "outcome x Q E \<longleftrightarrow> (case x of
     Some (Ok a, s) \<Rightarrow> Q a s | Some (Err e, s) \<Rightarrow> E e s | Some (Panic, s) \<Rightarrow> False | None \<Rightarrow> False)"

lemma outcome_simps [simp]:
  "outcome (ret a s) Q E \<longleftrightarrow> Q a s" "outcome (fail e s) Q E \<longleftrightarrow> E e s" "outcome (panic s) Q E \<longleftrightarrow> False"
  "outcome (modify f s) Q' E \<longleftrightarrow> Q' () (f s)" "outcome (gets g s) Q'' E \<longleftrightarrow> Q'' (g s) s"
  "outcome (Some (Ok a, s)) Q E \<longleftrightarrow> Q a s" "outcome (Some (Err e, s)) Q E \<longleftrightarrow> E e s"
  by (simp_all add: outcome_def ret_def fail_def panic_def modify_def gets_def)

lemma outcome_seq: "outcome (seq m f s) Q E \<longleftrightarrow> outcome (m s) (\<lambda>a s'. outcome (f a s') Q E) E"
  by (auto simp: outcome_def seq_def split: option.splits res.splits prod.splits bind_split)

lemma outcome_attempt:
  "outcome (attempt m s) Q E \<longleftrightarrow> outcome (m s) (\<lambda>a s'. Q (Ok a) s') (\<lambda>e s'. Q (Err e) s')"
  by (auto simp: outcome_def attempt_def split: option.splits res.splits prod.splits bind_split)

lemma outcome_weaken:
  "outcome x Q E \<Longrightarrow> (\<And>a s. Q a s \<Longrightarrow> Q' a s) \<Longrightarrow> (\<And>e s. E e s \<Longrightarrow> E' e s) \<Longrightarrow> outcome x Q' E'"
  by (auto simp: outcome_def split: option.splits res.splits prod.splits)

lemma outcome_conj:
  "outcome x Q E \<Longrightarrow> outcome x Q' E' \<Longrightarrow> outcome x (\<lambda>a s. Q a s \<and> Q' a s) (\<lambda>e s. E e s \<and> E' e s)"
  by (auto simp: outcome_def split: option.splits res.splits prod.splits)

lemma outcome_seqI:
  assumes "outcome (m s) R E" "\<And>a s'. R a s' \<Longrightarrow> outcome (f a s') Q E"
  shows "outcome (seq m f s) Q E"
  unfolding outcome_seq using assms by (rule outcome_weaken) auto

lemma outcome_lift:
  "outcome (lift r s) Q E \<longleftrightarrow> (case r of Ok a \<Rightarrow> Q a s | Err e \<Rightarrow> E e s | Panic \<Rightarrow> False)"
  by (cases r) simp_all

lemma outcome_total:
  assumes "outcome x Q (\<lambda>_ _. False)"
  obtains a s where "x = ret a s" "Q a s"
proof (cases x)
  case (Some y)
  obtain r s where y: "y = (r, s)" by (cases y)
  show thesis
  proof (cases r)
    case (Ok a)
    then show thesis using that [of a s] assms Some y by (simp add: ret_def)
  qed (use assms Some y in \<open>simp_all add: outcome_def\<close>)
qed (use assms in \<open>simp add: outcome_def\<close>)

text \<open>A loop keeps an invariant when its body does.\<close>

lemma outcome_for_each:
  assumes "\<And>x s. x \<in> set xs \<Longrightarrow> I s \<Longrightarrow> outcome (f x s) (\<lambda>_. I) (\<lambda>e s. I s \<and> E e s)" "I s"
  shows "outcome (for_each f xs s) (\<lambda>_. I) (\<lambda>e s. I s \<and> E e s)"
  using assms
proof (induction xs arbitrary: s)
  case (Cons x xs)
  have "outcome (f x s) (\<lambda>_. I) (\<lambda>e s. I s \<and> E e s)" using Cons.prems by auto
  then show ?case
    unfolding for_each.simps by (rule outcome_seqI) (use Cons in auto)
qed simp

end
