(* ===== verification/Bytes.thy ===== *)
theory Bytes
  imports Prelude
begin

text \<open>
  Little-endian integers and the \<open>ByteCursor\<close> of src/src/storage/page.rs, with its reads
  and writes, which panic past the end of the buffer.

  The locale \<open>byte_codec\<close> is the contract between a writer and a reader of a value: the
  writer stores the bytes \<open>enc x\<close>, the reader recovers \<open>x\<close> from them wherever the cursor
  finds them. It is interpreted on the primitive widths here and on the cells and entries
  of a page in PageCodec, and proves the round trip of a sequence of values once.
\<close>

section \<open>Little-endian integers\<close>

fun to_le :: "nat \<Rightarrow> nat \<Rightarrow> u8 list" where
  "to_le 0 v = []"
| "to_le (Suc n) v = of_nat (v mod 256) # to_le n (v div 256)"

fun from_le :: "u8 list \<Rightarrow> nat" where
  "from_le [] = 0"
| "from_le (b # bs) = unat b + 256 * from_le bs"

lemma length_to_le [simp]: "length (to_le n v) = n"
  by (induction n arbitrary: v) auto

lemma from_le_to_le: "from_le (to_le n v) = v mod 256 ^ n"
proof (induction n arbitrary: v)
  case (Suc n)
  have "unat (of_nat (v mod 256) :: u8) = v mod 256" by (simp add: unat_of_nat)
  then show ?case using Suc by (simp add: mod_mult2_eq)
qed simp

lemma to_le_from_le: "to_le (length bs) (from_le bs) = bs"
proof (induction bs)
  case (Cons b bs)
  have b: "unat b < 256" using unsigned_less [where ?'a = nat, of b] by simp
  then have "(unat b + 256 * from_le bs) mod 256 = unat b" "(unat b + 256 * from_le bs) div 256 = from_le bs"
    by auto
  with Cons show ?case by simp
qed simp

definition u16_to_le :: "u16 \<Rightarrow> u8 list" where "u16_to_le w = to_le 2 (unat w)"
definition u32_to_le :: "u32 \<Rightarrow> u8 list" where "u32_to_le w = to_le 4 (unat w)"
definition u64_to_le :: "u64 \<Rightarrow> u8 list" where "u64_to_le w = to_le 8 (unat w)"
definition u16_of_le :: "u8 list \<Rightarrow> u16" where "u16_of_le bs = of_nat (from_le bs)"
definition u32_of_le :: "u8 list \<Rightarrow> u32" where "u32_of_le bs = of_nat (from_le bs)"
definition u64_of_le :: "u8 list \<Rightarrow> u64" where "u64_of_le bs = of_nat (from_le bs)"

lemma length_le [simp]:
  "length (u16_to_le w) = 2" "length (u32_to_le x) = 4" "length (u64_to_le y) = 8"
  by (simp_all add: u16_to_le_def u32_to_le_def u64_to_le_def)

lemma u16_roundtrip [simp]: "u16_of_le (u16_to_le w) = w"
  using unsigned_less [where ?'a = nat, of w]
  by (simp add: u16_of_le_def u16_to_le_def from_le_to_le)

lemma u32_roundtrip [simp]: "u32_of_le (u32_to_le w) = w"
  using unsigned_less [where ?'a = nat, of w]
  by (simp add: u32_of_le_def u32_to_le_def from_le_to_le)

lemma u64_roundtrip [simp]: "u64_of_le (u64_to_le w) = w"
  using unsigned_less [where ?'a = nat, of w]
  by (simp add: u64_of_le_def u64_to_le_def from_le_to_le)

lemma u64_to_le_of_le: "length bs = 8 \<Longrightarrow> u64_to_le (u64_of_le bs) = bs"
proof -
  assume l: "length bs = 8"
  have "from_le bs < 256 ^ length bs"
  proof (induction bs)
    case (Cons b bs)
    have "unat b < 256" using unsigned_less [where ?'a = nat, of b] by simp
    with Cons show ?case by simp
  qed simp
  with l have "from_le bs < 2 ^ 64" by simp
  then have "unat (of_nat (from_le bs) :: u64) = from_le bs" by (simp add: unat_of_nat)
  then show ?thesis using to_le_from_le [of bs] l by (simp add: u64_to_le_def u64_of_le_def)
qed

section \<open>The byte cursor\<close>

record cursor =
  cur_buf :: "u8 list"
  cur_pos :: nat

definition cursor_new :: "u8 list \<Rightarrow> cursor" where
  "cursor_new buf = \<lparr>cur_buf = buf, cur_pos = 0\<rparr>"

definition write_bytes :: "u8 list \<Rightarrow> cursor \<Rightarrow> cursor res" where
  "write_bytes bs c =
     (if cur_pos c + length bs \<le> length (cur_buf c) then
        Ok (c\<lparr>cur_buf := take (cur_pos c) (cur_buf c) @ bs @ drop (cur_pos c + length bs) (cur_buf c),
              cur_pos := cur_pos c + length bs\<rparr>)
      else Panic)"

definition write_u8 :: "u8 \<Rightarrow> cursor \<Rightarrow> cursor res" where "write_u8 v = write_bytes [v]"
definition write_u16 :: "u16 \<Rightarrow> cursor \<Rightarrow> cursor res" where "write_u16 v = write_bytes (u16_to_le v)"
definition write_u32 :: "u32 \<Rightarrow> cursor \<Rightarrow> cursor res" where "write_u32 v = write_bytes (u32_to_le v)"
definition write_u64 :: "u64 \<Rightarrow> cursor \<Rightarrow> cursor res" where "write_u64 v = write_bytes (u64_to_le v)"

definition read_bytes :: "nat \<Rightarrow> cursor \<Rightarrow> (u8 list \<times> cursor) res" where
  "read_bytes n c =
     (if cur_pos c + n \<le> length (cur_buf c) then
        Ok (take n (drop (cur_pos c) (cur_buf c)), c\<lparr>cur_pos := cur_pos c + n\<rparr>)
      else Panic)"

definition read_u8 :: "cursor \<Rightarrow> (u8 \<times> cursor) res" where
  "read_u8 c = res_bind (read_bytes 1 c) (\<lambda>(bs, c). Ok (hd bs, c))"
definition read_u16 :: "cursor \<Rightarrow> (u16 \<times> cursor) res" where
  "read_u16 c = res_bind (read_bytes 2 c) (\<lambda>(bs, c). Ok (u16_of_le bs, c))"
definition read_u32 :: "cursor \<Rightarrow> (u32 \<times> cursor) res" where
  "read_u32 c = res_bind (read_bytes 4 c) (\<lambda>(bs, c). Ok (u32_of_le bs, c))"
definition read_u64 :: "cursor \<Rightarrow> (u64 \<times> cursor) res" where
  "read_u64 c = res_bind (read_bytes 8 c) (\<lambda>(bs, c). Ok (u64_of_le bs, c))"

text \<open>\<open>cursor.pos += n\<close>.\<close>

definition skip :: "nat \<Rightarrow> cursor \<Rightarrow> cursor" where
  "skip n c = c\<lparr>cur_pos := cur_pos c + n\<rparr>"

fun write_all :: "('a \<Rightarrow> cursor \<Rightarrow> cursor res) \<Rightarrow> 'a list \<Rightarrow> cursor \<Rightarrow> cursor res" where
  "write_all put [] c = Ok c"
| "write_all put (x # xs) c = res_bind (put x c) (write_all put xs)"

fun read_n :: "(cursor \<Rightarrow> ('a \<times> cursor) res) \<Rightarrow> nat \<Rightarrow> cursor \<Rightarrow> ('a list \<times> cursor) res" where
  "read_n get 0 c = Ok ([], c)"
| "read_n get (Suc n) c =
     res_bind (get c) (\<lambda>(x, c). res_bind (read_n get n c) (\<lambda>(xs, c). Ok (x # xs, c)))"

section \<open>Writing and finding bytes\<close>

lemma write_bytes_append:
  "res_bind (write_bytes as c) (write_bytes bs) = write_bytes (as @ bs) c"
  by (auto simp: write_bytes_def add.assoc min_absorb2 add.commute add.left_commute)

lemma write_bytes_append': "res_bind (write_bytes as c) (\<lambda>c. res_bind (write_bytes bs c) f) =
    res_bind (write_bytes (as @ bs) c) f"
  by (simp add: res_bind_assoc [symmetric] write_bytes_append)

lemma write_bytes_Nil [simp]: "cur_pos c \<le> length (cur_buf c) \<Longrightarrow> write_bytes [] c = Ok c"
  by (simp add: write_bytes_def)

lemma write_all_bytes:
  assumes "\<And>x c. x \<in> set xs \<Longrightarrow> put x c = write_bytes (enc x) c" "cur_pos c \<le> length (cur_buf c)"
  shows "write_all put xs c = write_bytes (concat (map enc xs)) c"
  using assms
proof (induction xs arbitrary: c)
  case (Cons x xs)
  show ?case
  proof (cases "cur_pos c + length (enc x) \<le> length (cur_buf c)")
    case True
    then obtain c' where c': "write_bytes (enc x) c = Ok c'" "cur_pos c' \<le> length (cur_buf c')"
      by (auto simp: write_bytes_def)
    then have "write_all put xs c' = write_bytes (concat (map enc xs)) c'"
      using Cons by auto
    then show ?thesis using c'(1) Cons.prems(1) write_bytes_append [of "enc x" c "concat (map enc xs)"]
      by simp
  next
    case False
    then show ?thesis using Cons.prems(1) by (simp add: write_bytes_def)
  qed
qed simp

text \<open>The bytes found at the cursor.\<close>

definition at_cursor :: "cursor \<Rightarrow> u8 list \<Rightarrow> bool" where
  "at_cursor c bs \<longleftrightarrow> (\<exists>pre post. cur_buf c = pre @ bs @ post \<and> length pre = cur_pos c)"

lemma at_cursor_append: "at_cursor c (as @ bs) \<Longrightarrow> at_cursor c as \<and> at_cursor (skip (length as) c) bs"
proof -
  assume "at_cursor c (as @ bs)"
  then obtain pre post where p: "cur_buf c = pre @ as @ bs @ post" "length pre = cur_pos c"
    by (auto simp: at_cursor_def)
  have "at_cursor c as" unfolding at_cursor_def using p by blast
  moreover have "at_cursor (skip (length as) c) bs"
    unfolding at_cursor_def skip_def using p
    by (intro exI [of _ "pre @ as"] exI [of _ post]) simp
  ultimately show ?thesis by blast
qed

lemma skip_skip [simp]: "skip m (skip n c) = skip (n + m) c"
  by (simp add: skip_def add.assoc)

lemma skip_0 [simp]: "skip 0 c = c"
  by (simp add: skip_def)

lemma read_bytes_at: "at_cursor c bs \<Longrightarrow> n = length bs \<Longrightarrow> read_bytes n c = Ok (bs, skip n c)"
  by (auto simp: at_cursor_def read_bytes_def skip_def)

section \<open>Codecs\<close>

locale byte_codec =
  fixes ok :: "'a \<Rightarrow> bool"
    and enc :: "'a \<Rightarrow> u8 list"
    and put :: "'a \<Rightarrow> cursor \<Rightarrow> cursor res"
    and get :: "cursor \<Rightarrow> ('a \<times> cursor) res"
  assumes put_enc: "put x c = write_bytes (enc x) c"
    and get_enc: "ok x \<Longrightarrow> at_cursor c (enc x) \<Longrightarrow> get c = Ok (x, skip (length (enc x)) c)"
begin

lemma write_all_enc:
  "cur_pos c \<le> length (cur_buf c) \<Longrightarrow> write_all put xs c = write_bytes (concat (map enc xs)) c"
  by (rule write_all_bytes) (simp_all add: put_enc)

lemma get_step:
  "ok x \<Longrightarrow> at_cursor c (enc x @ bs) \<Longrightarrow>
   get c = Ok (x, skip (length (enc x)) c) \<and> at_cursor (skip (length (enc x)) c) bs"
  using get_enc at_cursor_append by blast

lemma read_n_enc:
  "\<forall>x \<in> set xs. ok x \<Longrightarrow> at_cursor c (concat (map enc xs) @ bs) \<Longrightarrow>
   read_n get (length xs) c = Ok (xs, skip (length (concat (map enc xs))) c) \<and>
   at_cursor (skip (length (concat (map enc xs))) c) bs"
proof (induction xs arbitrary: c)
  case (Cons x xs)
  then have s: "get c = Ok (x, skip (length (enc x)) c)"
    "at_cursor (skip (length (enc x)) c) (concat (map enc xs) @ bs)"
    using get_step [of x c "concat (map enc xs) @ bs"] by auto
  with Cons.IH [OF _ s(2)] Cons.prems(1) show ?case by simp
qed simp

end

interpretation c8: byte_codec "\<lambda>_. True" "\<lambda>v. [v]" write_u8 read_u8
  by unfold_locales (auto simp: write_u8_def read_u8_def read_bytes_at)

interpretation c16: byte_codec "\<lambda>_. True" u16_to_le write_u16 read_u16
  by unfold_locales (auto simp: write_u16_def read_u16_def read_bytes_at)

interpretation c32: byte_codec "\<lambda>_. True" u32_to_le write_u32 read_u32
  by unfold_locales (auto simp: write_u32_def read_u32_def read_bytes_at)

interpretation c64: byte_codec "\<lambda>_. True" u64_to_le write_u64 read_u64
  by unfold_locales (auto simp: write_u64_def read_u64_def read_bytes_at)

end
