(* ===== verification/Search.thy ===== *)
theory Search
  imports Prelude
begin

text \<open>
  The two searches of the standard library that the slotted pages use,
  \<open>slice::binary_search_by\<close> and \<open>slice::partition_point\<close>: the branch-light halving loop
  of core (\<open>base\<close> and \<open>size\<close>), with the comparison as a closure that may panic (the
  closures of src/src/storage/page.rs index the record vector). The lemmas give their
  documented contract: on a slice sorted by the key (partitioned by the predicate) the
  search returns the matching index, or the index at which to insert.
\<close>

datatype ordering = Less | Equal | Greater

definition cmp_key :: "'k::linorder \<Rightarrow> 'k \<Rightarrow> ordering" where
  "cmp_key a b = (if a < b then Less else if a = b then Equal else Greater)"

lemma cmp_key_simps [simp]:
  "cmp_key a b = Less \<longleftrightarrow> a < b" "cmp_key a b = Equal \<longleftrightarrow> a = b" "cmp_key a b = Greater \<longleftrightarrow> b < a"
  by (auto simp: cmp_key_def)

function bs_loop :: "('a \<Rightarrow> ordering res) \<Rightarrow> 'a list \<Rightarrow> nat \<Rightarrow> nat \<Rightarrow> nat res" where
  "bs_loop f xs base sz =
     (if 1 < sz then
        res_bind (f (xs ! (base + sz div 2))) (\<lambda>c.
          bs_loop f xs (if c = Greater then base else base + sz div 2) (sz - sz div 2))
      else Ok base)"
  by pat_completeness auto
termination
  by (relation "measure (\<lambda>(f, xs, base, sz). sz)") auto

declare bs_loop.simps [simp del]

text \<open>\<open>Inl i\<close> is the \<open>Ok(i)\<close> of the source (found at \<open>i\<close>), \<open>Inr i\<close> its \<open>Err(i)\<close>.\<close>

definition binary_search_by :: "('a \<Rightarrow> ordering res) \<Rightarrow> 'a list \<Rightarrow> (nat + nat) res" where
  "binary_search_by f xs =
     (if xs = [] then Ok (Inr 0)
      else res_bind (bs_loop f xs 0 (length xs)) (\<lambda>base.
           res_bind (f (xs ! base)) (\<lambda>c.
           Ok (if c = Equal then Inl base else Inr (base + (if c = Less then 1 else 0))))))"

definition partition_point :: "('a \<Rightarrow> bool res) \<Rightarrow> 'a list \<Rightarrow> nat res" where
  "partition_point pr xs =
     res_bind (binary_search_by (\<lambda>x. res_bind (pr x) (\<lambda>b. Ok (if b then Less else Greater))) xs)
       (\<lambda>r. Ok (case r of Inl i \<Rightarrow> i | Inr i \<Rightarrow> i))"

lemma bs_loop_spec:
  assumes "\<And>i. i < length xs \<Longrightarrow> f (xs ! i) = Ok (g i)"
    and "\<And>i j. i \<le> j \<Longrightarrow> j < length xs \<Longrightarrow> g i = Greater \<Longrightarrow> g j = Greater"
    and "0 < sz" "base + sz \<le> length xs" "base = 0 \<or> g base \<noteq> Greater"
    and "\<And>i. base + sz \<le> i \<Longrightarrow> i < length xs \<Longrightarrow> g i = Greater"
  shows "\<exists>b. bs_loop f xs base sz = Ok b \<and> b < length xs \<and> (b = 0 \<or> g b \<noteq> Greater) \<and>
    (\<forall>i. b < i \<longrightarrow> i < length xs \<longrightarrow> g i = Greater)"
  using assms(3-6)
proof (induction sz arbitrary: base rule: less_induct)
  case (less sz)
  show ?case
  proof (cases "1 < sz")
    case False
    with less.prems show ?thesis by (auto simp: bs_loop.simps [of f xs base sz])
  next
    case True
    let ?h = "sz div 2"
    have m: "base + ?h < length xs" using True less.prems(2) by linarith
    have c: "f (xs ! (base + ?h)) = Ok (g (base + ?h))" using m by (rule assms(1))
    let ?b = "if g (base + ?h) = Greater then base else base + ?h"
    have "\<exists>b. bs_loop f xs ?b (sz - ?h) = Ok b \<and> b < length xs \<and> (b = 0 \<or> g b \<noteq> Greater) \<and>
      (\<forall>i. b < i \<longrightarrow> i < length xs \<longrightarrow> g i = Greater)"
    proof (rule less.IH)
      show "sz - ?h < sz" "0 < sz - ?h" using True by linarith+
      show "?b + (sz - ?h) \<le> length xs" using less.prems(2) by auto
      show "?b = 0 \<or> g ?b \<noteq> Greater" using less.prems(3) by auto
      show "g i = Greater" if "?b + (sz - ?h) \<le> i" "i < length xs" for i
      proof (cases "g (base + ?h) = Greater")
        case g: True
        have "base + ?h \<le> i" using that(1) g True by simp
        with assms(2) that(2) g show ?thesis by blast
      next
        case False
        then show ?thesis using that less.prems(4) by simp
      qed
    qed
    with True c show ?thesis by (simp add: bs_loop.simps [of f xs base sz])
  qed
qed

lemma binary_search_by_key:
  fixes k :: "'a \<Rightarrow> 'k::linorder"
  assumes f: "\<And>x. x \<in> set xs \<Longrightarrow> f x = Ok (cmp_key (k x) key)"
    and srt: "sorted_wrt (<) (map k xs)"
  shows "\<exists>r. binary_search_by f xs = Ok r \<and>
    (case r of
       Inl i \<Rightarrow> i < length xs \<and> k (xs ! i) = key
     | Inr i \<Rightarrow> i \<le> length xs \<and> (\<forall>j<i. k (xs ! j) < key) \<and>
         (\<forall>j. i \<le> j \<longrightarrow> j < length xs \<longrightarrow> key < k (xs ! j)))"
proof (cases "xs = []")
  case True
  then show ?thesis by (simp add: binary_search_by_def)
next
  case False
  let ?g = "\<lambda>i. cmp_key (k (xs ! i)) key"
  have lt: "k (xs ! i) < k (xs ! j)" if "i < j" "j < length xs" for i j
    using sorted_wrt_nth_less [OF srt that(1)] that by simp
  have "\<exists>b. bs_loop f xs 0 (length xs) = Ok b \<and> b < length xs \<and> (b = 0 \<or> ?g b \<noteq> Greater) \<and>
    (\<forall>i. b < i \<longrightarrow> i < length xs \<longrightarrow> ?g i = Greater)"
  proof (rule bs_loop_spec)
    show "f (xs ! i) = Ok (?g i)" if "i < length xs" for i using that f by simp
    show "?g j = Greater" if "i \<le> j" "j < length xs" "?g i = Greater" for i j
      using that lt [of i j] by (cases "i = j") auto
  qed (use False in auto)
  then obtain b where b: "bs_loop f xs 0 (length xs) = Ok b" "b < length xs"
    "b = 0 \<or> ?g b \<noteq> Greater" "\<forall>i. b < i \<longrightarrow> i < length xs \<longrightarrow> ?g i = Greater"
    by blast
  have fb: "f (xs ! b) = Ok (?g b)" using b(2) f by simp
  show ?thesis
  proof (cases "?g b")
    case Equal
    then show ?thesis using False b fb by (simp add: binary_search_by_def)
  next
    case Less
    have "\<forall>j<Suc b. k (xs ! j) < key"
    proof (intro allI impI)
      fix j assume "j < Suc b"
      then show "k (xs ! j) < key" using Less lt [of j b] b(2) by (cases "j = b") auto
    qed
    moreover have "\<forall>j. Suc b \<le> j \<longrightarrow> j < length xs \<longrightarrow> key < k (xs ! j)" using b(4) by auto
    ultimately show ?thesis using False b Less fb by (simp add: binary_search_by_def)
  next
    case Greater
    then have "b = 0" using b(3) by simp
    moreover have "\<forall>j. j < length xs \<longrightarrow> key < k (xs ! j)"
      using Greater b(4) \<open>b = 0\<close> by (metis cmp_key_simps(3) gr0I)
    ultimately show ?thesis using False b Greater fb by (simp add: binary_search_by_def Suc_le_eq)
  qed
qed

lemma partition_point_spec:
  assumes f: "\<And>x. x \<in> set xs \<Longrightarrow> pr x = Ok (p x)"
    and mono: "\<And>i j. i \<le> j \<Longrightarrow> j < length xs \<Longrightarrow> p (xs ! j) \<Longrightarrow> p (xs ! i)"
  shows "\<exists>i. partition_point pr xs = Ok i \<and> i \<le> length xs \<and> (\<forall>j<i. p (xs ! j)) \<and>
    (\<forall>j. i \<le> j \<longrightarrow> j < length xs \<longrightarrow> \<not> p (xs ! j))"
proof (cases "xs = []")
  case True
  then show ?thesis by (simp add: partition_point_def binary_search_by_def)
next
  case False
  let ?f = "\<lambda>x. res_bind (pr x) (\<lambda>b. Ok (if b then Less else Greater))"
  let ?g = "\<lambda>i. if p (xs ! i) then Less else Greater"
  have "\<exists>b. bs_loop ?f xs 0 (length xs) = Ok b \<and> b < length xs \<and> (b = 0 \<or> ?g b \<noteq> Greater) \<and>
    (\<forall>i. b < i \<longrightarrow> i < length xs \<longrightarrow> ?g i = Greater)"
  proof (rule bs_loop_spec)
    show "?f (xs ! i) = Ok (?g i)" if "i < length xs" for i using that f by simp
    show "?g j = Greater" if "i \<le> j" "j < length xs" "?g i = Greater" for i j
      using that mono by auto
  qed (use False in auto)
  then obtain b where b: "bs_loop ?f xs 0 (length xs) = Ok b" "b < length xs"
    "b = 0 \<or> p (xs ! b)" "\<forall>i. b < i \<longrightarrow> i < length xs \<longrightarrow> \<not> p (xs ! i)"
    by (auto split: if_splits)
  have fb: "pr (xs ! b) = Ok (p (xs ! b))" using b(2) f by simp
  show ?thesis
  proof (cases "p (xs ! b)")
    case True
    then have "\<forall>j<Suc b. p (xs ! j)" using mono b(2) less_Suc_eq_le by blast
    with True False b fb show ?thesis
      by (simp add: partition_point_def binary_search_by_def Suc_le_eq)
  next
    case p: False
    then have "b = 0" using b(3) by simp
    then have "\<forall>j. j < length xs \<longrightarrow> \<not> p (xs ! j)" using p b(4) by (metis gr0I)
    with p False b \<open>b = 0\<close> fb show ?thesis
      by (simp add: partition_point_def binary_search_by_def)
  qed
qed

text \<open>The insertion index determines the split of the slice, so it is unique.\<close>

lemma takeWhile_split_index:
  assumes "i \<le> length xs" "\<forall>j<i. p (xs ! j)" "\<forall>j. i \<le> j \<longrightarrow> j < length xs \<longrightarrow> \<not> p (xs ! j)"
  shows "take i xs = takeWhile p xs \<and> drop i xs = dropWhile p xs"
proof -
  have "takeWhile p xs = take i xs"
    by (rule takeWhile_eq_take_P_nth) (use assms in auto)
  then show ?thesis using dropWhile_eq_drop [of p xs] assms(1)
    by (metis append_eq_conv_conj append_take_drop_id takeWhile_dropWhile_id)
qed

lemma partition_point_takeWhile:
  assumes "\<And>x. x \<in> set xs \<Longrightarrow> pr x = Ok (p x)"
    and "\<And>i j. i \<le> j \<Longrightarrow> j < length xs \<Longrightarrow> p (xs ! j) \<Longrightarrow> p (xs ! i)"
  shows "partition_point pr xs = Ok (length (takeWhile p xs))"
proof -
  obtain i where i: "partition_point pr xs = Ok i" "i \<le> length xs" "\<forall>j<i. p (xs ! j)"
    "\<forall>j. i \<le> j \<longrightarrow> j < length xs \<longrightarrow> \<not> p (xs ! j)"
    using partition_point_spec [of xs pr p] assms by blast
  then have "take i xs = takeWhile p xs" by (simp add: takeWhile_split_index)
  then have "length (takeWhile p xs) = i" using i(2) by (metis length_take min.absorb2)
  with i(1) show ?thesis by simp
qed

lemma binary_search_by_takeWhile:
  fixes k :: "'a \<Rightarrow> 'k::linorder"
  assumes "\<And>x. x \<in> set xs \<Longrightarrow> f x = Ok (cmp_key (k x) key)"
    and "sorted_wrt (<) (map k xs)"
  shows "binary_search_by f xs =
    Ok (let i = length (takeWhile (\<lambda>x. k x < key) xs)
        in if i < length xs \<and> k (xs ! i) = key then Inl i else Inr i)"
proof -
  have lt: "k (xs ! i) < k (xs ! j)" if "i < j" "j < length xs" for i j
    using sorted_wrt_nth_less [OF assms(2) that(1)] that by simp
  obtain r where r: "binary_search_by f xs = Ok r" "case r of
       Inl i \<Rightarrow> i < length xs \<and> k (xs ! i) = key
     | Inr i \<Rightarrow> i \<le> length xs \<and> (\<forall>j<i. k (xs ! j) < key) \<and>
         (\<forall>j. i \<le> j \<longrightarrow> j < length xs \<longrightarrow> key < k (xs ! j))"
    using binary_search_by_key [of xs f k key, OF assms] by blast
  show ?thesis
  proof (cases r)
    case (Inl i)
    with r have i: "i < length xs" "k (xs ! i) = key" by auto
    have "take i xs = takeWhile (\<lambda>x. k x < key) xs"
    proof (rule takeWhile_split_index [THEN conjunct1])
      show "\<forall>j<i. k (xs ! j) < key" using lt i by auto
      show "\<forall>j\<ge>i. j < length xs \<longrightarrow> \<not> k (xs ! j) < key"
        using lt i by (metis le_neq_implies_less less_imp_not_less less_irrefl)
    qed (use i in simp)
    then have "length (takeWhile (\<lambda>x. k x < key) xs) = i"
      using i(1) by (metis length_take min.absorb2 less_imp_le)
    with i r(1) Inl show ?thesis by simp
  next
    case (Inr i)
    with r have i: "i \<le> length xs" "\<forall>j<i. k (xs ! j) < key"
      "\<forall>j. i \<le> j \<longrightarrow> j < length xs \<longrightarrow> key < k (xs ! j)" by auto
    have "take i xs = takeWhile (\<lambda>x. k x < key) xs"
      using i by (intro takeWhile_split_index [THEN conjunct1]) auto
    then have l: "length (takeWhile (\<lambda>x. k x < key) xs) = i"
      using i(1) by (metis length_take min.absorb2)
    moreover have "\<not> (i < length xs \<and> k (xs ! i) = key)" using i(3) by force
    ultimately show ?thesis using r(1) Inr by simp
  qed
qed

end
