(* ===== verification/PageNode.thy ===== *)
theory PageNode
  imports Search
begin

text \<open>
  The slotted pages of src/src/storage/page.rs in memory: internal nodes (a sorted slot array
  over routing entries) and leaf nodes (a sorted slot array over records, with logical
  tombstones), and every operation on them: insert, split, compact, route, get, update,
  delete. The slot array holds \<open>u16\<close> indices into the entry (record) vector; the logical
  order is the order of the slots. \<open>free_size\<close> is a \<open>u16\<close> whose arithmetic wraps, as in a
  release build; the invariants show that it never does.

  This theory holds the model and its invariants; PageInternal and PageLeaf prove what the
  operations of the two kinds of node do.
\<close>

section \<open>Sizes\<close>

definition SLOT_ELEM_SIZE :: nat where "SLOT_ELEM_SIZE = 2"
definition PAGE_SIZE :: nat where "PAGE_SIZE = 8192"
definition INDEX_ENTRY_SIZE :: nat where "INDEX_ENTRY_SIZE = 8 + 8"
definition RECORD_META_SIZE :: nat where "RECORD_META_SIZE = 8 + 1 + 4"
definition MAX_VALUE_SIZE :: nat where "MAX_VALUE_SIZE = 1024"
definition INTERNAL_NODE_HEADER_SIZE :: nat where
  "INTERNAL_NODE_HEADER_SIZE = 1 + 8 + 8 + 4 + 2"
definition LEAF_NODE_HEADER_SIZE :: nat where
  "LEAF_NODE_HEADER_SIZE = 1 + 8 + 1 + 1 + 8 + 8 + 4 + 2"
definition MAX_LEAF_NODE_CELLS :: nat where
  "MAX_LEAF_NODE_CELLS =
     (PAGE_SIZE - LEAF_NODE_HEADER_SIZE) div (SLOT_ELEM_SIZE + RECORD_META_SIZE)"

lemmas page_sizes = SLOT_ELEM_SIZE_def PAGE_SIZE_def INDEX_ENTRY_SIZE_def RECORD_META_SIZE_def
  MAX_VALUE_SIZE_def INTERNAL_NODE_HEADER_SIZE_def LEAF_NODE_HEADER_SIZE_def
  MAX_LEAF_NODE_CELLS_def

section \<open>Nodes\<close>

record index_entry =
  ie_key :: u64
  ie_child :: page_id

record cell =
  row_id :: u64
  cell_data :: "u8 list"
  is_deleted :: bool

record internal_node =
  in_page_id :: page_id
  in_rightmost :: page_id
  in_slots :: "u16 list"
  in_entries :: "index_entry list"
  in_free :: u16
  in_dirty :: bool
  in_wal_offset :: u64

record leaf_node =
  lf_page_id :: page_id
  lf_has_prev :: bool
  lf_has_next :: bool
  lf_prev :: page_id
  lf_next :: page_id
  lf_slots :: "u16 list"
  lf_records :: "cell list"
  lf_free :: u16
  lf_dirty :: bool
  lf_wal_offset :: u64

datatype btree_node = Internal internal_node | Leaf leaf_node

definition new_empty_leaf :: "page_id \<Rightarrow> leaf_node" where
  "new_empty_leaf p = \<lparr>lf_page_id = p, lf_has_prev = False, lf_has_next = False, lf_prev = 0,
     lf_next = 0, lf_slots = [], lf_records = [],
     lf_free = of_nat (PAGE_SIZE - LEAF_NODE_HEADER_SIZE), lf_dirty = False, lf_wal_offset = 0\<rparr>"

definition new_empty_internal :: "page_id \<Rightarrow> internal_node" where
  "new_empty_internal p = \<lparr>in_page_id = p, in_rightmost = 0, in_slots = [], in_entries = [],
     in_free = of_nat (PAGE_SIZE - INTERNAL_NODE_HEADER_SIZE), in_dirty = False,
     in_wal_offset = 0\<rparr>"

definition new_empty :: "page_id \<Rightarrow> bool \<Rightarrow> btree_node" where
  "new_empty p is_leaf =
     (if is_leaf then Leaf (new_empty_leaf p) else Internal (new_empty_internal p))"

fun node_is_dirty :: "btree_node \<Rightarrow> bool" where
  "node_is_dirty (Internal n) = in_dirty n"
| "node_is_dirty (Leaf n) = lf_dirty n"

fun clear_dirty :: "btree_node \<Rightarrow> btree_node" where
  "clear_dirty (Internal n) = Internal (n\<lparr>in_dirty := False\<rparr>)"
| "clear_dirty (Leaf n) = Leaf (n\<lparr>lf_dirty := False\<rparr>)"

fun mark_dirty :: "btree_node \<Rightarrow> btree_node" where
  "mark_dirty (Internal n) = Internal (n\<lparr>in_dirty := True\<rparr>)"
| "mark_dirty (Leaf n) = Leaf (n\<lparr>lf_dirty := True\<rparr>)"

section \<open>Internal nodes\<close>

definition slot_entry :: "internal_node \<Rightarrow> u16 \<Rightarrow> index_entry res" where
  "slot_entry n s = vec_get (in_entries n) (unat s)"

text \<open>The index of the first slot whose key is greater than \<open>k\<close>.\<close>

definition entry_point :: "u64 \<Rightarrow> internal_node \<Rightarrow> nat res" where
  "entry_point k n =
     partition_point (\<lambda>s. res_bind (slot_entry n s) (\<lambda>e. Ok (ie_key e \<le> k))) (in_slots n)"

definition insert_entry :: "u64 \<Rightarrow> page_id \<Rightarrow> internal_node \<Rightarrow> internal_node res" where
  "insert_entry k child n =
     (let required_bytes = INDEX_ENTRY_SIZE + SLOT_ELEM_SIZE;
          current_size = INTERNAL_NODE_HEADER_SIZE +
            length (in_slots n) * (INDEX_ENTRY_SIZE + SLOT_ELEM_SIZE)
      in
      if current_size + required_bytes \<ge> PAGE_SIZE then Err PageFull
      else res_bind (entry_point k n) (\<lambda>i.
        res_bind
          (if i = length (in_slots n) then Ok (in_rightmost n, n\<lparr>in_rightmost := child\<rparr>)
           else res_bind (vec_get (in_slots n) i) (\<lambda>s.
                res_bind (slot_entry n s) (\<lambda>e.
                Ok (ie_child e,
                    n\<lparr>in_entries := (in_entries n)[unat s := e\<lparr>ie_child := child\<rparr>]\<rparr>))))
          (\<lambda>(left, m).
            Ok (m\<lparr>in_entries := in_entries m @ [\<lparr>ie_key = k, ie_child = left\<rparr>],
                  in_slots := vec_insert i (of_nat (length (in_entries m))) (in_slots m),
                  in_free := of_nat (PAGE_SIZE - (current_size + required_bytes))\<rparr>))))"

definition internal_compact :: "internal_node \<Rightarrow> internal_node res" where
  "internal_compact n =
     res_bind (res_map (slot_entry n) (in_slots n)) (\<lambda>es.
       let net_size = INTERNAL_NODE_HEADER_SIZE + length es * (INDEX_ENTRY_SIZE + SLOT_ELEM_SIZE)
       in Ok (n\<lparr>in_entries := es, in_slots := map of_nat [0..<length es],
                in_free := (if net_size > PAGE_SIZE then 0 else of_nat (PAGE_SIZE - net_size))\<rparr>))"

definition internal_split ::
    "internal_node \<Rightarrow> internal_node \<Rightarrow> (u64 \<times> internal_node \<times> internal_node) res" where
  "internal_split n sib =
     (let mid = length (in_slots n) div 2 in
      res_bind (vec_get (in_slots n) mid) (\<lambda>s.
      res_bind (slot_entry n s) (\<lambda>promoted.
      res_bind (res_map (slot_entry n) (drop (Suc mid) (in_slots n))) (\<lambda>moved.
      let base = length (in_entries sib);
          sib1 = sib\<lparr>in_entries := in_entries sib @ moved,
                     in_slots := in_slots sib @ map of_nat [base..<base + length moved],
                     in_rightmost := in_rightmost n\<rparr>;
          n1 = n\<lparr>in_rightmost := ie_child promoted, in_slots := take mid (in_slots n)\<rparr>
      in res_bind (internal_compact n1) (\<lambda>n2.
         res_bind (internal_compact sib1) (\<lambda>sib2.
         Ok (ie_key promoted, n2, sib2)))))))"

definition route_key :: "u64 \<Rightarrow> internal_node \<Rightarrow> page_id res" where
  "route_key target n =
     res_bind (entry_point target n) (\<lambda>i.
       if i = length (in_slots n) then Ok (in_rightmost n)
       else res_bind (vec_get (in_slots n) i) (\<lambda>s.
            res_bind (slot_entry n s) (\<lambda>e. Ok (ie_child e))))"

section \<open>Leaf nodes\<close>

definition slot_cell :: "leaf_node \<Rightarrow> u16 \<Rightarrow> cell res" where
  "slot_cell n s = vec_get (lf_records n) (unat s)"

definition leaf_find :: "u64 \<Rightarrow> leaf_node \<Rightarrow> (nat + nat) res" where
  "leaf_find k n =
     binary_search_by (\<lambda>s. res_bind (slot_cell n s) (\<lambda>r. Ok (cmp_key (row_id r) k))) (lf_slots n)"

text \<open>\<open>compact\<close> drops the tombstones; an overfull page is \<open>unreachable!\<close>.\<close>

definition leaf_compact :: "leaf_node \<Rightarrow> leaf_node res" where
  "leaf_compact n =
     res_bind (res_map (slot_cell n) (lf_slots n)) (\<lambda>rs.
       let live = filter (\<lambda>r. \<not> is_deleted r) rs;
           bytes_used = sum_list (map (\<lambda>r. RECORD_META_SIZE + length (cell_data r) + SLOT_ELEM_SIZE) live);
           net_size = LEAF_NODE_HEADER_SIZE + bytes_used;
           m = n\<lparr>lf_records := live, lf_slots := map of_nat [0..<length live]\<rparr>
       in if net_size < PAGE_SIZE then Ok (m\<lparr>lf_free := of_nat (PAGE_SIZE - net_size)\<rparr>)
          else if net_size = PAGE_SIZE then Ok (m\<lparr>lf_free := 0\<rparr>)
          else Panic)"

definition insert_record :: "u64 \<Rightarrow> u8 list \<Rightarrow> leaf_node \<Rightarrow> leaf_node res" where
  "insert_record k payload n =
     (if length payload > MAX_VALUE_SIZE then Err (TupleTooLarge (length payload))
      else res_bind (leaf_find k n) (\<lambda>found. case found of
        Inl si \<Rightarrow>
          res_bind (vec_get (lf_slots n) si) (\<lambda>s.
          res_bind (slot_cell n s) (\<lambda>r.
            if \<not> is_deleted r then Err (DuplicateKey k)
            else let old_len = length (cell_data r); new_len = length payload in
              if new_len > old_len \<and> new_len - old_len > unat (lf_free n) then Err PageFull
              else leaf_compact (n\<lparr>lf_records :=
                (lf_records n)[unat s := r\<lparr>is_deleted := False, cell_data := payload\<rparr>]\<rparr>)))
      | Inr i \<Rightarrow>
          res_bind (res_map (slot_cell n) (lf_slots n)) (\<lambda>rs.
            let required_bytes = SLOT_ELEM_SIZE + RECORD_META_SIZE + length payload;
                header_len = LEAF_NODE_HEADER_SIZE + (length (lf_slots n) + 1) * SLOT_ELEM_SIZE;
                footer_len = sum_list (map (\<lambda>r. RECORD_META_SIZE + length (cell_data r)) rs)
            in if header_len + footer_len + required_bytes > PAGE_SIZE \<or>
                  length (lf_slots n) > MAX_LEAF_NODE_CELLS then Err PageFull
               else Ok (n\<lparr>lf_records := lf_records n @
                            [\<lparr>row_id = k, cell_data = payload, is_deleted = False\<rparr>],
                          lf_slots := vec_insert i (of_nat (length (lf_records n))) (lf_slots n),
                          lf_free := of_nat (PAGE_SIZE - (header_len + footer_len + required_bytes))\<rparr>))))"

definition update_record :: "u64 \<Rightarrow> u8 list \<Rightarrow> leaf_node \<Rightarrow> leaf_node res" where
  "update_record k payload n =
     (if length payload \<ge> MAX_VALUE_SIZE then Err (TupleTooLarge (length payload))
      else res_bind (leaf_find k n) (\<lambda>found. case found of
        Inr _ \<Rightarrow> Err (KeyNotFound k)
      | Inl i \<Rightarrow>
          res_bind (vec_get (lf_slots n) i) (\<lambda>s.
          res_bind (slot_cell n s) (\<lambda>r.
            let old_len = length (cell_data r); new_len = length payload;
                m = n\<lparr>lf_records := (lf_records n)[unat s := r\<lparr>cell_data := payload\<rparr>]\<rparr>
            in if new_len > old_len then
                 (if new_len - old_len > unat (lf_free n) then Err PageFull
                  else Ok (m\<lparr>lf_free := lf_free n - of_nat (new_len - old_len)\<rparr>))
               else Ok (m\<lparr>lf_free := lf_free n + of_nat (old_len - new_len)\<rparr>)))))"

definition delete_record :: "u64 \<Rightarrow> leaf_node \<Rightarrow> leaf_node res" where
  "delete_record k n =
     res_bind (leaf_find k n) (\<lambda>found. case found of
        Inr _ \<Rightarrow> Err (KeyNotFound k)
      | Inl i \<Rightarrow>
          res_bind (vec_get (lf_slots n) i) (\<lambda>s.
          res_bind (slot_cell n s) (\<lambda>r.
            Ok (n\<lparr>lf_records := (lf_records n)[unat s := r\<lparr>is_deleted := True\<rparr>]\<rparr>))))"

definition get_record :: "u64 \<Rightarrow> leaf_node \<Rightarrow> u8 list option res" where
  "get_record k n =
     res_bind (leaf_find k n) (\<lambda>found. case found of
        Inr _ \<Rightarrow> Ok None
      | Inl i \<Rightarrow>
          res_bind (vec_get (lf_slots n) i) (\<lambda>s.
          res_bind (slot_cell n s) (\<lambda>r.
            Ok (if is_deleted r then None else Some (cell_data r)))))"

text \<open>
  \<open>split\<close> changes both nodes before it can report an empty right sibling, so the model
  returns the nodes beside the result.
\<close>

definition leaf_split :: "leaf_node \<Rightarrow> leaf_node \<Rightarrow> (u64 res \<times> leaf_node \<times> leaf_node) res" where
  "leaf_split n sib =
     (let mid = length (lf_slots n) div 2 in
      res_bind (res_map (slot_cell n) (drop mid (lf_slots n))) (\<lambda>moved.
      let base = length (lf_records sib);
          sib1 = sib\<lparr>lf_records := lf_records sib @ moved,
                     lf_slots := lf_slots sib @ map of_nat [base..<base + length moved]\<rparr>
      in res_bind (leaf_compact (n\<lparr>lf_slots := take mid (lf_slots n)\<rparr>)) (\<lambda>n2.
         res_bind (leaf_compact sib1) (\<lambda>sib2.
         if lf_slots sib2 = [] then
           Ok (Err (CorruptPage ''leaf split resulted in empty right sibling''), n2, sib2)
         else res_bind (vec_get (lf_slots sib2) 0) (\<lambda>s.
              res_bind (slot_cell sib2 s) (\<lambda>r.
              Ok (Ok (row_id r), n2, sib2)))))))"

section \<open>Logical view and invariants\<close>

definition in_list :: "internal_node \<Rightarrow> index_entry list" where
  "in_list n = map (\<lambda>s. in_entries n ! unat s) (in_slots n)"

text \<open>
  An internal node is well formed when its slots are a permutation of the entry indices,
  its keys are strictly increasing and its encoding fits into a page.
\<close>

definition internal_wf :: "internal_node \<Rightarrow> bool" where
  "internal_wf n \<longleftrightarrow>
     distinct (in_slots n) \<and> (\<forall>s \<in> set (in_slots n). unat s < length (in_entries n)) \<and>
     length (in_slots n) = length (in_entries n) \<and>
     sorted_wrt (<) (map ie_key (in_list n)) \<and>
     INTERNAL_NODE_HEADER_SIZE + length (in_slots n) * (INDEX_ENTRY_SIZE + SLOT_ELEM_SIZE)
       \<le> PAGE_SIZE"

definition leaf_cells :: "leaf_node \<Rightarrow> cell list" where
  "leaf_cells n = map (\<lambda>s. lf_records n ! unat s) (lf_slots n)"

definition cells_size :: "cell list \<Rightarrow> nat" where
  "cells_size rs = LEAF_NODE_HEADER_SIZE +
     sum_list (map (\<lambda>r. RECORD_META_SIZE + length (cell_data r) + SLOT_ELEM_SIZE) rs)"

text \<open>
  The same for a leaf: the row ids are strictly increasing, the encoding of all cells
  (tombstones included) fits, and \<open>free_size\<close> never overestimates the space that is left.
\<close>

definition leaf_wf :: "leaf_node \<Rightarrow> bool" where
  "leaf_wf n \<longleftrightarrow>
     distinct (lf_slots n) \<and> (\<forall>s \<in> set (lf_slots n). unat s < length (lf_records n)) \<and>
     length (lf_slots n) = length (lf_records n) \<and>
     sorted_wrt (<) (map row_id (leaf_cells n)) \<and>
     cells_size (leaf_cells n) + unat (lf_free n) \<le> PAGE_SIZE"

text \<open>What a leaf stores: the live rows.\<close>

definition cells_map :: "cell list \<Rightarrow> u64 \<rightharpoonup> u8 list" where
  "cells_map rs = map_of (map (\<lambda>r. (row_id r, cell_data r)) (filter (\<lambda>r. \<not> is_deleted r) rs))"

definition leaf_map :: "leaf_node \<Rightarrow> u64 \<rightharpoonup> u8 list" where
  "leaf_map n = cells_map (leaf_cells n)"

text \<open>Routing in the logical view: the child left of the first key above the target.\<close>

fun route_list :: "index_entry list \<Rightarrow> page_id \<Rightarrow> u64 \<Rightarrow> page_id" where
  "route_list [] r k = r"
| "route_list (e # es) r k = (if ie_key e \<le> k then route_list es r k else ie_child e)"

section \<open>Slot arrays\<close>

lemma sorted_takeWhile_le_mono:
  fixes k :: "'k::linorder"
  assumes "sorted_wrt (<) (map f xs)" "i \<le> j" "j < length xs" "f (xs ! j) \<le> k"
  shows "f (xs ! i) \<le> k"
proof (cases "i = j")
  case False
  then have "f (xs ! i) < f (xs ! j)"
    using sorted_wrt_nth_less [OF assms(1), of i j] assms(2,3) by simp
  with assms(4) show ?thesis by simp
qed (use assms in simp)

lemma slots_append:
  assumes "\<forall>s \<in> set ss. unat s < length es" "unat w = length es" "i \<le> length ss"
  shows "map (\<lambda>s. (es @ [x]) ! unat s) (vec_insert i w ss) =
    vec_insert i x (map (\<lambda>s. es ! unat s) ss)"
proof -
  have "map (\<lambda>s. (es @ [x]) ! unat s) ss = map (\<lambda>s. es ! unat s) ss"
    using assms(1) by (auto simp: nth_append)
  then show ?thesis using assms(2) by (simp only: map_vec_insert nth_append_length)
qed

lemma map_nth_update_slot:
  assumes "distinct ss" "i < length ss" "\<forall>s \<in> set ss. unat s < length es"
  shows "map (\<lambda>s. es[unat (ss ! i) := x] ! unat s) ss = (map (\<lambda>s. es ! unat s) ss)[i := x]"
proof (rule nth_equalityI)
  fix j assume "j < length (map (\<lambda>s. es[unat (ss ! i) := x] ! unat s) ss)"
  then have j: "j < length ss" by simp
  have "unat (ss ! j) = unat (ss ! i) \<longleftrightarrow> j = i"
    using assms(1,2) j by (metis nth_eq_iff_index_eq word_unat_eq_iff)
  then show "map (\<lambda>s. es[unat (ss ! i) := x] ! unat s) ss ! j = (map (\<lambda>s. es ! unat s) ss)[i := x] ! j"
    using j assms(2,3) by (auto simp: nth_list_update)
qed simp

lemma unat_of_nat_slot: "k < 65536 \<Longrightarrow> unat (of_nat k :: u16) = k"
  by (simp add: unat_of_nat)

lemma slots_upt:
  assumes "length es < 65536"
  shows "map (\<lambda>s. es ! unat s) (map of_nat [0..<length es] :: u16 list) = es"
    and "distinct (map of_nat [0..<length es] :: u16 list)"
    and "\<forall>s \<in> set (map of_nat [0..<length es] :: u16 list). unat s < length es"
proof -
  have u: "unat (of_nat i :: u16) = i" if "i < length es" for i
    using that assms by (simp add: unat_of_nat_slot)
  show "map (\<lambda>s. es ! unat s) (map of_nat [0..<length es] :: u16 list) = es"
    by (rule nth_equalityI) (simp_all add: u)
  show "distinct (map of_nat [0..<length es] :: u16 list)"
    by (auto simp: distinct_map inj_on_def) (metis u)
  show "\<forall>s \<in> set (map of_nat [0..<length es] :: u16 list). unat s < length es"
    by (auto simp: u)
qed

end
