(* ===== verification/PageLeaf.thy ===== *)
theory PageLeaf
  imports PageNode
begin

text \<open>
  Leaf pages as finite maps: \<open>get_record\<close> reads the map of live rows, \<open>insert_record\<close>,
  \<open>update_record\<close> and \<open>delete_record\<close> update it (on every branch, errors included),
  compaction keeps it and drops the tombstones, and a split divides it at the promoted
  key. Every operation keeps \<open>leaf_wf\<close>, so none of them panics and the slotted page never
  outgrows its 8 KiB.
\<close>

section \<open>Lists of cells as maps\<close>

lemma cells_map_iff:
  assumes "distinct (map row_id rs)"
  shows "cells_map rs k = Some d \<longleftrightarrow>
    (\<exists>r \<in> set rs. row_id r = k \<and> \<not> is_deleted r \<and> cell_data r = d)"
proof -
  let ?xs = "map (\<lambda>r. (row_id r, cell_data r)) (filter (\<lambda>r. \<not> is_deleted r) rs)"
  have "map fst ?xs = map row_id (filter (\<lambda>r. \<not> is_deleted r) rs)"
    by (simp add: o_def)
  then have "distinct (map fst ?xs)"
    using distinct_map_filter [OF assms] by (simp only:)
  then show ?thesis unfolding cells_map_def by (force simp: map_of_eq_Some_iff)
qed

lemma cells_map_eqI:
  assumes "distinct (map row_id rs)"
    and "\<And>k d. m k = Some d \<longleftrightarrow> (\<exists>r \<in> set rs. row_id r = k \<and> \<not> is_deleted r \<and> cell_data r = d)"
  shows "cells_map rs = m"
proof
  fix k
  have "cells_map rs k = Some d \<longleftrightarrow> m k = Some d" for d
    using cells_map_iff [OF assms(1), of k d] assms(2) [of k d] by simp
  then show "cells_map rs k = m k" by (metis option.exhaust)
qed

lemma sorted_distinct: "sorted_wrt (<) (map f xs) \<Longrightarrow> distinct (map (f :: _ \<Rightarrow> 'k::linorder) xs)"
  using strict_sorted_iff by blast

lemma cells_map_live:
  "sorted_wrt (<) (map row_id rs) \<Longrightarrow> cells_map (filter (\<lambda>r. \<not> is_deleted r) rs) = cells_map rs"
  by (simp add: cells_map_def)

lemma cells_map_nth:
  assumes "sorted_wrt (<) (map row_id rs)" "i < length rs"
  shows "cells_map rs (row_id (rs ! i)) =
    (if is_deleted (rs ! i) then None else Some (cell_data (rs ! i)))"
proof -
  have d: "distinct (map row_id rs)" using assms(1) by (rule sorted_distinct)
  have u: "r = rs ! i" if "r \<in> set rs" "row_id r = row_id (rs ! i)" for r
    using d that assms(2) by (metis distinct_map inj_onD nth_mem)
  show ?thesis
  proof (cases "is_deleted (rs ! i)")
    case True
    then have "\<not> (\<exists>d. cells_map rs (row_id (rs ! i)) = Some d)"
      using cells_map_iff [OF d] u by auto
    with True show ?thesis by auto
  next
    case False
    then have "cells_map rs (row_id (rs ! i)) = Some (cell_data (rs ! i))"
      using cells_map_iff [OF d] assms(2) by auto
    with False show ?thesis by simp
  qed
qed

lemma cells_map_absent:
  assumes "k \<notin> row_id ` set rs"
  shows "cells_map rs k = None"
proof -
  have "k \<notin> fst ` set (map (\<lambda>r. (row_id r, cell_data r)) (filter (\<lambda>r. \<not> is_deleted r) rs))"
    using assms by auto
  then show ?thesis unfolding cells_map_def by (meson map_of_eq_None_iff)
qed

lemma cells_map_update_nth:
  assumes srt: "sorted_wrt (<) (map row_id rs)" and i: "i < length rs" and k: "row_id r = row_id (rs ! i)"
  shows "cells_map (rs[i := r]) =
    (cells_map rs)(row_id r := (if is_deleted r then None else Some (cell_data r)))"
proof (rule cells_map_eqI)
  have d: "distinct (map row_id rs)" using srt by (rule sorted_distinct)
  have m: "map row_id (rs[i := r]) = map row_id rs"
    using i k by (simp add: map_update list_update_id [of "map row_id rs" i, simplified] nth_equalityI)
      (metis list_update_id length_map nth_map)
  show "distinct (map row_id (rs[i := r]))" using d m by simp
  fix q v
  have s: "set (rs[i := r]) = insert r (set rs - {rs ! i})"
    using d i by (metis distinct_map set_update_distinct)
  have u: "x = rs ! i" if "x \<in> set rs" "row_id x = row_id r" for x
    using d that i k by (metis distinct_map inj_onD nth_mem)
  show "((cells_map rs)(row_id r := (if is_deleted r then None else Some (cell_data r)))) q = Some v \<longleftrightarrow>
    (\<exists>x \<in> set (rs[i := r]). row_id x = q \<and> \<not> is_deleted x \<and> cell_data x = v)"
  proof (cases "q = row_id r")
    case True
    then show ?thesis using s u by auto
  next
    case False
    then show ?thesis using s k cells_map_iff [OF d, of q v] by auto
  qed
qed

lemma cells_map_insert:
  assumes "sorted_wrt (<) (map row_id rs)" "i \<le> length rs" "row_id r \<notin> row_id ` set rs"
  shows "cells_map (vec_insert i r rs) =
    (cells_map rs)(row_id r := (if is_deleted r then None else Some (cell_data r)))"
proof (rule cells_map_eqI)
  have d: "distinct (map row_id rs)" using assms(1) by (rule sorted_distinct)
  show "distinct (map row_id (vec_insert i r rs))"
    using d assms(3) by (simp add: map_vec_insert)
  fix q v
  show "((cells_map rs)(row_id r := (if is_deleted r then None else Some (cell_data r)))) q = Some v \<longleftrightarrow>
    (\<exists>x \<in> set (vec_insert i r rs). row_id x = q \<and> \<not> is_deleted x \<and> cell_data x = v)"
  proof (cases "q = row_id r")
    case True
    have "\<not> (\<exists>x \<in> set rs. row_id x = q)" using assms(3) True by (metis image_eqI)
    then show ?thesis using True by auto
  next
    case False
    then show ?thesis using cells_map_iff [OF d, of q v] by auto
  qed
qed

lemma cells_map_part:
  assumes "sorted_wrt (<) (map row_id rs)" "set xs = {r \<in> set rs. P (row_id r)}"
    "distinct (map row_id xs)"
  shows "cells_map xs = (\<lambda>k. if P k then cells_map rs k else None)"
proof (rule cells_map_eqI [OF assms(3)])
  fix k d
  show "(if P k then cells_map rs k else None) = Some d \<longleftrightarrow>
    (\<exists>r \<in> set xs. row_id r = k \<and> \<not> is_deleted r \<and> cell_data r = d)"
    using assms(2) cells_map_iff [OF sorted_distinct [OF assms(1)], of k d] by auto
qed

lemma sorted_vec_insert:
  fixes xs :: "'k::linorder list"
  assumes "sorted_wrt (<) xs" "i \<le> length xs" "\<forall>j<i. xs ! j < x" "\<forall>j. i \<le> j \<longrightarrow> j < length xs \<longrightarrow> x < xs ! j"
  shows "sorted_wrt (<) (vec_insert i x xs)"
proof -
  have "\<forall>y \<in> set (take i xs). y < x" using assms(2,3) by (auto simp: in_set_conv_nth)
  moreover have "\<forall>y \<in> set (drop i xs). x < y"
    using assms(2,4) by (auto simp: in_set_conv_nth)
  moreover have "sorted_wrt (<) (take i xs @ drop i xs)" using assms(1) by simp
  ultimately show ?thesis unfolding vec_insert_def sorted_wrt_append by (auto intro: less_trans)
qed

section \<open>Slots of a well-formed leaf\<close>

lemma length_leaf_cells [simp]: "length (leaf_cells n) = length (lf_slots n)"
  by (simp add: leaf_cells_def)

lemma slot_cell_Ok:
  "leaf_wf n \<Longrightarrow> s \<in> set (lf_slots n) \<Longrightarrow> slot_cell n s = Ok (lf_records n ! unat s)"
  by (simp add: leaf_wf_def slot_cell_def)

lemma slot_cell_nth:
  "leaf_wf n \<Longrightarrow> i < length (lf_slots n) \<Longrightarrow> slot_cell n (lf_slots n ! i) = Ok (leaf_cells n ! i)"
  by (simp add: slot_cell_Ok leaf_cells_def)

lemma res_map_slot_cell:
  "\<forall>s \<in> set ss. unat s < length (lf_records n) \<Longrightarrow>
   res_map (slot_cell n) ss = Ok (map (\<lambda>s. lf_records n ! unat s) ss)"
  by (rule res_map_Ok) (simp add: slot_cell_def)

lemma res_map_leaf_cells: "leaf_wf n \<Longrightarrow> res_map (slot_cell n) (lf_slots n) = Ok (leaf_cells n)"
  by (simp add: res_map_slot_cell leaf_wf_def leaf_cells_def)

lemma cells_size_length: "33 + 15 * length rs \<le> cells_size rs"
  by (induction rs) (auto simp: cells_size_def page_sizes)

lemma cells_size_footer:
  "cells_size rs = LEAF_NODE_HEADER_SIZE + length rs * SLOT_ELEM_SIZE +
     sum_list (map (\<lambda>r. RECORD_META_SIZE + length (cell_data r)) rs)"
  by (induction rs) (auto simp: cells_size_def)

lemma lf_slots_bound: "leaf_wf n \<Longrightarrow> length (lf_slots n) \<le> 543"
  using cells_size_length [of "leaf_cells n"] by (simp add: leaf_wf_def page_sizes)

lemma leaf_find_spec:
  assumes "leaf_wf n"
  shows "\<exists>r. leaf_find k n = Ok r \<and>
    (case r of
       Inl i \<Rightarrow> i < length (lf_slots n) \<and> row_id (leaf_cells n ! i) = k
     | Inr i \<Rightarrow> i \<le> length (lf_slots n) \<and> (\<forall>j<i. row_id (leaf_cells n ! j) < k) \<and>
         (\<forall>j. i \<le> j \<longrightarrow> j < length (lf_slots n) \<longrightarrow> k < row_id (leaf_cells n ! j)))"
proof -
  have "\<exists>r. leaf_find k n = Ok r \<and>
    (case r of
       Inl i \<Rightarrow> i < length (lf_slots n) \<and> row_id (lf_records n ! unat (lf_slots n ! i)) = k
     | Inr i \<Rightarrow> i \<le> length (lf_slots n) \<and> (\<forall>j<i. row_id (lf_records n ! unat (lf_slots n ! j)) < k) \<and>
         (\<forall>j. i \<le> j \<longrightarrow> j < length (lf_slots n) \<longrightarrow> k < row_id (lf_records n ! unat (lf_slots n ! j))))"
    unfolding leaf_find_def
  proof (rule binary_search_by_key [where k = "\<lambda>s. row_id (lf_records n ! unat s)"])
    show "res_bind (slot_cell n s) (\<lambda>r. Ok (cmp_key (row_id r) k)) =
        Ok (cmp_key (row_id (lf_records n ! unat s)) k)" if "s \<in> set (lf_slots n)" for s
      using that assms by (simp add: slot_cell_Ok)
    show "sorted_wrt (<) (map (\<lambda>s. row_id (lf_records n ! unat s)) (lf_slots n))"
      using assms by (simp add: leaf_wf_def leaf_cells_def o_def)
  qed
  then show ?thesis
    by (auto simp: leaf_cells_def split: sum.splits)
qed

lemma leaf_find_cases:
  assumes "leaf_wf n"
  obtains (found) i where "leaf_find k n = Ok (Inl i)" "i < length (lf_slots n)"
      "row_id (leaf_cells n ! i) = k" "k \<in> row_id ` set (leaf_cells n)"
      "leaf_map n k = (if is_deleted (leaf_cells n ! i) then None else Some (cell_data (leaf_cells n ! i)))"
  | (absent) i where "leaf_find k n = Ok (Inr i)" "i \<le> length (lf_slots n)"
      "\<forall>j<i. row_id (leaf_cells n ! j) < k"
      "\<forall>j. i \<le> j \<longrightarrow> j < length (lf_slots n) \<longrightarrow> k < row_id (leaf_cells n ! j)"
      "k \<notin> row_id ` set (leaf_cells n)" "leaf_map n k = None"
proof -
  have srt: "sorted_wrt (<) (map row_id (leaf_cells n))" using assms by (simp add: leaf_wf_def)
  from leaf_find_spec [OF assms, of k] obtain r where r: "leaf_find k n = Ok r"
    "case r of
       Inl i \<Rightarrow> i < length (lf_slots n) \<and> row_id (leaf_cells n ! i) = k
     | Inr i \<Rightarrow> i \<le> length (lf_slots n) \<and> (\<forall>j<i. row_id (leaf_cells n ! j) < k) \<and>
         (\<forall>j. i \<le> j \<longrightarrow> j < length (lf_slots n) \<longrightarrow> k < row_id (leaf_cells n ! j))" by blast
  show thesis
  proof (cases r)
    case (Inl i)
    with r have i: "i < length (lf_slots n)" "row_id (leaf_cells n ! i) = k" by auto
    have "k \<in> row_id ` set (leaf_cells n)" using i by (metis imageI length_leaf_cells nth_mem)
    moreover have "leaf_map n k =
        (if is_deleted (leaf_cells n ! i) then None else Some (cell_data (leaf_cells n ! i)))"
      using cells_map_nth [OF srt, of i] i by (simp add: leaf_map_def)
    ultimately show thesis using found r(1) Inl i by blast
  next
    case (Inr i)
    with r have i: "i \<le> length (lf_slots n)" "\<forall>j<i. row_id (leaf_cells n ! j) < k"
      "\<forall>j. i \<le> j \<longrightarrow> j < length (lf_slots n) \<longrightarrow> k < row_id (leaf_cells n ! j)" by auto
    have "k \<notin> row_id ` set (leaf_cells n)"
    proof
      assume "k \<in> row_id ` set (leaf_cells n)"
      then obtain j where "j < length (lf_slots n)" "row_id (leaf_cells n ! j) = k"
        by (metis image_iff in_set_conv_nth length_leaf_cells)
      with i show False by (metis less_irrefl linorder_not_le)
    qed
    then show thesis using absent r(1) Inr i cells_map_absent by (simp add: leaf_map_def)
  qed
qed

lemma leaf_find_position:
  assumes "leaf_wf n"
  shows "\<exists>f. leaf_find k n = Ok f \<and>
    (case f of Inl i \<Rightarrow> i | Inr i \<Rightarrow> i) = length (takeWhile (\<lambda>r. row_id r < k) (leaf_cells n))"
proof -
  have srt: "sorted_wrt (<) (map row_id (leaf_cells n))" using assms by (simp add: leaf_wf_def)
  have pos: "i = length (takeWhile (\<lambda>r. row_id r < k) (leaf_cells n))"
    if "i \<le> length (lf_slots n)" "\<forall>j<i. row_id (leaf_cells n ! j) < k"
      "i < length (lf_slots n) \<longrightarrow> k \<le> row_id (leaf_cells n ! i)" for i
  proof -
    have "takeWhile (\<lambda>r. row_id r < k) (leaf_cells n) = take i (leaf_cells n)"
      by (rule takeWhile_eq_take_P_nth) (use that in auto)
    then show ?thesis using that(1) by simp
  qed
  show ?thesis
  proof (cases rule: leaf_find_cases [OF assms, of k])
    case (1 i)
    have "row_id (leaf_cells n ! j) < k" if "j < i" for j
      using sorted_wrt_nth_less [OF srt that] 1(2,3) that by simp
    with 1 pos [of i] show ?thesis by auto
  next
    case (2 i)
    with pos [of i] show ?thesis by (auto intro: less_imp_le)
  qed
qed

section \<open>Reading, deleting\<close>

text \<open>The fields that only the tree operations touch.\<close>

definition same_links :: "leaf_node \<Rightarrow> leaf_node \<Rightarrow> bool" where
  "same_links n m \<longleftrightarrow> lf_page_id m = lf_page_id n \<and> lf_has_prev m = lf_has_prev n \<and>
     lf_has_next m = lf_has_next n \<and> lf_prev m = lf_prev n \<and> lf_next m = lf_next n \<and>
     lf_dirty m = lf_dirty n \<and> lf_wal_offset m = lf_wal_offset n"

lemma get_record_map:
  assumes "leaf_wf n"
  shows "get_record k n = Ok (leaf_map n k)"
proof (rule leaf_find_cases [OF assms, of k], goal_cases)
  case (1 i)
  then show ?case using slot_cell_nth [OF assms, of i] by (simp add: get_record_def)
next
  case (2 i)
  then show ?case by (simp add: get_record_def)
qed

lemma leaf_cells_update:
  assumes "leaf_wf n" "i < length (lf_slots n)"
  shows "leaf_cells (n\<lparr>lf_records := (lf_records n)[unat (lf_slots n ! i) := r]\<rparr>) = (leaf_cells n)[i := r]"
  using map_nth_update_slot [OF _ assms(2), of "lf_records n" r] assms(1)
  by (simp add: leaf_cells_def leaf_wf_def)

lemma sorted_update_same_key:
  assumes "sorted_wrt (<) (map row_id rs)" "i < length rs" "row_id r = row_id (rs ! i)"
  shows "sorted_wrt (<) (map row_id (rs[i := r]))"
proof -
  have "map row_id (rs[i := r]) = map row_id rs"
    using assms(2,3) by (metis list_update_id map_update nth_map)
  then show ?thesis using assms(1) by simp
qed

lemma cells_size_update:
  "i < length rs \<Longrightarrow> cells_size (rs[i := r]) + length (cell_data (rs ! i)) = cells_size rs + length (cell_data r)"
proof (induction rs arbitrary: i)
  case (Cons x rs)
  then show ?case by (cases i) (auto simp: cells_size_def)
qed simp

text \<open>
  Overwriting the cell at slot \<open>i\<close> keeps a leaf well formed when the row id stays and the
  size plus the free space still fits.
\<close>

lemma leaf_overwrite_wf:
  assumes wf: "leaf_wf n" and i: "i < length (lf_slots n)" and k: "row_id r = row_id (leaf_cells n ! i)"
    and fit: "cells_size (leaf_cells n) + length (cell_data r) + unat f \<le>
      PAGE_SIZE + length (cell_data (leaf_cells n ! i))"
  shows "leaf_wf (n\<lparr>lf_records := (lf_records n)[unat (lf_slots n ! i) := r], lf_free := f\<rparr>)"
proof -
  let ?m = "n\<lparr>lf_records := (lf_records n)[unat (lf_slots n ! i) := r], lf_free := f\<rparr>"
  have c: "leaf_cells ?m = (leaf_cells n)[i := r]"
    using leaf_cells_update [OF wf i, of r] by (simp add: leaf_cells_def)
  have "sorted_wrt (<) (map row_id (leaf_cells ?m))"
    unfolding c by (rule sorted_update_same_key) (use wf i k in \<open>auto simp: leaf_wf_def\<close>)
  moreover have "cells_size (leaf_cells ?m) + unat f \<le> PAGE_SIZE"
    using cells_size_update [of i "leaf_cells n" r] i fit by (simp add: c)
  ultimately show ?thesis using wf by (simp add: leaf_wf_def)
qed

lemma leaf_overwrite_map:
  assumes wf: "leaf_wf n" and i: "i < length (lf_slots n)" and k: "row_id r = row_id (leaf_cells n ! i)"
  shows "leaf_map (n\<lparr>lf_records := (lf_records n)[unat (lf_slots n ! i) := r], lf_free := f\<rparr>) =
    (leaf_map n)(row_id r := (if is_deleted r then None else Some (cell_data r)))"
proof -
  have c: "leaf_cells (n\<lparr>lf_records := (lf_records n)[unat (lf_slots n ! i) := r], lf_free := f\<rparr>) =
      (leaf_cells n)[i := r]"
    using leaf_cells_update [OF wf i, of r] by (simp add: leaf_cells_def)
  have "sorted_wrt (<) (map row_id (leaf_cells n))" using wf by (simp add: leaf_wf_def)
  from cells_map_update_nth [OF this, of i r] i k show ?thesis by (simp add: leaf_map_def c)
qed

lemma free_noop [simp]: "n\<lparr>lf_records := rs, lf_free := lf_free n\<rparr> = n\<lparr>lf_records := rs\<rparr>"
  by simp

lemma delete_record_spec:
  assumes "leaf_wf n"
  shows "case delete_record k n of
      Ok n' \<Rightarrow> k \<in> row_id ` set (leaf_cells n) \<and> leaf_wf n' \<and> leaf_map n' = (leaf_map n)(k := None) \<and>
        same_links n n'
    | Err e \<Rightarrow> k \<notin> row_id ` set (leaf_cells n) \<and> e = KeyNotFound k
    | Panic \<Rightarrow> False"
proof (rule leaf_find_cases [OF assms, of k], goal_cases)
  case (1 i)
  let ?r = "(leaf_cells n ! i)\<lparr>is_deleted := True\<rparr>"
  have d: "delete_record k n = Ok (n\<lparr>lf_records := (lf_records n)[unat (lf_slots n ! i) := ?r]\<rparr>)"
    using 1 slot_cell_nth [OF assms 1(2)] by (simp add: delete_record_def)
  have "leaf_wf (n\<lparr>lf_records := (lf_records n)[unat (lf_slots n ! i) := ?r], lf_free := lf_free n\<rparr>)"
    by (rule leaf_overwrite_wf [OF assms 1(2)]) (use assms in \<open>auto simp: leaf_wf_def\<close>)
  moreover have "leaf_map (n\<lparr>lf_records := (lf_records n)[unat (lf_slots n ! i) := ?r], lf_free := lf_free n\<rparr>) =
      (leaf_map n)(k := None)"
    using leaf_overwrite_map [OF assms 1(2), of ?r "lf_free n"] 1(3) by simp
  ultimately show ?case using 1 d by (simp add: same_links_def)
next
  case (2 i)
  then show ?case by (simp add: delete_record_def)
qed

text \<open>
  An update rewrites the payload in place. On a tombstone it succeeds as well and leaves
  the row deleted.
\<close>

lemma update_record_spec:
  assumes wf: "leaf_wf n"
  shows "case update_record k payload n of
      Ok n' \<Rightarrow> k \<in> row_id ` set (leaf_cells n) \<and> length payload < MAX_VALUE_SIZE \<and> leaf_wf n' \<and>
        leaf_map n' = (if leaf_map n k = None then leaf_map n else (leaf_map n)(k \<mapsto> payload)) \<and>
        same_links n n'
    | Err e \<Rightarrow> e = TupleTooLarge (length payload) \<and> length payload \<ge> MAX_VALUE_SIZE \<or>
        e = KeyNotFound k \<and> k \<notin> row_id ` set (leaf_cells n) \<or>
        e = PageFull \<and> k \<in> row_id ` set (leaf_cells n)
    | Panic \<Rightarrow> False"
proof (rule leaf_find_cases [OF wf, of k], goal_cases)
  case (1 i)
  let ?o = "leaf_cells n ! i"
  let ?r = "?o\<lparr>cell_data := payload\<rparr>"
  let ?m = "\<lambda>f. n\<lparr>lf_records := (lf_records n)[unat (lf_slots n ! i) := ?r], lf_free := f\<rparr>"
  have fit: "cells_size (leaf_cells n) + unat (lf_free n) \<le> PAGE_SIZE" using wf by (simp add: leaf_wf_def)
  have old: "length (cell_data ?o) \<le> cells_size (leaf_cells n)"
    using cells_size_update [of i "leaf_cells n" "?o\<lparr>cell_data := []\<rparr>"] 1(2) by simp
  have good: "leaf_wf (?m f) \<and> same_links n (?m f) \<and>
      leaf_map (?m f) = (if leaf_map n k = None then leaf_map n else (leaf_map n)(k \<mapsto> payload))"
    if "cells_size (leaf_cells n) + length payload + unat f \<le> PAGE_SIZE + length (cell_data ?o)" for f
    using leaf_overwrite_wf [OF wf 1(2), of ?r f] leaf_overwrite_map [OF wf 1(2), of ?r f] that 1
    by (auto simp: same_links_def)
  have grow: "unat (lf_free n - of_nat (length payload - length (cell_data ?o))) =
      unat (lf_free n) - (length payload - length (cell_data ?o))"
    if "length payload - length (cell_data ?o) \<le> unat (lf_free n)"
  proof -
    have "unat (of_nat (length payload - length (cell_data ?o)) :: u16) =
        length payload - length (cell_data ?o)"
      by (rule unat_of_nat_slot) (use that unsigned_less [where ?'a = nat, of "lf_free n"] in simp)
    then show ?thesis using that by (simp add: unat_sub word_le_nat_alt)
  qed
  have shrink: "unat (lf_free n + of_nat (length (cell_data ?o) - length payload)) =
      unat (lf_free n) + (length (cell_data ?o) - length payload)"
  proof -
    have "unat (of_nat (length (cell_data ?o) - length payload) :: u16) =
        length (cell_data ?o) - length payload"
      by (rule unat_of_nat_slot) (use old fit in \<open>simp add: page_sizes\<close>)
    then show ?thesis using fit old by (simp add: unat_word_ariths page_sizes)
  qed
  have ops: "slot_cell n (lf_slots n ! i) = Ok ?o" by (rule slot_cell_nth [OF wf 1(2)])
  show ?case
  proof (cases "length payload \<ge> MAX_VALUE_SIZE")
    case True
    then show ?thesis by (simp add: update_record_def)
  next
    case small: False
    show ?thesis
    proof (cases "length payload > length (cell_data ?o)")
      case True
      then show ?thesis
        using small 1 ops grow good [of "lf_free n - of_nat (length payload - length (cell_data ?o))"] fit
        by (auto simp: update_record_def Let_def)
    next
      case False
      then show ?thesis
        using small 1 ops shrink good [of "lf_free n + of_nat (length (cell_data ?o) - length payload)"] fit
        by (auto simp: update_record_def Let_def)
    qed
  qed
next
  case (2 i)
  then show ?case by (simp add: update_record_def)
qed

section \<open>Compaction\<close>

lemma leaf_cells_upt:
  "length rs < 65536 \<Longrightarrow> lf_slots n = map of_nat [0..<length rs] \<Longrightarrow> lf_records n = rs \<Longrightarrow>
   leaf_cells n = rs"
  by (simp only: leaf_cells_def slots_upt)

abbreviation live :: "cell \<Rightarrow> bool" where "live r \<equiv> \<not> is_deleted r"

lemma cells_size_filter: "cells_size (filter P rs) \<le> cells_size rs"
  by (induction rs) (auto simp: cells_size_def)

lemma sorted_filter_ids:
  "sorted_wrt (<) (map row_id rs) \<Longrightarrow> sorted_wrt (<) (map row_id (filter P rs))"
proof (induction rs)
  case (Cons r rs)
  then show ?case by simp
qed simp

text \<open>
  Compaction does not need the free-space invariant: valid slots, sorted row ids and live
  cells that fit are enough. It then never reaches its \<open>unreachable!\<close>.
\<close>

lemma leaf_compact_cells:
  assumes slots: "\<forall>s \<in> set (lf_slots n). unat s < length (lf_records n)"
    and srt: "sorted_wrt (<) (map row_id (leaf_cells n))"
    and fit: "cells_size (filter live (leaf_cells n)) \<le> PAGE_SIZE"
  shows "\<exists>n'. leaf_compact n = Ok n' \<and> leaf_wf n' \<and> leaf_cells n' = filter live (leaf_cells n) \<and>
    unat (lf_free n') = PAGE_SIZE - cells_size (leaf_cells n') \<and> same_links n n'"
proof -
  let ?rs = "filter live (leaf_cells n)"
  have len: "length ?rs < 65536"
    using cells_size_length [of ?rs] fit by (simp add: page_sizes)
  define n' where "n' = n\<lparr>lf_records := ?rs, lf_slots := map of_nat [0..<length ?rs],
    lf_free := of_nat (PAGE_SIZE - cells_size ?rs)\<rparr>"
  have rm: "res_map (slot_cell n) (lf_slots n) = Ok (leaf_cells n)"
    using res_map_slot_cell [OF slots] by (simp add: leaf_cells_def)
  have sz: "LEAF_NODE_HEADER_SIZE + sum_list (map (\<lambda>r. RECORD_META_SIZE +
      length (cell_data r) + SLOT_ELEM_SIZE) ?rs) = cells_size ?rs"
    by (simp add: cells_size_def)
  have c: "leaf_compact n = Ok n'"
    using rm fit sz by (cases "cells_size ?rs = PAGE_SIZE") (simp_all add: leaf_compact_def Let_def n'_def)
  have l: "leaf_cells n' = ?rs" by (rule leaf_cells_upt [OF len]) (simp_all add: n'_def)
  have f: "unat (lf_free n') = PAGE_SIZE - cells_size ?rs"
    by (simp add: n'_def unat_of_nat_slot page_sizes)
  have "leaf_wf n'"
    unfolding leaf_wf_def l f
    using slots_upt(2,3) [OF len] sorted_filter_ids [OF srt, of live] fit by (simp add: n'_def)
  with c l f show ?thesis by (simp add: same_links_def n'_def)
qed

lemma leaf_map_compact:
  "sorted_wrt (<) (map row_id (leaf_cells n)) \<Longrightarrow> leaf_cells n' = filter live (leaf_cells n) \<Longrightarrow>
   leaf_map n' = leaf_map n"
  by (simp add: leaf_map_def cells_map_live)

lemma leaf_compact_spec:
  assumes "leaf_wf n"
  shows "\<exists>n'. leaf_compact n = Ok n' \<and> leaf_wf n' \<and> leaf_map n' = leaf_map n \<and>
    leaf_cells n' = filter live (leaf_cells n) \<and>
    unat (lf_free n') = PAGE_SIZE - cells_size (leaf_cells n') \<and> same_links n n'"
proof -
  have srt: "sorted_wrt (<) (map row_id (leaf_cells n))" using assms by (simp add: leaf_wf_def)
  have "cells_size (filter live (leaf_cells n)) \<le> PAGE_SIZE"
    using cells_size_filter [of live "leaf_cells n"] assms by (simp add: leaf_wf_def)
  from leaf_compact_cells [OF _ srt this] leaf_map_compact [OF srt] assms
  show ?thesis by (auto simp: leaf_wf_def)
qed

section \<open>Insertion\<close>

text \<open>The room an insertion of a new row asks for: one slot more than it uses.\<close>

definition insert_fits :: "leaf_node \<Rightarrow> u8 list \<Rightarrow> bool" where
  "insert_fits n payload \<longleftrightarrow>
     cells_size (leaf_cells n) + SLOT_ELEM_SIZE +
       (RECORD_META_SIZE + length payload + SLOT_ELEM_SIZE) \<le> PAGE_SIZE"

lemma insert_record_absent:
  assumes wf: "leaf_wf n" and len: "length payload \<le> MAX_VALUE_SIZE"
    and absent: "k \<notin> row_id ` set (leaf_cells n)"
  shows "if insert_fits n payload
    then \<exists>n' i. insert_record k payload n = Ok n' \<and> leaf_wf n' \<and>
      leaf_map n' = (leaf_map n)(k \<mapsto> payload) \<and> i \<le> length (leaf_cells n) \<and>
      leaf_cells n' = vec_insert i \<lparr>row_id = k, cell_data = payload, is_deleted = False\<rparr> (leaf_cells n) \<and>
      same_links n n'
    else insert_record k payload n = Err PageFull"
proof (rule leaf_find_cases [OF wf, of k], goal_cases)
  case (1 i)
  then show ?case using absent by simp
next
  case (2 i)
  let ?r = "\<lparr>row_id = k, cell_data = payload, is_deleted = False\<rparr>"
  let ?w = "of_nat (length (lf_records n)) :: u16"
  have srt: "sorted_wrt (<) (map row_id (leaf_cells n))" using wf by (simp add: leaf_wf_def)
  have bound: "length (lf_slots n) \<le> 543" by (rule lf_slots_bound [OF wf])
  have w: "unat ?w = length (lf_records n)"
    using bound wf by (simp add: unat_of_nat_slot leaf_wf_def)
  have sz: "LEAF_NODE_HEADER_SIZE + (length (lf_slots n) + 1) * SLOT_ELEM_SIZE +
      sum_list (map (\<lambda>r. RECORD_META_SIZE + length (cell_data r)) (leaf_cells n)) +
      (SLOT_ELEM_SIZE + RECORD_META_SIZE + length payload) =
      cells_size (leaf_cells n) + SLOT_ELEM_SIZE + (RECORD_META_SIZE + length payload + SLOT_ELEM_SIZE)"
    using cells_size_footer [of "leaf_cells n"] by simp
  show ?case
  proof (cases "insert_fits n payload")
    case False
    then have "PAGE_SIZE < LEAF_NODE_HEADER_SIZE + (length (lf_slots n) + 1) * SLOT_ELEM_SIZE +
      sum_list (map (\<lambda>r. RECORD_META_SIZE + length (cell_data r)) (leaf_cells n)) +
      (SLOT_ELEM_SIZE + RECORD_META_SIZE + length payload)"
      unfolding sz by (simp add: insert_fits_def)
    then show ?thesis
      using False 2 len res_map_leaf_cells [OF wf] by (simp add: insert_record_def Let_def)
  next
    case True
    define f where "f = PAGE_SIZE - (LEAF_NODE_HEADER_SIZE + (length (lf_slots n) + 1) * SLOT_ELEM_SIZE +
      sum_list (map (\<lambda>r. RECORD_META_SIZE + length (cell_data r)) (leaf_cells n)) +
      (SLOT_ELEM_SIZE + RECORD_META_SIZE + length payload))"
    have f: "f = PAGE_SIZE - (cells_size (leaf_cells n) + SLOT_ELEM_SIZE +
      (RECORD_META_SIZE + length payload + SLOT_ELEM_SIZE))" unfolding f_def sz ..
    define n' where "n' = n\<lparr>lf_records := lf_records n @ [?r],
      lf_slots := vec_insert i ?w (lf_slots n), lf_free := of_nat f\<rparr>"
    have le: "\<not> PAGE_SIZE < LEAF_NODE_HEADER_SIZE + (length (lf_slots n) + 1) * SLOT_ELEM_SIZE +
      sum_list (map (\<lambda>r. RECORD_META_SIZE + length (cell_data r)) (leaf_cells n)) +
      (SLOT_ELEM_SIZE + RECORD_META_SIZE + length payload)"
      unfolding sz using True by (simp add: insert_fits_def)
    have "\<not> MAX_LEAF_NODE_CELLS < length (lf_slots n)" using bound by (simp add: page_sizes)
    then have ins: "insert_record k payload n = Ok n'"
      using 2(1) len res_map_leaf_cells [OF wf] le
      by (simp add: insert_record_def Let_def n'_def f_def)
    have c: "leaf_cells n' = vec_insert i ?r (leaf_cells n)"
      using slots_append [OF _ w 2(2)] wf by (simp add: leaf_cells_def n'_def leaf_wf_def)
    have sorted': "sorted_wrt (<) (map row_id (leaf_cells n'))"
      unfolding c map_vec_insert cell.select_convs
      by (rule sorted_vec_insert) (use srt 2 in auto)
    have "cells_size (leaf_cells n') = cells_size (leaf_cells n) + (RECORD_META_SIZE + length payload + SLOT_ELEM_SIZE)"
    proof -
      have "cells_size (vec_insert i ?r xs) = cells_size xs + (RECORD_META_SIZE + length payload + SLOT_ELEM_SIZE)" for xs
      proof -
        have "sum_list (map g xs) = sum_list (map g (take i xs)) + sum_list (map g (drop i xs))" for g :: "cell \<Rightarrow> nat"
          by (metis append_take_drop_id map_append sum_list_append)
        then show ?thesis by (simp add: cells_size_def vec_insert_def)
      qed
      then show ?thesis by (simp add: c)
    qed
    moreover have "unat (of_nat f :: u16) = f" by (rule unat_of_nat_slot) (simp add: f page_sizes)
    ultimately have size': "cells_size (leaf_cells n') + unat (lf_free n') \<le> PAGE_SIZE"
      using True by (simp add: n'_def f insert_fits_def)
    have fresh: "?w \<notin> set (lf_slots n)" using wf w by (auto simp: leaf_wf_def)
    have "leaf_wf n'"
      unfolding leaf_wf_def using sorted' size' wf fresh w 2(2)
      by (auto simp: n'_def leaf_wf_def)
    moreover have "leaf_map n' = (leaf_map n)(k \<mapsto> payload)"
      using cells_map_insert [OF srt, of i ?r] 2(2) absent by (simp add: leaf_map_def c)
    moreover have "same_links n n'" by (simp add: same_links_def n'_def)
    ultimately show ?thesis using True ins c 2(2) by auto
  qed
qed

text \<open>The payload outgrows the tombstone of the key by more than the free bytes.\<close>

definition overgrown :: "u64 \<Rightarrow> u8 list \<Rightarrow> leaf_node \<Rightarrow> bool" where
  "overgrown k payload n \<longleftrightarrow> (\<exists>r \<in> set (leaf_cells n). row_id r = k \<and> is_deleted r \<and>
     length (cell_data r) + unat (lf_free n) < length payload)"

lemma overgrown_nth:
  assumes "leaf_wf n" "i < length (leaf_cells n)" "row_id (leaf_cells n ! i) = k" "is_deleted (leaf_cells n ! i)"
  shows "overgrown k payload n \<longleftrightarrow> length (cell_data (leaf_cells n ! i)) + unat (lf_free n) < length payload"
proof -
  have d: "distinct (map row_id (leaf_cells n))" by (rule sorted_distinct) (use assms(1) in \<open>simp add: leaf_wf_def\<close>)
  have "r = leaf_cells n ! i" if "r \<in> set (leaf_cells n)" "row_id r = k" for r
  proof -
    from that(1) obtain j where j: "j < length (leaf_cells n)" "leaf_cells n ! j = r" by (auto simp: in_set_conv_nth)
    with nth_eq_iff_index_eq [OF d, of j i] that(2) assms(2,3) show ?thesis by simp
  qed
  with assms show ?thesis unfolding overgrown_def by (metis nth_mem)
qed

lemma insert_record_present:
  assumes wf: "leaf_wf n" and len: "length payload \<le> MAX_VALUE_SIZE"
    and present: "k \<in> row_id ` set (leaf_cells n)"
  shows "if leaf_map n k \<noteq> None then insert_record k payload n = Err (DuplicateKey k)
    else if overgrown k payload n then insert_record k payload n = Err PageFull
    else (\<exists>n'. insert_record k payload n = Ok n' \<and> leaf_wf n' \<and>
        leaf_map n' = (leaf_map n)(k \<mapsto> payload) \<and>
        row_id ` set (leaf_cells n') \<subseteq> row_id ` set (leaf_cells n) \<and> same_links n n')"
proof (rule leaf_find_cases [OF wf, of k], goal_cases)
  case (2 i)
  then show ?case using present by simp
next
  case (1 i)
  let ?o = "leaf_cells n ! i"
  let ?r = "?o\<lparr>is_deleted := False, cell_data := payload\<rparr>"
  let ?m = "n\<lparr>lf_records := (lf_records n)[unat (lf_slots n ! i) := ?r]\<rparr>"
  have ops: "slot_cell n (lf_slots n ! i) = Ok ?o" by (rule slot_cell_nth [OF wf 1(2)])
  show ?case
  proof (cases "leaf_map n k")
    case (Some d)
    then show ?thesis using 1 ops len by (simp add: insert_record_def split: if_splits)
  next
    case None
    then have del: "is_deleted ?o" using 1(5) by (simp split: if_splits)
    have og: "overgrown k payload n \<longleftrightarrow> length payload > length (cell_data ?o) \<and> length payload - length (cell_data ?o) > unat (lf_free n)"
      using overgrown_nth [OF wf, of i k payload] 1 del by auto
    show ?thesis
    proof (cases "length payload > length (cell_data ?o) \<and> length payload - length (cell_data ?o) > unat (lf_free n)")
      case True
      then show ?thesis using None 1 ops del len og by (simp add: insert_record_def Let_def)
    next
      case False
      have ins: "insert_record k payload n = leaf_compact ?m"
        using False 1 ops del len by (auto simp: insert_record_def Let_def)
      have c: "leaf_cells ?m = (leaf_cells n)[i := ?r]" by (rule leaf_cells_update [OF wf 1(2)])
      have srt: "sorted_wrt (<) (map row_id (leaf_cells ?m))"
        unfolding c by (rule sorted_update_same_key) (use wf 1(2) in \<open>auto simp: leaf_wf_def\<close>)
      have "cells_size (leaf_cells ?m) \<le> PAGE_SIZE"
        using cells_size_update [of i "leaf_cells n" ?r] 1(2) False wf unfolding c leaf_wf_def by auto
      then have fit: "cells_size (filter live (leaf_cells ?m)) \<le> PAGE_SIZE"
        using cells_size_filter le_trans by blast
      have sl: "\<forall>s \<in> set (lf_slots ?m). unat s < length (lf_records ?m)"
        using wf by (simp add: leaf_wf_def)
      obtain n' where n': "leaf_compact ?m = Ok n'" "leaf_wf n'"
        "leaf_cells n' = filter live (leaf_cells ?m)" "same_links ?m n'"
        using leaf_compact_cells [OF sl srt fit] by blast
      have "leaf_map n' = leaf_map ?m" by (rule leaf_map_compact [OF srt n'(3)])
      also have "\<dots> = (leaf_map n)(k \<mapsto> payload)"
        using leaf_overwrite_map [OF wf 1(2), of ?r "lf_free n"] 1(3) by simp
      finally have map': "leaf_map n' = (leaf_map n)(k \<mapsto> payload)" .
      have "row_id ` set (leaf_cells n') \<subseteq> row_id ` set (leaf_cells n)"
        using 1(2) n'(3) set_update_subset_insert [of "leaf_cells n" i ?r] unfolding c by fastforce
      then show ?thesis using None ins n' map' og False by (auto simp: same_links_def)
    qed
  qed
qed

text \<open>Both cases together: the branches of an insertion.\<close>

lemma insert_record_spec:
  assumes "leaf_wf n" "length payload \<le> MAX_VALUE_SIZE"
  shows "case insert_record k payload n of
      Ok n' \<Rightarrow> leaf_map n k = None \<and> leaf_wf n' \<and> leaf_map n' = (leaf_map n)(k \<mapsto> payload) \<and>
        row_id ` set (leaf_cells n') \<subseteq> insert k (row_id ` set (leaf_cells n)) \<and> same_links n n'
    | Err e \<Rightarrow> e = DuplicateKey k \<and> leaf_map n k \<noteq> None \<or>
        e = PageFull \<and> leaf_map n k = None \<and>
          (k \<in> row_id ` set (leaf_cells n) \<or> \<not> insert_fits n payload)
    | Panic \<Rightarrow> False"
proof (cases "k \<in> row_id ` set (leaf_cells n)")
  case True
  with insert_record_present [OF assms True] show ?thesis by (auto split: if_splits)
next
  case False
  then have "leaf_map n k = None" by (simp add: leaf_map_def cells_map_absent)
  with insert_record_absent [OF assms False] False show ?thesis by (auto split: if_splits)
qed

section \<open>Splitting a leaf\<close>

lemma cells_size_take_drop: "cells_size (take m rs) \<le> cells_size rs" "cells_size (drop m rs) \<le> cells_size rs"
proof -
  have "sum_list (map g rs) = sum_list (map g (take m rs)) + sum_list (map g (drop m rs))" for g :: "cell \<Rightarrow> nat"
    by (metis append_take_drop_id map_append sum_list_append)
  then show "cells_size (take m rs) \<le> cells_size rs" "cells_size (drop m rs) \<le> cells_size rs"
    by (simp_all add: cells_size_def)
qed

lemma leaf_split_cells:
  assumes wf: "leaf_wf n" and sib: "lf_slots sib = []" "lf_records sib = []"
    and m: "m = length (lf_slots n) div 2"
  shows "\<exists>p l r. leaf_split n sib = Ok (p, l, r) \<and> leaf_wf l \<and> leaf_wf r \<and>
    leaf_cells l = filter live (take m (leaf_cells n)) \<and>
    leaf_cells r = filter live (drop m (leaf_cells n)) \<and>
    same_links n l \<and> same_links sib r \<and>
    p = (case leaf_cells r of [] \<Rightarrow> Err (CorruptPage ''leaf split resulted in empty right sibling'')
         | c # _ \<Rightarrow> Ok (row_id c))"
proof -
  define moved where "moved = drop m (leaf_cells n)"
  define n1 where "n1 = n\<lparr>lf_slots := take m (lf_slots n)\<rparr>"
  define sib1 where "sib1 = sib\<lparr>lf_records := moved, lf_slots := map of_nat [0..<length moved]\<rparr>"
  have sl: "\<forall>s \<in> set (lf_slots n). unat s < length (lf_records n)"
    and srt: "sorted_wrt (<) (map row_id (leaf_cells n))"
    and fit: "cells_size (leaf_cells n) \<le> PAGE_SIZE" using wf by (auto simp: leaf_wf_def)
  have rm: "res_map (slot_cell n) (drop m (lf_slots n)) = Ok moved"
    using sl by (subst res_map_slot_cell) (auto simp: moved_def leaf_cells_def drop_map dest: in_set_dropD)
  have ml: "length moved < 65536" using lf_slots_bound [OF wf] by (simp add: moved_def)
  have c1: "leaf_cells n1 = take m (leaf_cells n)" by (simp add: leaf_cells_def n1_def take_map)
  have c2: "leaf_cells sib1 = moved" by (rule leaf_cells_upt [OF ml]) (simp_all add: sib1_def)
  have "\<exists>l. leaf_compact n1 = Ok l \<and> leaf_wf l \<and> leaf_cells l = filter live (leaf_cells n1) \<and> same_links n1 l"
  proof -
    have "\<forall>s \<in> set (lf_slots n1). unat s < length (lf_records n1)"
      using sl by (auto simp: n1_def dest: in_set_takeD)
    moreover have "sorted_wrt (<) (map row_id (leaf_cells n1))"
      using srt by (simp add: c1 take_map [symmetric] sorted_wrt_take)
    moreover have "cells_size (filter live (leaf_cells n1)) \<le> PAGE_SIZE"
      unfolding c1 by (meson cells_size_filter cells_size_take_drop(1) fit le_trans)
    ultimately show ?thesis using leaf_compact_cells by blast
  qed
  then obtain l where l: "leaf_compact n1 = Ok l" "leaf_wf l" "leaf_cells l = filter live (leaf_cells n1)"
    "same_links n1 l" by blast
  have "\<exists>r. leaf_compact sib1 = Ok r \<and> leaf_wf r \<and> leaf_cells r = filter live (leaf_cells sib1) \<and> same_links sib1 r"
  proof -
    have "\<forall>s \<in> set (lf_slots sib1). unat s < length (lf_records sib1)"
      using slots_upt(3) [OF ml] by (simp add: sib1_def)
    moreover have "sorted_wrt (<) (map row_id (leaf_cells sib1))"
      using srt by (simp add: c2 moved_def drop_map [symmetric] sorted_wrt_drop)
    moreover have "cells_size (filter live (leaf_cells sib1)) \<le> PAGE_SIZE"
      unfolding c2 moved_def by (meson cells_size_filter cells_size_take_drop(2) fit le_trans)
    ultimately show ?thesis using leaf_compact_cells by blast
  qed
  then obtain r where r: "leaf_compact sib1 = Ok r" "leaf_wf r" "leaf_cells r = filter live (leaf_cells sib1)"
    "same_links sib1 r" by blast
  have emp: "lf_slots r = [] \<longleftrightarrow> leaf_cells r = []" by (simp add: leaf_cells_def)
  have fst: "slot_cell r (lf_slots r ! 0) = Ok (hd (leaf_cells r))" if "lf_slots r \<noteq> []"
    using slot_cell_nth [OF r(2), of 0] that by (simp add: hd_conv_nth emp)
  let ?p = "case leaf_cells r of [] \<Rightarrow> Err (CorruptPage ''leaf split resulted in empty right sibling'')
         | c # _ \<Rightarrow> Ok (row_id c)"
  have "leaf_split n sib = Ok (?p, l, r)"
    using rm l(1) r(1) fst sib emp
    by (cases "leaf_cells r") (auto simp: leaf_split_def m [symmetric] Let_def n1_def [symmetric] sib1_def)
  then show ?thesis
    using l r c1 c2 by (auto simp: moved_def same_links_def n1_def sib1_def)
qed

text \<open>
  C29: Splitting a leaf distributes its rows at the promoted key: the left leaf keeps exactly
  the rows below it, the right one takes exactly the rows from it on, and both are well formed.
\<close>

lemma leaf_split_map:
  assumes wf: "leaf_wf n" and sib: "lf_slots sib = []" "lf_records sib = []"
    and split: "leaf_split n sib = Ok (Ok pk, l, r)"
  shows "leaf_wf l \<and> leaf_wf r \<and>
    leaf_map l = (\<lambda>k. if k < pk then leaf_map n k else None) \<and>
    leaf_map r = (\<lambda>k. if k < pk then None else leaf_map n k) \<and>
    (\<forall>c \<in> set (leaf_cells l). row_id c < pk) \<and> (\<forall>c \<in> set (leaf_cells r). pk \<le> row_id c)"
proof -
  define m where "m = length (lf_slots n) div 2"
  have srt: "sorted_wrt (<) (map row_id (leaf_cells n))" using wf by (simp add: leaf_wf_def)
  from leaf_split_cells [OF wf sib m_def] split
  have l: "leaf_wf l" "leaf_cells l = filter live (take m (leaf_cells n))"
    and r: "leaf_wf r" "leaf_cells r = filter live (drop m (leaf_cells n))"
    and p: "Ok pk = (case leaf_cells r of [] \<Rightarrow> Err (CorruptPage ''leaf split resulted in empty right sibling'')
         | c # _ \<Rightarrow> Ok (row_id c))" by auto
  from p obtain c cs where cs: "leaf_cells r = c # cs" "pk = row_id c"
    by (cases "leaf_cells r") auto
  have cm: "c \<in> set (drop m (leaf_cells n))"
    using cs(1) r(2) by (metis filter_is_subset list.set_intros(1) subsetD)
  have lo: "row_id x < row_id y" if "x \<in> set (take m (leaf_cells n))" "y \<in> set (drop m (leaf_cells n))" for x y
  proof -
    have "sorted_wrt (<) (map row_id (take m (leaf_cells n)) @ map row_id (drop m (leaf_cells n)))"
      using srt by (metis append_take_drop_id map_append)
    then show ?thesis using that by (auto simp: sorted_wrt_append)
  qed
  have left: "\<forall>x \<in> set (leaf_cells l). row_id x < pk" using l(2) lo cm cs(2) by auto
  have right: "\<forall>x \<in> set (leaf_cells r). pk \<le> row_id x"
    using r(1) cs by (auto simp: leaf_wf_def intro: less_imp_le)
  have "set (take m (leaf_cells n)) \<union> set (drop m (leaf_cells n)) = set (leaf_cells n)"
    by (metis append_take_drop_id set_append)
  then have un: "set (filter live (leaf_cells n)) = set (leaf_cells l) \<union> set (leaf_cells r)"
    unfolding l(2) r(2) by auto
  have slive: "sorted_wrt (<) (map row_id (filter live (leaf_cells n)))"
    by (rule sorted_filter_ids [OF srt])
  have "set (leaf_cells l) = {c \<in> set (filter live (leaf_cells n)). row_id c < pk}"
    unfolding un using left right by fastforce
  moreover have "distinct (map row_id (leaf_cells l))"
    using l(1) by (simp add: leaf_wf_def sorted_distinct)
  ultimately have "leaf_map l = (\<lambda>k. if k < pk then leaf_map n k else None)"
    using cells_map_part [OF slive, of "leaf_cells l" "\<lambda>k. k < pk"] by (simp add: leaf_map_def cells_map_live [OF srt] cong: if_cong)
  moreover have "set (leaf_cells r) = {c \<in> set (filter live (leaf_cells n)). \<not> row_id c < pk}"
    unfolding un using left right by fastforce
  moreover have "distinct (map row_id (leaf_cells r))"
    using r(1) by (simp add: leaf_wf_def sorted_distinct)
  ultimately show ?thesis
    using cells_map_part [OF slive, of "leaf_cells r" "\<lambda>k. \<not> k < pk"] l(1) r(1) left right
    by (simp add: leaf_map_def cells_map_live [OF srt] cong: if_cong) (auto simp: fun_eq_iff)
qed

section \<open>A split by count is not a split by size\<close>

text \<open>
  A leaf with seven rows of the maximal size below seven empty rows: the insertion of one
  more maximal row at the low end does not fit before the split nor after it, because the
  split halves the number of rows, not the bytes.
\<close>

definition big_cell :: "nat \<Rightarrow> cell" where
  "big_cell i = \<lparr>row_id = of_nat i, cell_data = replicate MAX_VALUE_SIZE 0, is_deleted = False\<rparr>"

definition small_cell :: "nat \<Rightarrow> cell" where
  "small_cell i = \<lparr>row_id = of_nat i, cell_data = [], is_deleted = False\<rparr>"

definition skewed_leaf :: leaf_node where
  "skewed_leaf = (new_empty_leaf 8192)\<lparr>
     lf_records := map big_cell [1..<8] @ map small_cell [100..<107],
     lf_slots := map of_nat [0..<14], lf_free := 0\<rparr>"

lemma skewed_leaf_cells:
  "leaf_cells skewed_leaf = map big_cell [1..<8] @ map small_cell [100..<107]"
  by (rule leaf_cells_upt) (simp_all add: skewed_leaf_def)

lemma skewed_leaf_wf: "leaf_wf skewed_leaf"
proof -
  have sl: "lf_slots skewed_leaf = map of_nat [0..<length (lf_records skewed_leaf)]"
    by (simp add: skewed_leaf_def)
  have len: "length (lf_records skewed_leaf) < 65536" by (simp add: skewed_leaf_def)
  have "sorted_wrt (<) (map row_id (leaf_cells skewed_leaf))"
    by (simp add: skewed_leaf_cells upt_rec big_cell_def small_cell_def)
  moreover have "unat (lf_free skewed_leaf) = 0" by (simp add: skewed_leaf_def)
  moreover have "cells_size (leaf_cells skewed_leaf) \<le> PAGE_SIZE"
    by (simp add: skewed_leaf_cells upt_rec big_cell_def small_cell_def cells_size_def page_sizes)
  moreover have "length (lf_slots skewed_leaf) = length (lf_records skewed_leaf)"
    by (simp add: skewed_leaf_def)
  ultimately show ?thesis
    using slots_upt(2,3) [OF len] unfolding leaf_wf_def sl by simp
qed

text \<open>
  C32: A split by number of rows does not always make room: on a concrete well-formed leaf an
  insertion of a row of the maximal size fails with PageFull before compaction, after it, and
  after the split.
\<close>

lemma split_by_count_rejects:
  "\<exists>c pk l r. insert_record 8 (replicate MAX_VALUE_SIZE 0) skewed_leaf = Err PageFull \<and>
    leaf_compact skewed_leaf = Ok c \<and> insert_record 8 (replicate MAX_VALUE_SIZE 0) c = Err PageFull \<and>
    leaf_split c (new_empty_leaf 16384) = Ok (Ok pk, l, r) \<and> 8 < pk \<and>
    insert_record 8 (replicate MAX_VALUE_SIZE 0) l = Err PageFull"
proof -
  let ?p = "replicate MAX_VALUE_SIZE 0 :: u8 list"
  have full: "insert_record 8 ?p n = Err PageFull"
    if "leaf_wf n" "map big_cell [1..<8] = filter (\<lambda>c. row_id c < 50) (leaf_cells n)"
      "8 \<notin> row_id ` set (leaf_cells n)" for n
  proof -
    have "cells_size (map big_cell [1..<8]) \<le> cells_size (leaf_cells n)"
      unfolding that(2) by (rule cells_size_filter)
    moreover have "cells_size (map big_cell [1..<8]) = 7306"
      by (simp add: upt_rec big_cell_def cells_size_def page_sizes)
    ultimately have "\<not> insert_fits n ?p" by (simp add: insert_fits_def page_sizes)
    with insert_record_absent [OF that(1) _ that(3), of ?p] show ?thesis by simp
  qed
  note ev = skewed_leaf_cells upt_rec big_cell_def small_cell_def
  have f0: "insert_record 8 ?p skewed_leaf = Err PageFull"
    by (rule full [OF skewed_leaf_wf]) (simp_all add: ev)
  from leaf_compact_spec [OF skewed_leaf_wf] obtain c where c: "leaf_compact skewed_leaf = Ok c"
    "leaf_wf c" "leaf_cells c = filter live (leaf_cells skewed_leaf)" by blast
  have cc: "leaf_cells c = leaf_cells skewed_leaf" unfolding c(3) by (simp add: ev)
  have f1: "insert_record 8 ?p c = Err PageFull"
    by (rule full [OF c(2)]) (simp_all add: cc ev)
  have "length (leaf_cells c) = 14" by (simp add: cc skewed_leaf_cells)
  then have m: "7 = length (lf_slots c) div 2" by simp
  from leaf_split_cells [OF c(2) _ _ m, of "new_empty_leaf 16384"]
  obtain p l r where s: "leaf_split c (new_empty_leaf 16384) = Ok (p, l, r)" "leaf_wf l"
    "leaf_cells l = filter live (take 7 (leaf_cells c))" "leaf_cells r = filter live (drop 7 (leaf_cells c))"
    "p = (case leaf_cells r of [] \<Rightarrow> Err (CorruptPage ''leaf split resulted in empty right sibling'')
         | c # _ \<Rightarrow> Ok (row_id c))"
    by (auto simp: new_empty_leaf_def)
  have "p = Ok 100" unfolding s(4,5) cc by (simp add: ev)
  moreover have "insert_record 8 ?p l = Err PageFull"
    by (rule full [OF s(2)]) (simp_all add: s(3) cc ev)
  ultimately show ?thesis using f0 f1 c(1) s(1)
    by (intro exI [of _ c] exI [of _ 100] exI [of _ l] exI [of _ r]) simp
qed

text \<open>
  C31: Inserting a record into a well-formed leaf never panics. A payload above the maximal size
  is refused with TupleTooLarge, a live key with DuplicateKey; PageFull is returned exactly for
  a tombstone that the payload outgrows by more than the free bytes of the page and for a new
  key without room for the row and one spare slot; any other insertion succeeds, adds exactly
  this row and keeps the leaf well formed.
\<close>

lemma leaf_insertion:
  assumes "leaf_wf n"
  shows "if MAX_VALUE_SIZE < length payload then insert_record k payload n = Err (TupleTooLarge (length payload))
    else if leaf_map n k \<noteq> None then insert_record k payload n = Err (DuplicateKey k)
    else if (if k \<in> row_id ` set (leaf_cells n) then overgrown k payload n else \<not> insert_fits n payload)
      then insert_record k payload n = Err PageFull
    else (\<exists>n'. insert_record k payload n = Ok n' \<and> leaf_wf n' \<and> leaf_map n' = (leaf_map n)(k \<mapsto> payload))"
proof (cases "MAX_VALUE_SIZE < length payload")
  case True
  then show ?thesis by (simp add: insert_record_def)
next
  case False
  then have len: "length payload \<le> MAX_VALUE_SIZE" by simp
  show ?thesis
  proof (cases "k \<in> row_id ` set (leaf_cells n)")
    case True
    with insert_record_present [OF assms len True] False show ?thesis by auto
  next
    case absent: False
    then have "leaf_map n k = None" by (simp add: leaf_map_def cells_map_absent)
    with insert_record_absent [OF assms len absent] absent False show ?thesis by auto
  qed
qed

end
