(* ===== verification/PageInternal.thy ===== *)
theory PageInternal
  imports PageNode
begin

text \<open>
  Internal nodes of the B+ tree: routing by binary search agrees with the sorted list of
  entries; inserting a promoted key redirects exactly the bracket above it; compaction
  keeps the routing; a split divides the routing at the promoted key. All of it from the
  well-formedness invariant, which every operation keeps and which rules out panics.
\<close>

section \<open>Slots of a well-formed node\<close>

lemma slot_entry_Ok:
  "internal_wf n \<Longrightarrow> s \<in> set (in_slots n) \<Longrightarrow> slot_entry n s = Ok (in_entries n ! unat s)"
  by (simp add: internal_wf_def slot_entry_def)

lemma length_in_list [simp]: "length (in_list n) = length (in_slots n)"
  by (simp add: in_list_def)

lemma in_slots_bound: "internal_wf n \<Longrightarrow> length (in_slots n) \<le> 453"
  by (simp add: internal_wf_def page_sizes)

lemma entry_point_wf:
  assumes "internal_wf n"
  shows "entry_point k n = Ok (length (takeWhile (\<lambda>e. ie_key e \<le> k) (in_list n)))"
proof -
  have "entry_point k n =
      Ok (length (takeWhile (\<lambda>s. ie_key (in_entries n ! unat s) \<le> k) (in_slots n)))"
    unfolding entry_point_def
  proof (rule partition_point_takeWhile)
    show "res_bind (slot_entry n s) (\<lambda>e. Ok (ie_key e \<le> k)) = Ok (ie_key (in_entries n ! unat s) \<le> k)"
      if "s \<in> set (in_slots n)" for s using that assms by (simp add: slot_entry_Ok)
    have "sorted_wrt (<) (map (\<lambda>s. ie_key (in_entries n ! unat s)) (in_slots n))"
      using assms by (simp add: internal_wf_def in_list_def o_def)
    then show "ie_key (in_entries n ! unat (in_slots n ! i)) \<le> k"
      if "i \<le> j" "j < length (in_slots n)" "ie_key (in_entries n ! unat (in_slots n ! j)) \<le> k" for i j
      using sorted_takeWhile_le_mono that by blast
  qed
  then show ?thesis by (simp add: in_list_def takeWhile_map o_def)
qed

section \<open>Routing\<close>

lemma route_list_index:
  "route_list es r k =
     (let i = length (takeWhile (\<lambda>e. ie_key e \<le> k) es)
      in if i = length es then r else ie_child (es ! i))"
  by (induction es) (auto simp: Let_def)

lemma route_key_list:
  assumes "internal_wf n"
  shows "route_key k n = Ok (route_list (in_list n) (in_rightmost n) k)"
proof -
  let ?i = "length (takeWhile (\<lambda>e. ie_key e \<le> k) (in_list n))"
  have le: "?i \<le> length (in_slots n)"
    by (metis length_in_list length_takeWhile_le)
  show ?thesis
  proof (cases "?i = length (in_slots n)")
    case True
    then show ?thesis
      using assms by (simp add: route_key_def entry_point_wf route_list_index)
  next
    case False
    then have "?i < length (in_slots n)" using le by simp
    then show ?thesis
      using assms by (simp add: route_key_def entry_point_wf route_list_index slot_entry_Ok
          in_list_def [THEN arg_cong [where f = "\<lambda>xs. xs ! ?i"]])
  qed
qed

section \<open>Inserting a routing key\<close>

fun insert_list :: "index_entry list \<Rightarrow> page_id \<Rightarrow> u64 \<Rightarrow> page_id \<Rightarrow> index_entry list \<times> page_id" where
  "insert_list [] r k c = ([\<lparr>ie_key = k, ie_child = r\<rparr>], c)"
| "insert_list (e # es) r k c =
     (if ie_key e \<le> k then (let (es', r') = insert_list es r k c in (e # es', r'))
      else (\<lparr>ie_key = k, ie_child = ie_child e\<rparr> # e\<lparr>ie_child := c\<rparr> # es, r))"

lemma insert_list_decomp:
  "insert_list es r k c =
     (let i = length (takeWhile (\<lambda>e. ie_key e \<le> k) es) in
      if i = length es then (es @ [\<lparr>ie_key = k, ie_child = r\<rparr>], c)
      else (vec_insert i \<lparr>ie_key = k, ie_child = ie_child (es ! i)\<rparr>
              (es[i := (es ! i)\<lparr>ie_child := c\<rparr>]), r))"
  by (induction es) (auto simp: Let_def vec_insert_def)

lemma insert_list_keys:
  "ie_key ` set (fst (insert_list es r k c)) = insert k (ie_key ` set es)"
  by (induction es) (auto split: prod.splits)

lemma insert_list_length: "length (fst (insert_list es r k c)) = Suc (length es)"
  by (induction es) (auto split: prod.splits)

lemma insert_list_sorted:
  "sorted_wrt (<) (map ie_key es) \<Longrightarrow> k \<notin> ie_key ` set es \<Longrightarrow>
   sorted_wrt (<) (map ie_key (fst (insert_list es r k c)))"
proof (induction es)
  case (Cons e es)
  show ?case
  proof (cases "ie_key e \<le> k")
    case True
    have srt: "sorted_wrt (<) (map ie_key (fst (insert_list es r k c)))"
      using Cons by simp
    have "ie_key e < x" if "x \<in> ie_key ` set (fst (insert_list es r k c))" for x
      using that True Cons.prems by (auto simp: insert_list_keys)
    with srt True show ?thesis by (cases "insert_list es r k c") auto
  next
    case False
    then have "k < ie_key e" by simp
    moreover have "k < ie_key x" if "x \<in> set es" for x
      using that calculation Cons.prems(1) by (auto intro: less_trans)
    ultimately show ?thesis using Cons.prems False by auto
  qed
qed simp

text \<open>A promoted key redirects the targets of its bracket that are not below it.\<close>

definition same_bracket :: "index_entry list \<Rightarrow> u64 \<Rightarrow> u64 \<Rightarrow> bool" where
  "same_bracket es k t \<longleftrightarrow>
     takeWhile (\<lambda>e. ie_key e \<le> t) es = takeWhile (\<lambda>e. ie_key e \<le> k) es"

lemma insert_list_route:
  "sorted_wrt (<) (map ie_key es) \<Longrightarrow>
   (case insert_list es r k c of (es', r') \<Rightarrow> route_list es' r' t) =
     (if k \<le> t \<and> same_bracket es k t then c else route_list es r t)"
proof (induction es)
  case Nil
  then show ?case by (auto simp: same_bracket_def)
next
  case (Cons e es)
  show ?case
  proof (cases "ie_key e \<le> k")
    case True
    with Cons show ?thesis by (auto simp: same_bracket_def split: prod.splits)
  next
    case False
    with Cons.prems show ?thesis
      by (auto simp: same_bracket_def)
  qed
qed

lemma insert_entry_full:
  "INTERNAL_NODE_HEADER_SIZE + (length (in_slots n) + 1) * (INDEX_ENTRY_SIZE + SLOT_ELEM_SIZE)
     \<ge> PAGE_SIZE \<Longrightarrow> insert_entry k c n = Err PageFull"
  by (simp add: insert_entry_def page_sizes)

lemma insert_entry_list:
  assumes wf: "internal_wf n"
    and room: "INTERNAL_NODE_HEADER_SIZE +
      (length (in_slots n) + 1) * (INDEX_ENTRY_SIZE + SLOT_ELEM_SIZE) < PAGE_SIZE"
  shows "\<exists>n'. insert_entry k c n = Ok n' \<and>
    (in_list n', in_rightmost n') = insert_list (in_list n) (in_rightmost n) k c \<and>
    distinct (in_slots n') \<and> (\<forall>s \<in> set (in_slots n'). unat s < length (in_entries n')) \<and>
    length (in_slots n') = length (in_entries n') \<and>
    in_page_id n' = in_page_id n \<and> in_dirty n' = in_dirty n \<and> in_wal_offset n' = in_wal_offset n"
proof -
  let ?i = "length (takeWhile (\<lambda>e. ie_key e \<le> k) (in_list n))"
  let ?w = "of_nat (length (in_entries n)) :: u16"
  have le: "?i \<le> length (in_slots n)" by (metis length_in_list length_takeWhile_le)
  have w: "unat ?w = length (in_entries n)"
    using in_slots_bound [OF wf] wf by (simp add: unat_of_nat_slot internal_wf_def)
  have fresh: "?w \<notin> set (in_slots n)" using wf w by (auto simp: internal_wf_def)
  have ss: "distinct (in_slots n)" "\<forall>s \<in> set (in_slots n). unat s < length (in_entries n)"
    "length (in_slots n) = length (in_entries n)" using wf by (auto simp: internal_wf_def)
  have nf: "\<not> PAGE_SIZE \<le> INTERNAL_NODE_HEADER_SIZE +
      length (in_slots n) * (INDEX_ENTRY_SIZE + SLOT_ELEM_SIZE) + (INDEX_ENTRY_SIZE + SLOT_ELEM_SIZE)"
    using room by (simp add: page_sizes)
  show ?thesis
  proof (cases "?i = length (in_slots n)")
    case True
    have "map (\<lambda>s. (in_entries n @ [x]) ! unat s) (vec_insert ?i ?w (in_slots n)) = in_list n @ [x]" for x
      using slots_append [OF ss(2) w le, of x] True
      by (simp add: in_list_def [symmetric] vec_insert_def)
    then show ?thesis using nf fresh ss w True le
      by (auto simp: insert_entry_def entry_point_wf [OF wf] insert_list_decomp in_list_def [where n = "_\<lparr>in_entries := _, in_slots := _, in_free := _\<rparr>"] Let_def)
  next
    case False
    then have lt: "?i < length (in_slots n)" using le by simp
    let ?s = "in_slots n ! ?i"
    have se: "slot_entry n ?s = Ok (in_list n ! ?i)"
      using lt wf by (simp add: slot_entry_Ok in_list_def)
    let ?e = "in_list n ! ?i"
    let ?es = "(in_entries n)[unat ?s := ?e\<lparr>ie_child := c\<rparr>]"
    have "map (\<lambda>s. (?es @ [x]) ! unat s) (vec_insert ?i ?w (in_slots n)) =
        vec_insert ?i x ((in_list n)[?i := ?e\<lparr>ie_child := c\<rparr>])" for x
      using slots_append [of "in_slots n" ?es ?w ?i x] map_nth_update_slot [OF ss(1) lt ss(2)]
        ss(2) w le by (simp add: in_list_def)
    then show ?thesis using nf fresh ss w False lt se le
      by (auto simp: insert_entry_def entry_point_wf [OF wf] insert_list_decomp in_list_def [where n = "_\<lparr>in_entries := _, in_slots := _, in_free := _\<rparr>"] Let_def)
  qed
qed

lemma insert_entry_wf:
  assumes "internal_wf n" "k \<notin> ie_key ` set (in_list n)" "insert_entry k c n = Ok n'"
  shows "internal_wf n'"
proof -
  have room: "INTERNAL_NODE_HEADER_SIZE +
      (length (in_slots n) + 1) * (INDEX_ENTRY_SIZE + SLOT_ELEM_SIZE) < PAGE_SIZE"
    using insert_entry_full [of n k c] assms(3) by (metis error.distinct(1) linorder_not_le res.distinct(1))
  from insert_entry_list [OF assms(1) room, of k c] assms(3)
  have n': "(in_list n', in_rightmost n') = insert_list (in_list n) (in_rightmost n) k c"
    "distinct (in_slots n')" "\<forall>s \<in> set (in_slots n'). unat s < length (in_entries n')"
    "length (in_slots n') = length (in_entries n')" by auto
  have l: "in_list n' = fst (insert_list (in_list n) (in_rightmost n) k c)"
    using n'(1) by (metis fst_conv)
  have "length (in_slots n') = Suc (length (in_slots n))"
    using l insert_list_length [of "in_list n" "in_rightmost n" k c] by (metis length_in_list)
  then show ?thesis
    using n'(2-4) l room insert_list_sorted [of "in_list n" k "in_rightmost n" c] assms(1,2)
    by (simp add: internal_wf_def)
qed

text \<open>The routing function after a successful insertion of a promoted key.\<close>

lemma insert_entry_route:
  assumes "internal_wf n" "k \<notin> ie_key ` set (in_list n)" "insert_entry k c n = Ok n'"
  shows "route_key t n' = (if k \<le> t \<and> same_bracket (in_list n) k t then Ok c else route_key t n)"
proof -
  have room: "INTERNAL_NODE_HEADER_SIZE +
      (length (in_slots n) + 1) * (INDEX_ENTRY_SIZE + SLOT_ELEM_SIZE) < PAGE_SIZE"
    using insert_entry_full [of n k c] assms(3) by (metis linorder_not_le res.distinct(1))
  from insert_entry_list [OF assms(1) room, of k c] assms(3)
  have n': "(in_list n', in_rightmost n') = insert_list (in_list n) (in_rightmost n) k c" by auto
  have srt: "sorted_wrt (<) (map ie_key (in_list n))" using assms(1) by (simp add: internal_wf_def)
  have "internal_wf n'" by (rule insert_entry_wf [OF assms])
  with insert_list_route [OF srt, where r = "in_rightmost n" and k = k and c = c and t = t] n' [symmetric] show ?thesis
    by (simp add: route_key_list assms(1))
qed

section \<open>Compaction and split\<close>

lemma in_list_upt:
  "length es < 65536 \<Longrightarrow> in_slots n = map of_nat [0..<length es] \<Longrightarrow> in_entries n = es \<Longrightarrow>
   in_list n = es"
  by (simp only: in_list_def slots_upt)

lemma res_map_slot_entry:
  "\<forall>s \<in> set ss. unat s < length (in_entries n) \<Longrightarrow>
   res_map (slot_entry n) ss = Ok (map (\<lambda>s. in_entries n ! unat s) ss)"
  by (rule res_map_Ok) (simp add: slot_entry_def)

text \<open>Compaction needs only valid slots and a node that fits, which a split leaves behind.\<close>

lemma internal_compact_list:
  assumes "\<forall>s \<in> set (in_slots n). unat s < length (in_entries n)"
    and "sorted_wrt (<) (map ie_key (in_list n))"
    and "INTERNAL_NODE_HEADER_SIZE + length (in_slots n) * (INDEX_ENTRY_SIZE + SLOT_ELEM_SIZE) \<le> PAGE_SIZE"
  shows "\<exists>n'. internal_compact n = Ok n' \<and> internal_wf n' \<and> in_list n' = in_list n \<and>
    in_rightmost n' = in_rightmost n \<and> in_page_id n' = in_page_id n \<and>
    in_dirty n' = in_dirty n \<and> in_wal_offset n' = in_wal_offset n \<and>
    unat (in_free n') = PAGE_SIZE - (INTERNAL_NODE_HEADER_SIZE + length (in_slots n') * (INDEX_ENTRY_SIZE + SLOT_ELEM_SIZE))"
proof -
  let ?es = "in_list n"
  have len: "length ?es < 65536" using assms(3) by (simp add: page_sizes)
  have rm: "res_map (slot_entry n) (in_slots n) = Ok ?es"
    using assms(1) by (simp add: res_map_slot_entry in_list_def)
  define n' where "n' = n\<lparr>in_entries := ?es, in_slots := map of_nat [0..<length ?es],
    in_free := of_nat (PAGE_SIZE - (INTERNAL_NODE_HEADER_SIZE + length ?es * (INDEX_ENTRY_SIZE + SLOT_ELEM_SIZE)))\<rparr>"
  have c: "internal_compact n = Ok n'"
    using rm assms(3) by (simp add: internal_compact_def Let_def n'_def)
  have l: "in_list n' = ?es" by (rule in_list_upt [OF len]) (simp_all add: n'_def)
  have "internal_wf n'"
    unfolding internal_wf_def l using assms(2,3) slots_upt(2,3) [OF len] by (simp add: n'_def)
  moreover have "unat (in_free n') =
      PAGE_SIZE - (INTERNAL_NODE_HEADER_SIZE + length (in_slots n') * (INDEX_ENTRY_SIZE + SLOT_ELEM_SIZE))"
    by (simp add: n'_def unat_of_nat_slot page_sizes)
  ultimately show ?thesis using c l by (simp add: n'_def)
qed

lemma internal_compact_wf:
  assumes "internal_wf n"
  shows "\<exists>n'. internal_compact n = Ok n' \<and> internal_wf n' \<and> in_list n' = in_list n \<and>
    in_rightmost n' = in_rightmost n \<and> in_page_id n' = in_page_id n \<and>
    in_dirty n' = in_dirty n \<and> in_wal_offset n' = in_wal_offset n"
  using internal_compact_list [of n] assms by (auto simp: internal_wf_def)

lemma internal_split_list:
  assumes wf: "internal_wf n" and ne: "in_slots n \<noteq> []"
    and sib: "in_slots sib = []" "in_entries sib = []"
    and mid: "m = length (in_slots n) div 2"
  shows "\<exists>l r. internal_split n sib = Ok (ie_key (in_list n ! m), l, r) \<and>
    internal_wf l \<and> internal_wf r \<and>
    in_list l = take m (in_list n) \<and> in_rightmost l = ie_child (in_list n ! m) \<and>
    in_list r = drop (Suc m) (in_list n) \<and> in_rightmost r = in_rightmost n \<and>
    in_page_id l = in_page_id n \<and> in_page_id r = in_page_id sib"
proof -
  have m: "m < length (in_slots n)" using ne mid by (simp add: div_less_dividend)
  have sl: "\<forall>s \<in> set (in_slots n). unat s < length (in_entries n)"
    and srt: "sorted_wrt (<) (map ie_key (in_list n))"
    and len: "length (in_slots n) \<le> 453"
    using wf in_slots_bound [OF wf] by (auto simp: internal_wf_def)
  define moved where "moved = drop (Suc m) (in_list n)"
  define sib1 where "sib1 = sib\<lparr>in_entries := moved, in_slots := map of_nat [0..<length moved],
    in_rightmost := in_rightmost n\<rparr>"
  define n1 where "n1 = n\<lparr>in_rightmost := ie_child (in_list n ! m), in_slots := take m (in_slots n)\<rparr>"
  have rm: "res_map (slot_entry n) (drop (Suc m) (in_slots n)) = Ok moved"
    using sl by (subst res_map_slot_entry) (auto simp: moved_def in_list_def drop_map dest: in_set_dropD)
  have l1: "in_list n1 = take m (in_list n)" by (simp add: in_list_def n1_def take_map)
  have ml: "length moved < 65536" using len by (simp add: moved_def)
  have l2: "in_list sib1 = moved" by (rule in_list_upt [OF ml]) (simp_all add: sib1_def)
  have "\<exists>l. internal_compact n1 = Ok l \<and> internal_wf l \<and> in_list l = in_list n1 \<and>
      in_rightmost l = in_rightmost n1 \<and> in_page_id l = in_page_id n1"
  proof -
    have "\<forall>s \<in> set (in_slots n1). unat s < length (in_entries n1)"
      using sl by (auto simp: n1_def dest: in_set_takeD)
    moreover have "sorted_wrt (<) (map ie_key (in_list n1))"
      using srt by (simp add: l1 take_map [symmetric] sorted_wrt_take)
    moreover have "INTERNAL_NODE_HEADER_SIZE + length (in_slots n1) * (INDEX_ENTRY_SIZE + SLOT_ELEM_SIZE) \<le> PAGE_SIZE"
      using len m by (simp add: n1_def page_sizes)
    ultimately show ?thesis using internal_compact_list [of n1] by auto
  qed
  then obtain l where l: "internal_compact n1 = Ok l" "internal_wf l" "in_list l = in_list n1"
    "in_rightmost l = in_rightmost n1" "in_page_id l = in_page_id n1" by blast
  have "\<exists>r. internal_compact sib1 = Ok r \<and> internal_wf r \<and> in_list r = in_list sib1 \<and>
      in_rightmost r = in_rightmost sib1 \<and> in_page_id r = in_page_id sib1"
  proof -
    have "\<forall>s \<in> set (in_slots sib1). unat s < length (in_entries sib1)"
      using slots_upt(3) [OF ml] by (simp add: sib1_def)
    moreover have "sorted_wrt (<) (map ie_key (in_list sib1))"
      using srt by (simp add: l2 moved_def drop_map [symmetric] sorted_wrt_drop)
    moreover have "INTERNAL_NODE_HEADER_SIZE + length (in_slots sib1) * (INDEX_ENTRY_SIZE + SLOT_ELEM_SIZE) \<le> PAGE_SIZE"
      using len by (simp add: sib1_def moved_def page_sizes)
    ultimately show ?thesis using internal_compact_list [of sib1] by auto
  qed
  then obtain r where r: "internal_compact sib1 = Ok r" "internal_wf r" "in_list r = in_list sib1"
    "in_rightmost r = in_rightmost sib1" "in_page_id r = in_page_id sib1" by blast
  have s: "slot_entry n (in_slots n ! m) = Ok (in_list n ! m)"
    using m wf by (simp add: slot_entry_Ok in_list_def)
  have "internal_split n sib = Ok (ie_key (in_list n ! m), l, r)"
    using m s rm l(1) r(1) sib by (simp add: internal_split_def mid [symmetric] Let_def n1_def sib1_def)
  then show ?thesis using l r l1 l2 by (simp add: n1_def sib1_def moved_def)
qed

text \<open>The two halves route every target as the node did, divided at the promoted key.\<close>

lemma route_list_split:
  assumes "sorted_wrt (<) (map ie_key es)" "m < length es"
  shows "route_list es r t =
    (if t < ie_key (es ! m) then route_list (take m es) (ie_child (es ! m)) t
     else route_list (drop (Suc m) es) r t)"
  using assms
proof (induction es arbitrary: m)
  case (Cons e es)
  show ?case
  proof (cases m)
    case 0
    then show ?thesis by auto
  next
    case (Suc m')
    then have m': "m' < length es" using Cons.prems(2) by simp
    have IH: "route_list es r t = (if t < ie_key (es ! m')
        then route_list (take m' es) (ie_child (es ! m')) t else route_list (drop (Suc m') es) r t)"
      by (rule Cons.IH) (use Cons.prems m' in auto)
    have "ie_key e < ie_key (es ! m')" using Cons.prems(1) m' by simp
    with Suc IH show ?thesis by auto
  qed
qed simp

text \<open>
  C30: Splitting an internal node keeps the routing: every key is sent by the half that the
  promoted key selects to the child the node sent it to before.
\<close>

lemma internal_split_route:
  assumes "internal_wf n" "in_slots n \<noteq> []" "in_slots sib = []" "in_entries sib = []"
    "internal_split n sib = Ok (pk, l, r)"
  shows "internal_wf l \<and> internal_wf r \<and>
    route_key t n = (if t < pk then route_key t l else route_key t r)"
proof -
  let ?m = "length (in_slots n) div 2"
  have m: "?m < length (in_list n)" using assms(2) by (simp add: div_less_dividend)
  have srt: "sorted_wrt (<) (map ie_key (in_list n))" using assms(1) by (simp add: internal_wf_def)
  from internal_split_list [OF assms(1-4) refl] assms(5)
  have "pk = ie_key (in_list n ! ?m)" "internal_wf l" "internal_wf r"
    "in_list l = take ?m (in_list n)" "in_rightmost l = ie_child (in_list n ! ?m)"
    "in_list r = drop (Suc ?m) (in_list n)" "in_rightmost r = in_rightmost n" by auto
  then show ?thesis
    using route_list_split [OF srt m, of "in_rightmost n" t] assms(1) by (simp add: route_key_list)
qed

end
