(* ===== verification/PageCodec.thy ===== *)
theory PageCodec
  imports Bytes PageLeaf PageInternal
begin

text \<open>
  The on-disk image of a page (\<open>encode\<close>, \<open>decode\<close> of src/src/storage/page.rs) and the disk
  manager: the file as a list of bytes, its header block, page reads and writes, and the
  allocation of page ids.

  \<open>encode\<close> writes the header and the slot array at the front of the page, leaves
  \<open>free_size\<close> bytes of the old content in the gap and writes the cells in slot order
  behind it; an overfull node is refused before the first byte is written.
\<close>

section \<open>Cursors in the middle of a buffer\<close>

text \<open>\<open>written pre page\<close>: the bytes \<open>pre\<close> have been written over the front of \<open>page\<close>.
  \<open>reading pre rest\<close>: the bytes \<open>pre\<close> have been consumed and \<open>rest\<close> is ahead.\<close>

definition written :: "u8 list \<Rightarrow> u8 list \<Rightarrow> cursor" where
  "written pre page = \<lparr>cur_buf = pre @ drop (length pre) page, cur_pos = length pre\<rparr>"

definition reading :: "u8 list \<Rightarrow> u8 list \<Rightarrow> cursor" where
  "reading pre rest = \<lparr>cur_buf = pre @ rest, cur_pos = length pre\<rparr>"

lemma cursor_new_written: "cursor_new page = written [] page"
  by (simp add: cursor_new_def written_def)

lemma cursor_new_reading: "cursor_new page = reading [] page"
  by (simp add: cursor_new_def reading_def)

lemma write_written:
  "length pre + length bs \<le> length page \<Longrightarrow> write_bytes bs (written pre page) = Ok (written (pre @ bs) page)"
  by (simp add: write_bytes_def written_def add.commute)

lemma skip_written:
  "length pre + n \<le> length page \<Longrightarrow>
   skip n (written pre page) = written (pre @ take n (drop (length pre) page)) page"
proof -
  assume a: "length pre + n \<le> length page"
  have "drop (length pre) page = take n (drop (length pre) page) @ drop n (drop (length pre) page)"
    by (simp only: append_take_drop_id)
  then show ?thesis using a by (simp add: written_def skip_def add.commute)
qed

lemma skip_reading: "length bs = n \<Longrightarrow> skip n (reading pre (bs @ rest)) = reading (pre @ bs) rest"
  by (simp add: reading_def skip_def)

lemma at_cursor_reading: "at_cursor (reading pre (bs @ rest)) bs"
  by (auto simp: at_cursor_def reading_def)

context byte_codec
begin

lemma put_written:
  "length pre + length (enc x) \<le> length page \<Longrightarrow> put x (written pre page) = Ok (written (pre @ enc x) page)"
  by (simp add: put_enc write_written)

lemma write_all_written:
  "length pre + length (concat (map enc xs)) \<le> length page \<Longrightarrow>
   write_all put xs (written pre page) = Ok (written (pre @ concat (map enc xs)) page)"
proof (induction xs arbitrary: pre)
  case (Cons x xs)
  then show ?case by (simp add: put_written)
qed simp

lemma get_reading:
  "ok x \<Longrightarrow> get (reading pre (enc x @ rest)) = Ok (x, reading (pre @ enc x) rest)"
  using get_enc [of x "reading pre (enc x @ rest)"] at_cursor_reading skip_reading
  by simp

lemma read_n_reading:
  "\<forall>x \<in> set xs. ok x \<Longrightarrow> length xs = n \<Longrightarrow>
   read_n get n (reading pre (concat (map enc xs) @ rest)) =
   Ok (xs, reading (pre @ concat (map enc xs)) rest)"
  by (induction xs arbitrary: pre n) (auto simp: get_reading)

end

text \<open>Cells read in slot order, each stored at the index its slot names.\<close>

fun read_slots ::
    "(cursor \<Rightarrow> ('a \<times> cursor) res) \<Rightarrow> u16 list \<Rightarrow> 'a list \<Rightarrow> cursor \<Rightarrow> ('a list \<times> cursor) res" where
  "read_slots get [] cells c = Ok (cells, c)"
| "read_slots get (s # ss) cells c =
     res_bind (get c) (\<lambda>(x, c).
       if unat s < length cells then read_slots get ss (cells[unat s := x]) c else Panic)"

definition store_slots :: "'a list \<Rightarrow> u16 list \<Rightarrow> 'a list \<Rightarrow> 'a list" where
  "store_slots rs ss cells = fold (\<lambda>s xs. xs[unat s := rs ! unat s]) ss cells"

lemma length_store_slots [simp]: "length (store_slots rs ss cells) = length cells"
  unfolding store_slots_def by (induction ss arbitrary: cells) auto

lemma store_slots_nth:
  "i < length cells \<Longrightarrow>
   store_slots rs ss cells ! i = (if i \<in> unat ` set ss then rs ! i else cells ! i)"
  unfolding store_slots_def by (induction ss arbitrary: cells) (auto simp: nth_list_update)

lemma store_slots_all:
  assumes "length cells = length rs" "distinct ss" "\<forall>s \<in> set ss. unat s < length rs"
    "length ss = length rs"
  shows "store_slots rs ss cells = rs"
proof -
  have "distinct (map unat ss)"
    using assms(2) by (simp add: distinct_map inj_on_def word_unat_eq_iff)
  then have "card (unat ` set ss) = length rs"
    using assms(4) by (metis distinct_card length_map list.set_map)
  moreover have "unat ` set ss \<subseteq> {..<length rs}" using assms(3) by auto
  ultimately have "unat ` set ss = {..<length rs}"
    by (metis card_lessThan card_subset_eq finite_lessThan)
  then show ?thesis using assms(1) by (intro nth_equalityI) (auto simp: store_slots_nth)
qed

context byte_codec
begin

lemma read_slots_reading:
  "\<forall>s \<in> set ss. ok (rs ! unat s) \<and> unat s < length cells \<Longrightarrow>
   read_slots get ss cells (reading pre (concat (map enc (map (\<lambda>s. rs ! unat s) ss)) @ rest)) =
   Ok (store_slots rs ss cells, reading (pre @ concat (map enc (map (\<lambda>s. rs ! unat s) ss))) rest)"
proof (induction ss arbitrary: pre cells)
  case (Cons s ss)
  then show ?case by (simp add: get_reading store_slots_def)
qed (simp add: store_slots_def)

end

section \<open>Cells and entries\<close>

definition bool_u8 :: "bool \<Rightarrow> u8" where "bool_u8 b = (if b then 1 else 0)"

lemma bool_u8_nz [simp]: "bool_u8 b \<noteq> 0 \<longleftrightarrow> b"
  by (simp add: bool_u8_def)

definition put_cell :: "cell \<Rightarrow> cursor \<Rightarrow> cursor res" where
  "put_cell r c =
     res_bind (write_u64 (row_id r) c) (\<lambda>c.
     res_bind (write_u8 (bool_u8 (is_deleted r)) c) (\<lambda>c.
     res_bind (write_u32 (of_nat (length (cell_data r))) c) (\<lambda>c.
     write_bytes (cell_data r) c)))"

definition get_cell :: "cursor \<Rightarrow> (cell \<times> cursor) res" where
  "get_cell c =
     res_bind (read_u64 c) (\<lambda>(k, c).
     res_bind (read_u8 c) (\<lambda>(d, c).
     res_bind (read_u32 c) (\<lambda>(size, c).
     res_bind (read_bytes (unat size) c) (\<lambda>(v, c).
     Ok (\<lparr>row_id = k, cell_data = v, is_deleted = (d \<noteq> 0)\<rparr>, c)))))"

definition cell_bytes :: "cell \<Rightarrow> u8 list" where
  "cell_bytes r = u64_to_le (row_id r) @ [bool_u8 (is_deleted r)] @
     u32_to_le (of_nat (length (cell_data r))) @ cell_data r"

definition put_entry :: "index_entry \<Rightarrow> cursor \<Rightarrow> cursor res" where
  "put_entry e c = res_bind (write_u64 (ie_key e) c) (\<lambda>c. write_u64 (ie_child e) c)"

definition get_entry :: "cursor \<Rightarrow> (index_entry \<times> cursor) res" where
  "get_entry c =
     res_bind (read_u64 c) (\<lambda>(k, c).
     res_bind (read_u64 c) (\<lambda>(child, c). Ok (\<lparr>ie_key = k, ie_child = child\<rparr>, c)))"

definition entry_bytes :: "index_entry \<Rightarrow> u8 list" where
  "entry_bytes e = u64_to_le (ie_key e) @ u64_to_le (ie_child e)"

lemma length_cell_bytes [simp]: "length (cell_bytes r) = RECORD_META_SIZE + length (cell_data r)"
  by (simp add: cell_bytes_def page_sizes)

lemma length_entry_bytes [simp]: "length (entry_bytes e) = INDEX_ENTRY_SIZE"
  by (simp add: entry_bytes_def page_sizes)

text \<open>A writer that stores the bytes it is asked to and a reader that finds them are a codec.\<close>

lemma at_cursorE:
  assumes "at_cursor c bs"
  obtains pre rest where "c = reading pre (bs @ rest)"
  using assms unfolding at_cursor_def reading_def by (metis (full_types) cursor.surjective old.unit.exhaust)

lemma read_bytes_reading:
  "length bs = n \<Longrightarrow> read_bytes n (reading pre (bs @ rest)) = Ok (bs, reading (pre @ bs) rest)"
  using read_bytes_at [OF at_cursor_reading [of pre bs rest]] skip_reading [of bs n pre rest] by simp

lemmas prim_reading = c8.get_reading c16.get_reading c32.get_reading c64.get_reading read_bytes_reading

lemma get_cell_reading:
  assumes "length (cell_data r) < 2 ^ 32"
  shows "get_cell (reading pre (cell_bytes r @ rest)) = Ok (r, reading (pre @ cell_bytes r) rest)"
proof -
  have l: "unat (of_nat (length (cell_data r)) :: u32) = length (cell_data r)"
    using assms by (simp add: unat_of_nat)
  show ?thesis
    using c8.get_reading [where x = "bool_u8 (is_deleted r)"]
    by (simp add: get_cell_def cell_bytes_def prim_reading l)
qed

interpretation cc: byte_codec "\<lambda>r. length (cell_data r) < 2 ^ 32" cell_bytes put_cell get_cell
proof unfold_locales
  fix r c show "put_cell r c = write_bytes (cell_bytes r) c"
    by (simp add: put_cell_def cell_bytes_def write_u64_def write_u8_def write_u32_def
      write_bytes_append write_bytes_append')
next
  fix r :: cell and c assume l: "length (cell_data r) < 2 ^ 32" and "at_cursor c (cell_bytes r)"
  then obtain pre rest where "c = reading pre (cell_bytes r @ rest)" by (elim at_cursorE)
  then show "get_cell c = Ok (r, skip (length (cell_bytes r)) c)"
    using get_cell_reading [OF l] by (simp add: skip_reading)
qed

interpretation ce: byte_codec "\<lambda>_. True" entry_bytes put_entry get_entry
proof unfold_locales
  fix e c show "put_entry e c = write_bytes (entry_bytes e) c"
    by (simp add: put_entry_def entry_bytes_def write_u64_def write_bytes_append)
next
  fix e c assume "at_cursor c (entry_bytes e)"
  then obtain pre rest where "c = reading pre (entry_bytes e @ rest)" by (elim at_cursorE)
  then show "get_entry c = Ok (e, skip (length (entry_bytes e)) c)"
    using skip_reading [of "entry_bytes e" _ pre rest]
    by (simp add: get_entry_def) (simp add: entry_bytes_def prim_reading)
qed

section \<open>Encoding and decoding a page\<close>

text \<open>The header and the slot array, then the cells behind the gap.\<close>

definition leaf_put_head :: "leaf_node \<Rightarrow> u16 \<Rightarrow> cursor \<Rightarrow> cursor res" where
  "leaf_put_head n free_size c =
     res_bind (write_u8 1 c) (\<lambda>c.
     res_bind (write_u64 (lf_page_id n) c) (\<lambda>c.
     res_bind (write_u8 (bool_u8 (lf_has_prev n)) c) (\<lambda>c.
     res_bind (write_u8 (bool_u8 (lf_has_next n)) c) (\<lambda>c.
     res_bind (write_u64 (lf_prev n) c) (\<lambda>c.
     res_bind (write_u64 (lf_next n) c) (\<lambda>c.
     res_bind (write_u32 (of_nat (length (lf_slots n))) c) (\<lambda>c.
     res_bind (write_all write_u16 (lf_slots n) c) (\<lambda>c.
     write_u16 free_size c))))))))"

definition leaf_encode :: "leaf_node \<Rightarrow> u8 list \<Rightarrow> u8 list res" where
  "leaf_encode n page =
     res_bind (res_map (slot_cell n) (lf_slots n)) (\<lambda>rs.
       let header_len = LEAF_NODE_HEADER_SIZE + length (lf_slots n) * SLOT_ELEM_SIZE;
           footer_len = sum_list (map (\<lambda>r. RECORD_META_SIZE + length (cell_data r)) rs)
       in if header_len + footer_len > PAGE_SIZE then Err PageFull
          else let free_size = of_nat (PAGE_SIZE - header_len - footer_len) :: u16 in
            res_bind (leaf_put_head n free_size (cursor_new page)) (\<lambda>c.
            res_bind (write_all put_cell rs (skip (unat free_size) c)) (\<lambda>c.
            Ok (cur_buf c))))"

definition internal_put_head :: "internal_node \<Rightarrow> u16 \<Rightarrow> cursor \<Rightarrow> cursor res" where
  "internal_put_head n free_size c =
     res_bind (write_u8 0 c) (\<lambda>c.
     res_bind (write_u64 (in_page_id n) c) (\<lambda>c.
     res_bind (write_u64 (in_rightmost n) c) (\<lambda>c.
     res_bind (write_u32 (of_nat (length (in_slots n))) c) (\<lambda>c.
     res_bind (write_all write_u16 (in_slots n) c) (\<lambda>c.
     write_u16 free_size c)))))"

definition internal_encode :: "internal_node \<Rightarrow> u8 list \<Rightarrow> u8 list res" where
  "internal_encode n page =
     (let header_len = INTERNAL_NODE_HEADER_SIZE + length (in_slots n) * SLOT_ELEM_SIZE;
          footer_len = length (in_slots n) * INDEX_ENTRY_SIZE
      in if header_len + footer_len > PAGE_SIZE then Err PageFull
         else let free_size = of_nat (PAGE_SIZE - header_len - footer_len) :: u16 in
           res_bind (internal_put_head n free_size (cursor_new page)) (\<lambda>c.
           res_bind (res_map (slot_entry n) (in_slots n)) (\<lambda>es.
           res_bind (write_all put_entry es (skip (unat free_size) c)) (\<lambda>c.
           Ok (cur_buf c)))))"

fun encode :: "btree_node \<Rightarrow> u8 list \<Rightarrow> u8 list res" where
  "encode (Leaf n) page = leaf_encode n page"
| "encode (Internal n) page = internal_encode n page"

definition decode_leaf :: "cursor \<Rightarrow> leaf_node res" where
  "decode_leaf c =
     res_bind (read_u64 c) (\<lambda>(pid, c).
     res_bind (read_u8 c) (\<lambda>(has_lsib, c).
     res_bind (read_u8 c) (\<lambda>(has_rsib, c).
     res_bind (read_u64 c) (\<lambda>(lsib, c).
     res_bind (read_u64 c) (\<lambda>(rsib, c).
     res_bind (read_u32 c) (\<lambda>(cell_count, c).
     res_bind (read_n read_u16 (unat cell_count) c) (\<lambda>(indices, c).
     res_bind (read_u16 c) (\<lambda>(free_size, c).
     res_bind (read_slots get_cell indices
         (replicate (unat cell_count) \<lparr>row_id = 0, cell_data = [], is_deleted = False\<rparr>)
         (skip (unat free_size) c)) (\<lambda>(cells, c).
     Ok \<lparr>lf_page_id = pid, lf_has_prev = (has_lsib \<noteq> 0), lf_has_next = (has_rsib \<noteq> 0),
         lf_prev = lsib, lf_next = rsib, lf_slots = indices, lf_records = cells,
         lf_free = free_size, lf_dirty = False, lf_wal_offset = 0\<rparr>)))))))))"

definition decode_internal :: "cursor \<Rightarrow> internal_node res" where
  "decode_internal c =
     res_bind (read_u64 c) (\<lambda>(pid, c).
     res_bind (read_u64 c) (\<lambda>(right, c).
     res_bind (read_u32 c) (\<lambda>(entry_count, c).
     res_bind (read_n read_u16 (unat entry_count) c) (\<lambda>(indices, c).
     res_bind (read_u16 c) (\<lambda>(free_size, c).
     res_bind (read_slots get_entry indices
         (replicate (unat entry_count) \<lparr>ie_key = 0, ie_child = 0\<rparr>)
         (skip (unat free_size) c)) (\<lambda>(entries, c).
     Ok \<lparr>in_page_id = pid, in_rightmost = right, in_slots = indices, in_entries = entries,
         in_free = free_size, in_dirty = False, in_wal_offset = 0\<rparr>))))))"

definition decode :: "u8 list \<Rightarrow> btree_node res" where
  "decode page =
     res_bind (read_u8 (cursor_new page)) (\<lambda>(t, c).
       if t = 1 then res_bind (decode_leaf c) (\<lambda>n. Ok (Leaf n))
       else if t = 0 then res_bind (decode_internal c) (\<lambda>n. Ok (Internal n))
       else Err (CorruptPage ''Unknown node type''))"

section \<open>The image of a node\<close>

definition leaf_head :: "leaf_node \<Rightarrow> u16 \<Rightarrow> u8 list" where
  "leaf_head n f = u64_to_le (lf_page_id n) @ [bool_u8 (lf_has_prev n)] @ [bool_u8 (lf_has_next n)] @
     u64_to_le (lf_prev n) @ u64_to_le (lf_next n) @ u32_to_le (of_nat (length (lf_slots n))) @
     concat (map u16_to_le (lf_slots n)) @ u16_to_le f"

definition internal_head :: "internal_node \<Rightarrow> u16 \<Rightarrow> u8 list" where
  "internal_head n f = u64_to_le (in_page_id n) @ u64_to_le (in_rightmost n) @
     u32_to_le (of_nat (length (in_slots n))) @ concat (map u16_to_le (in_slots n)) @ u16_to_le f"

lemma length_concat_const: "(\<And>x. x \<in> set xs \<Longrightarrow> length (f x) = k) \<Longrightarrow> length (concat (map f xs)) = length xs * k"
  by (induction xs) auto

lemma length_slots_bytes [simp]: "length (concat (map u16_to_le ss)) = 2 * length ss"
  using length_concat_const [of ss u16_to_le 2] by simp

lemma length_cells_bytes:
  "length (concat (map cell_bytes rs)) = sum_list (map (\<lambda>r. RECORD_META_SIZE + length (cell_data r)) rs)"
  by (induction rs) auto

lemma length_leaf_head: "length (leaf_head n f) + 1 = LEAF_NODE_HEADER_SIZE + length (lf_slots n) * SLOT_ELEM_SIZE"
  by (simp add: leaf_head_def page_sizes)

lemma length_internal_head:
  "length (internal_head n f) + 1 = INTERNAL_NODE_HEADER_SIZE + length (in_slots n) * SLOT_ELEM_SIZE"
  by (simp add: internal_head_def page_sizes)

lemma length_cell_concat:
  "length (concat (map cell_bytes (leaf_cells n))) + LEAF_NODE_HEADER_SIZE + length (lf_slots n) * SLOT_ELEM_SIZE =
   cells_size (leaf_cells n)"
  by (simp add: length_cells_bytes cells_size_footer)

lemmas prim_written = c8.put_written c16.put_written c32.put_written c64.put_written
  c16.write_all_written

lemma leaf_put_head_written:
  "length (leaf_head n f) < length page \<Longrightarrow>
   leaf_put_head n f (cursor_new page) = Ok (written (1 # leaf_head n f) page)"
  by (simp add: leaf_put_head_def leaf_head_def cursor_new_written prim_written)

lemma internal_put_head_written:
  "length (internal_head n f) < length page \<Longrightarrow>
   internal_put_head n f (cursor_new page) = Ok (written (0 # internal_head n f) page)"
  by (simp add: internal_put_head_def internal_head_def cursor_new_written prim_written)

lemma leaf_encode_image:
  assumes wf: "leaf_wf n" and page: "length page = PAGE_SIZE"
  defines "f \<equiv> of_nat (PAGE_SIZE - cells_size (leaf_cells n)) :: u16"
  defines "hdr \<equiv> 1 # leaf_head n f"
  shows "leaf_encode n page = Ok (hdr @ take (unat f) (drop (length hdr) page) @ concat (map cell_bytes (leaf_cells n)))"
proof -
  let ?body = "concat (map cell_bytes (leaf_cells n))"
  have fit: "cells_size (leaf_cells n) \<le> PAGE_SIZE" using wf by (simp add: leaf_wf_def)
  have uf: "unat f = PAGE_SIZE - cells_size (leaf_cells n)"
    by (simp add: f_def unat_of_nat page_sizes)
  have lh: "length hdr = LEAF_NODE_HEADER_SIZE + length (lf_slots n) * SLOT_ELEM_SIZE"
    using length_leaf_head [of n f] by (simp add: hdr_def)
  have lb: "length ?body + length hdr = cells_size (leaf_cells n)"
    using length_cell_concat [of n] lh by simp
  have ff: "(of_nat (PAGE_SIZE - (LEAF_NODE_HEADER_SIZE + length (lf_slots n) * SLOT_ELEM_SIZE) -
      sum_list (map (\<lambda>r. RECORD_META_SIZE + length (cell_data r)) (leaf_cells n))) :: u16) = f"
    by (simp add: f_def cells_size_footer)
  have ok: "\<not> LEAF_NODE_HEADER_SIZE + length (lf_slots n) * SLOT_ELEM_SIZE +
      sum_list (map (\<lambda>r. RECORD_META_SIZE + length (cell_data r)) (leaf_cells n)) > PAGE_SIZE"
    using fit by (simp add: cells_size_footer)
  have head: "leaf_put_head n f (cursor_new page) = Ok (written hdr page)"
    using leaf_put_head_written [of n f page] lb fit page by (simp add: hdr_def)
  have tail: "write_all put_cell (leaf_cells n) (skip (unat f) (written hdr page)) =
      Ok (written (hdr @ take (unat f) (drop (length hdr) page) @ ?body) page)"
    using lb fit uf page by (simp add: skip_written cc.write_all_written)
  have len: "length (hdr @ take (unat f) (drop (length hdr) page) @ ?body) = PAGE_SIZE"
    using lb fit uf page by simp
  have img: "cur_buf (written (hdr @ take (unat f) (drop (length hdr) page) @ ?body) page) =
      hdr @ take (unat f) (drop (length hdr) page) @ ?body"
    using len page by (simp add: written_def)
  show ?thesis
    unfolding leaf_encode_def res_map_leaf_cells [OF wf] res_bind.simps Let_def ff if_not_P [OF ok] head tail img
    by simp
qed

lemma internal_encode_image:
  assumes wf: "internal_wf n" and page: "length page = PAGE_SIZE"
  defines "f \<equiv> of_nat (PAGE_SIZE - (INTERNAL_NODE_HEADER_SIZE +
    length (in_slots n) * (INDEX_ENTRY_SIZE + SLOT_ELEM_SIZE))) :: u16"
  defines "hdr \<equiv> 0 # internal_head n f"
  shows "internal_encode n page = Ok (hdr @ take (unat f) (drop (length hdr) page) @ concat (map entry_bytes (in_list n)))"
proof -
  let ?body = "concat (map entry_bytes (in_list n))"
  let ?size = "INTERNAL_NODE_HEADER_SIZE + length (in_slots n) * (INDEX_ENTRY_SIZE + SLOT_ELEM_SIZE)"
  have fit: "?size \<le> PAGE_SIZE" using wf unfolding internal_wf_def by blast
  have uf: "unat f = PAGE_SIZE - ?size"
    by (simp add: f_def unat_of_nat page_sizes)
  have lh: "length hdr = INTERNAL_NODE_HEADER_SIZE + length (in_slots n) * SLOT_ELEM_SIZE"
    using length_internal_head [of n f] by (simp add: hdr_def)
  have lb: "length ?body + length hdr = ?size"
    using lh length_concat_const [of "in_list n" entry_bytes INDEX_ENTRY_SIZE]
    by (simp add: in_list_def algebra_simps)
  have ff: "(of_nat (PAGE_SIZE - (INTERNAL_NODE_HEADER_SIZE + length (in_slots n) * SLOT_ELEM_SIZE) -
      length (in_slots n) * INDEX_ENTRY_SIZE) :: u16) = f"
    by (simp add: f_def algebra_simps)
  have ok: "\<not> INTERNAL_NODE_HEADER_SIZE + length (in_slots n) * SLOT_ELEM_SIZE +
      length (in_slots n) * INDEX_ENTRY_SIZE > PAGE_SIZE"
    using fit by (simp add: algebra_simps)
  have head: "internal_put_head n f (cursor_new page) = Ok (written hdr page)"
    using internal_put_head_written [of n f page] lb fit page by (simp add: hdr_def)
  have es: "res_map (slot_entry n) (in_slots n) = Ok (in_list n)"
    unfolding in_list_def using wf by (intro res_map_Ok) (simp add: slot_entry_def internal_wf_def)
  have tail: "write_all put_entry (in_list n) (skip (unat f) (written hdr page)) =
      Ok (written (hdr @ take (unat f) (drop (length hdr) page) @ ?body) page)"
    using lb fit uf page by (simp add: skip_written ce.write_all_written)
  have len: "length (hdr @ take (unat f) (drop (length hdr) page) @ ?body) = PAGE_SIZE"
    using lb fit uf page by simp
  have img: "cur_buf (written (hdr @ take (unat f) (drop (length hdr) page) @ ?body) page) =
      hdr @ take (unat f) (drop (length hdr) page) @ ?body"
    using len page by (simp add: written_def)
  show ?thesis
    unfolding internal_encode_def Let_def ff if_not_P [OF ok] head res_bind.simps es tail img
    by simp
qed

section \<open>Round trip\<close>

text \<open>What a reader of the image gets: the node with its free space recomputed and clean.\<close>

definition reloaded_leaf :: "leaf_node \<Rightarrow> leaf_node" where
  "reloaded_leaf n = n\<lparr>lf_free := of_nat (PAGE_SIZE - cells_size (leaf_cells n)),
     lf_dirty := False, lf_wal_offset := 0\<rparr>"

definition reloaded_internal :: "internal_node \<Rightarrow> internal_node" where
  "reloaded_internal n = n\<lparr>in_free := of_nat (PAGE_SIZE - (INTERNAL_NODE_HEADER_SIZE +
     length (in_slots n) * (INDEX_ENTRY_SIZE + SLOT_ELEM_SIZE))),
     in_dirty := False, in_wal_offset := 0\<rparr>"

fun reloaded :: "btree_node \<Rightarrow> btree_node" where
  "reloaded (Leaf n) = Leaf (reloaded_leaf n)"
| "reloaded (Internal n) = Internal (reloaded_internal n)"

fun node_wf :: "btree_node \<Rightarrow> bool" where
  "node_wf (Leaf n) = leaf_wf n"
| "node_wf (Internal n) = internal_wf n"

lemma decode_leaf_image:
  assumes slots: "distinct (lf_slots n)" "\<forall>s \<in> set (lf_slots n). unat s < length (lf_records n)"
      "length (lf_slots n) = length (lf_records n)" "length (lf_slots n) < 2 ^ 32"
    and data: "\<forall>r \<in> set (lf_records n). length (cell_data r) < 2 ^ 32"
    and gap: "length gap = unat f"
  shows "decode_leaf (reading pre (leaf_head n f @ gap @ concat (map cell_bytes (leaf_cells n)) @ rest)) =
    Ok (n\<lparr>lf_free := f, lf_dirty := False, lf_wal_offset := 0\<rparr>)"
proof -
  have ul: "unat (of_nat (length (lf_slots n)) :: u32) = length (lf_slots n)"
    using slots(4) by (simp add: unat_of_nat)
  have cells: "read_slots get_cell (lf_slots n)
      (replicate (length (lf_slots n)) \<lparr>row_id = 0, cell_data = [], is_deleted = False\<rparr>)
      (reading p (concat (map cell_bytes (leaf_cells n)) @ rest)) =
     Ok (lf_records n, reading (p @ concat (map cell_bytes (leaf_cells n))) rest)" for p
    unfolding leaf_cells_def using slots data
    by (subst cc.read_slots_reading) (simp_all add: store_slots_all)
  show ?thesis
    using cells gap
    by (simp add: decode_leaf_def leaf_head_def prim_reading ul c16.read_n_reading skip_reading
      c8.get_reading [simplified])
qed

lemma decode_internal_image:
  assumes slots: "distinct (in_slots n)" "\<forall>s \<in> set (in_slots n). unat s < length (in_entries n)"
      "length (in_slots n) = length (in_entries n)" "length (in_slots n) < 2 ^ 32"
    and gap: "length gap = unat f"
  shows "decode_internal (reading pre (internal_head n f @ gap @ concat (map entry_bytes (in_list n)) @ rest)) =
    Ok (n\<lparr>in_free := f, in_dirty := False, in_wal_offset := 0\<rparr>)"
proof -
  have ul: "unat (of_nat (length (in_slots n)) :: u32) = length (in_slots n)"
    using slots(4) by (simp add: unat_of_nat)
  have entries: "read_slots get_entry (in_slots n)
      (replicate (length (in_slots n)) \<lparr>ie_key = 0, ie_child = 0\<rparr>)
      (reading p (concat (map entry_bytes (in_list n)) @ rest)) =
     Ok (in_entries n, reading (p @ concat (map entry_bytes (in_list n))) rest)" for p
    unfolding in_list_def using slots
    by (subst ce.read_slots_reading) (simp_all add: store_slots_all)
  show ?thesis
    using entries gap
    by (simp add: decode_internal_def internal_head_def prim_reading ul c16.read_n_reading skip_reading)
qed

lemma leaf_cells_set: "leaf_wf n \<Longrightarrow> set (leaf_cells n) = set (lf_records n)"
proof -
  assume wf: "leaf_wf n"
  then have "store_slots (lf_records n) (lf_slots n) (lf_records n) = lf_records n"
    and d: "distinct (map unat (lf_slots n))"
    by (simp_all add: leaf_wf_def store_slots_all distinct_map inj_on_def word_unat_eq_iff)
  have "card (unat ` set (lf_slots n)) = length (lf_records n)"
    using wf d unfolding leaf_wf_def by (metis distinct_card length_map list.set_map)
  moreover have "unat ` set (lf_slots n) \<subseteq> {..<length (lf_records n)}"
    using wf by (auto simp: leaf_wf_def)
  ultimately have "unat ` set (lf_slots n) = {..<length (lf_records n)}"
    by (metis card_lessThan card_subset_eq finite_lessThan)
  then have "set (leaf_cells n) = (\<lambda>i. lf_records n ! i) ` {..<length (lf_records n)}"
    by (auto simp: leaf_cells_def image_image [symmetric])
  then show ?thesis by (auto simp: set_conv_nth)
qed

lemma cell_length_le: "r \<in> set rs \<Longrightarrow> length (cell_data r) \<le> cells_size rs"
proof -
  assume "r \<in> set rs"
  then have "length (cell_data r) \<le> sum_list (map (\<lambda>r. length (cell_data r)) rs)"
    by (simp add: member_le_sum_list)
  also have "\<dots> \<le> cells_size rs"
    unfolding cells_size_def by (induction rs) auto
  finally show ?thesis .
qed

lemma leaf_roundtrip:
  assumes wf: "leaf_wf n" and page: "length page = PAGE_SIZE"
  shows "\<exists>img. leaf_encode n page = Ok img \<and> length img = PAGE_SIZE \<and> decode img = Ok (Leaf (reloaded_leaf n))"
proof -
  define f where "f = (of_nat (PAGE_SIZE - cells_size (leaf_cells n)) :: u16)"
  let ?gap = "take (unat f) (drop (length (1 # leaf_head n f)) page)"
  let ?body = "concat (map cell_bytes (leaf_cells n))"
  have fit: "cells_size (leaf_cells n) \<le> PAGE_SIZE" using wf by (simp add: leaf_wf_def)
  have uf: "unat f = PAGE_SIZE - cells_size (leaf_cells n)"
    by (simp add: f_def unat_of_nat page_sizes)
  have lb: "length ?body + (length (leaf_head n f) + 1) = cells_size (leaf_cells n)"
    using length_cell_concat [of n] length_leaf_head [of n f] by simp
  have gap: "length ?gap = unat f" using lb fit uf page by simp
  have img: "leaf_encode n page = Ok (1 # leaf_head n f @ ?gap @ ?body)"
    using leaf_encode_image [OF wf page] by (simp add: f_def)
  have len: "length (1 # leaf_head n f @ ?gap @ ?body) = PAGE_SIZE"
    using lb fit uf gap by simp
  have rd: "read_u8 (reading [] (1 # xs)) = Ok (1, reading [1] xs)" for xs
    using c8.get_reading [where x = 1 and pre = "[]" and rest = xs] by simp
  have "\<forall>r \<in> set (lf_records n). length (cell_data r) < 2 ^ 32"
    using cell_length_le [of _ "leaf_cells n"] fit leaf_cells_set [OF wf]
    by (fastforce simp: page_sizes)
  then have "decode_leaf (reading [1] (leaf_head n f @ ?gap @ ?body @ [])) =
      Ok (n\<lparr>lf_free := f, lf_dirty := False, lf_wal_offset := 0\<rparr>)"
    using wf lf_slots_bound [OF wf] gap
    by (intro decode_leaf_image) (simp_all add: leaf_wf_def)
  then have "decode (1 # leaf_head n f @ ?gap @ ?body) = Ok (Leaf (reloaded_leaf n))"
    by (simp add: decode_def cursor_new_reading rd reloaded_leaf_def f_def)
  with img len show ?thesis by blast
qed

lemma internal_roundtrip:
  assumes wf: "internal_wf n" and page: "length page = PAGE_SIZE"
  shows "\<exists>img. internal_encode n page = Ok img \<and> length img = PAGE_SIZE \<and>
    decode img = Ok (Internal (reloaded_internal n))"
proof -
  let ?size = "INTERNAL_NODE_HEADER_SIZE + length (in_slots n) * (INDEX_ENTRY_SIZE + SLOT_ELEM_SIZE)"
  define f where "f = (of_nat (PAGE_SIZE - ?size) :: u16)"
  let ?gap = "take (unat f) (drop (length (0 # internal_head n f)) page)"
  let ?body = "concat (map entry_bytes (in_list n))"
  have fit: "?size \<le> PAGE_SIZE" using wf unfolding internal_wf_def by blast
  have uf: "unat f = PAGE_SIZE - ?size"
    by (simp add: f_def unat_of_nat page_sizes)
  have lb: "length ?body + (length (internal_head n f) + 1) = ?size"
    using length_internal_head [of n f] length_concat_const [of "in_list n" entry_bytes INDEX_ENTRY_SIZE]
    by (simp add: in_list_def algebra_simps)
  have gap: "length ?gap = unat f" using lb fit uf page by simp
  have img: "internal_encode n page = Ok (0 # internal_head n f @ ?gap @ ?body)"
    using internal_encode_image [OF wf page] by (simp add: f_def)
  have len: "length (0 # internal_head n f @ ?gap @ ?body) = PAGE_SIZE"
    using lb fit uf gap by simp
  have rd: "read_u8 (reading [] (0 # xs)) = Ok (0, reading [0] xs)" for xs
    using c8.get_reading [where x = 0 and pre = "[]" and rest = xs] by simp
  have "length (in_slots n) < 2 ^ 32" using fit by (simp add: page_sizes)
  then have "decode_internal (reading [0] (internal_head n f @ ?gap @ ?body @ [])) =
      Ok (n\<lparr>in_free := f, in_dirty := False, in_wal_offset := 0\<rparr>)"
    using wf gap by (intro decode_internal_image) (simp_all add: internal_wf_def)
  then have "decode (0 # internal_head n f @ ?gap @ ?body) = Ok (Internal (reloaded_internal n))"
    by (simp add: decode_def cursor_new_reading rd reloaded_internal_def f_def)
  with img len show ?thesis by blast
qed

lemma encode_roundtrip:
  "node_wf n \<Longrightarrow> length page = PAGE_SIZE \<Longrightarrow>
   \<exists>img. encode n page = Ok img \<and> length img = PAGE_SIZE \<and> decode img = Ok (reloaded n)"
  using leaf_roundtrip internal_roundtrip by (cases n) auto

lemma reloaded_leaf_simps [simp]:
  "leaf_cells (reloaded_leaf n) = leaf_cells n" "leaf_map (reloaded_leaf n) = leaf_map n"
  by (simp_all add: reloaded_leaf_def leaf_map_def leaf_cells_def)

lemma reloaded_wf: "node_wf n \<Longrightarrow> node_wf (reloaded n)"
proof (cases n)
  case (Leaf m)
  assume "node_wf n"
  with Leaf have wf: "leaf_wf m" by simp
  have "unat (of_nat (PAGE_SIZE - cells_size (leaf_cells m)) :: u16) = PAGE_SIZE - cells_size (leaf_cells m)"
    by (simp add: unat_of_nat page_sizes)
  with wf have "leaf_wf (reloaded_leaf m)"
    unfolding leaf_wf_def reloaded_leaf_simps by (simp add: reloaded_leaf_def)
  with Leaf show ?thesis by simp
next
  case (Internal m)
  have "internal_wf (reloaded_internal m) = internal_wf m"
    by (simp add: internal_wf_def reloaded_internal_def in_list_def)
  moreover assume "node_wf n"
  ultimately show ?thesis using Internal by simp
qed

text \<open>
  C24: The page format is a round trip: a well-formed node of either kind encodes into exactly
  one page of 8192 bytes, and the page decodes to the same node up to the fields that live in
  memory only (records in slot order, not dirty).
\<close>

lemma page_roundtrip:
  "node_wf n \<Longrightarrow> length page = PAGE_SIZE \<Longrightarrow>
   \<exists>img. encode n page = Ok img \<and> length img = PAGE_SIZE \<and> decode img = Ok (reloaded n)"
  by (rule encode_roundtrip)

end
