(* ===== verification/Disk.thy ===== *)
theory Disk
  imports PageCodec
begin

text \<open>
  \<open>FileHeader\<close> and \<open>DiskManager\<close> of src/src/storage/page.rs: the database file as a list of
  bytes, the header block at offset 0, positioned page reads and writes and the allocation of
  page ids, which are byte offsets. A positioned read past the end of the file fails, a
  positioned write past the end fills the hole with zeros, as \<open>read_exact_at\<close> and
  \<open>write_all_at\<close> of the standard library do; other failures of the operating system are
  outside the model.
\<close>

definition read_exact_at :: "nat \<Rightarrow> nat \<Rightarrow> u8 list \<Rightarrow> u8 list res" where
  "read_exact_at n off file =
     (if off + n \<le> length file then Ok (take n (drop off file))
      else Err (Io ''failed to fill whole buffer''))"

definition write_all_at :: "u8 list \<Rightarrow> nat \<Rightarrow> u8 list \<Rightarrow> u8 list" where
  "write_all_at bs off file =
     take off (file @ replicate (off - length file) 0) @ bs @ drop (off + length bs) file"

record file_header =
  page_root_offset :: u64
  next_lsn :: u64
  next_free_offset :: u64

record disk_manager =
  dm_file :: "u8 list"
  dm_header :: file_header

definition default_header :: file_header where
  "default_header = \<lparr>page_root_offset = 0, next_lsn = 0, next_free_offset = of_nat PAGE_SIZE\<rparr>"

definition disk_open :: "u8 list \<Rightarrow> disk_manager res" where
  "disk_open file =
     (if length file > 0 then
        res_bind (read_exact_at 28 0 file) (\<lambda>buffer.
        res_bind (read_u64 (cursor_new buffer)) (\<lambda>(root, c).
        res_bind (read_u64 c) (\<lambda>(lsn, c).
        res_bind (read_u64 c) (\<lambda>(nf, c).
        Ok \<lparr>dm_file = file, dm_header =
              \<lparr>page_root_offset = root, next_lsn = lsn, next_free_offset = nf\<rparr>\<rparr>))))
      else Ok \<lparr>dm_file = file, dm_header = default_header\<rparr>)"

definition disk_is_empty :: "disk_manager \<Rightarrow> bool" where
  "disk_is_empty d \<longleftrightarrow> of_nat PAGE_SIZE = next_free_offset (dm_header d)"

definition read_page :: "page_id \<Rightarrow> disk_manager \<Rightarrow> u8 list res" where
  "read_page p d = read_exact_at PAGE_SIZE (unat p) (dm_file d)"

definition write_page :: "page_id \<Rightarrow> u8 list \<Rightarrow> disk_manager \<Rightarrow> disk_manager" where
  "write_page p page d = d\<lparr>dm_file := write_all_at page (unat p) (dm_file d)\<rparr>"

definition compute_new_page_id :: "disk_manager \<Rightarrow> page_id \<times> disk_manager" where
  "compute_new_page_id d =
     (let p = next_free_offset (dm_header d)
      in (p, d\<lparr>dm_header := (dm_header d)\<lparr>next_free_offset := p + of_nat PAGE_SIZE\<rparr>\<rparr>))"

definition save_header :: "disk_manager \<Rightarrow> disk_manager res" where
  "save_header d =
     res_bind (write_u64 (page_root_offset (dm_header d)) (cursor_new (replicate 28 0))) (\<lambda>c.
     res_bind (write_u64 (next_lsn (dm_header d)) c) (\<lambda>c.
     res_bind (write_u64 (next_free_offset (dm_header d)) c) (\<lambda>c.
     Ok (d\<lparr>dm_file := write_all_at (cur_buf c) 0 (dm_file d)\<rparr>))))"

section \<open>Positioned reads and writes\<close>

lemma length_write_all_at [simp]:
  "length (write_all_at bs off file) = max (length file) (off + length bs)"
  by (simp add: write_all_at_def)

lemma read_write_same: "read_exact_at (length bs) off (write_all_at bs off file) = Ok bs"
  by (simp add: read_exact_at_def) (simp add: write_all_at_def min_def)

lemma write_all_at_nth:
  assumes "i < length file" "i < off \<or> off + length bs \<le> i"
  shows "write_all_at bs off file ! i = file ! i"
  using assms by (auto simp: write_all_at_def nth_append min_def)

lemma read_write_other:
  assumes "read_exact_at n a file = Ok xs" "a + n \<le> off \<or> off + length bs \<le> a"
  shows "read_exact_at n a (write_all_at bs off file) = Ok xs"
proof -
  from assms(1) have l: "a + n \<le> length file" "xs = take n (drop a file)"
    by (auto simp: read_exact_at_def split: if_splits)
  have "take n (drop a (write_all_at bs off file)) = take n (drop a file)"
    using l(1) assms(2) by (intro nth_equalityI) (auto intro!: write_all_at_nth)
  with l show ?thesis by (simp add: read_exact_at_def)
qed

section \<open>Pages and the header\<close>

text \<open>Page ids are page-aligned and do not name the header block.\<close>

definition aligned :: "page_id \<Rightarrow> bool" where
  "aligned p \<longleftrightarrow> unat p mod PAGE_SIZE = 0 \<and> p \<noteq> 0"

lemma aligned_disjoint:
  assumes "aligned p" "aligned q" "p \<noteq> q"
  shows "unat p + PAGE_SIZE \<le> unat q \<or> unat q + PAGE_SIZE \<le> unat p"
proof -
  obtain a b where ab: "unat p = a * PAGE_SIZE" "unat q = b * PAGE_SIZE"
    using assms unfolding aligned_def by (metis dvd_def mod_eq_0_iff_dvd mult.commute)
  then have "a \<noteq> b" using assms(3) by (auto simp: word_unat_eq_iff)
  then have "a + 1 \<le> b \<or> b + 1 \<le> a" by linarith
  then have "(a + 1) * PAGE_SIZE \<le> b * PAGE_SIZE \<or> (b + 1) * PAGE_SIZE \<le> a * PAGE_SIZE"
    using mult_le_mono1 by blast
  with ab show ?thesis by (simp add: add.commute)
qed

lemma aligned_ge: "aligned p \<Longrightarrow> PAGE_SIZE \<le> unat p"
  by (metis aligned_def mod_less not_le unat_0_iff)

lemma read_write_page:
  "length page = PAGE_SIZE \<Longrightarrow> read_page p (write_page p page d) = Ok page"
  using read_write_same [of page] by (simp add: read_page_def write_page_def)

lemma read_write_other_page:
  "length page = PAGE_SIZE \<Longrightarrow> aligned p \<Longrightarrow> aligned q \<Longrightarrow> p \<noteq> q \<Longrightarrow> read_page p d = Ok old \<Longrightarrow>
   read_page p (write_page q page d) = Ok old"
  using aligned_disjoint [of p q] by (auto simp: read_page_def write_page_def intro!: read_write_other)

lemma read_page_length: "read_page p d = Ok page \<Longrightarrow> length page = PAGE_SIZE"
  by (auto simp: read_page_def read_exact_at_def split: if_splits)

lemma header_write_page [simp]: "dm_header (write_page p page d) = dm_header d"
  by (simp add: write_page_def)

definition header_image :: "file_header \<Rightarrow> u8 list" where
  "header_image h = u64_to_le (page_root_offset h) @ u64_to_le (next_lsn h) @
     u64_to_le (next_free_offset h) @ [0, 0, 0, 0]"

lemma save_header_eq:
  "save_header d = Ok (d\<lparr>dm_file := write_all_at (header_image (dm_header d)) 0 (dm_file d)\<rparr>)"
  by (simp add: save_header_def cursor_new_written c64.put_written)
    (simp add: written_def header_image_def numeral_eq_Suc)

text \<open>Saving the header and reopening the file restores it, and no page changes.\<close>

lemma save_header_open:
  "\<exists>d'. save_header d = Ok d' \<and> disk_open (dm_file d') = Ok d' \<and> dm_header d' = dm_header d"
proof -
  let ?f = "write_all_at (header_image (dm_header d)) 0 (dm_file d)"
  have "length (header_image (dm_header d)) = 28" by (simp add: header_image_def)
  then have "read_exact_at 28 0 ?f = Ok (header_image (dm_header d))"
    using read_write_same [of "header_image (dm_header d)" 0 "dm_file d"] by simp
  moreover have "length ?f > 0" by (simp add: header_image_def)
  ultimately have "disk_open ?f = Ok \<lparr>dm_file = ?f, dm_header = dm_header d\<rparr>"
    by (simp add: disk_open_def cursor_new_reading header_image_def c64.get_reading)
  then show ?thesis by (simp add: save_header_eq)
qed

lemma save_header_pages:
  "save_header d = Ok d' \<Longrightarrow> aligned p \<Longrightarrow> read_page p d = Ok page \<Longrightarrow> read_page p d' = Ok page"
  using aligned_ge [of p]
  by (auto simp: save_header_eq read_page_def header_image_def page_sizes intro!: read_write_other)

text \<open>
  Allocation hands out consecutive pages: after any number of allocations the ids are the
  multiples of the page size from the old \<open>next_free_offset\<close> on.
\<close>

fun allocate :: "nat \<Rightarrow> disk_manager \<Rightarrow> page_id list \<times> disk_manager" where
  "allocate 0 d = ([], d)"
| "allocate (Suc n) d =
     (let (p, d1) = compute_new_page_id d; (ps, d2) = allocate n d1 in (p # ps, d2))"

lemma allocate_ids:
  "fst (allocate n d) = map (\<lambda>i. next_free_offset (dm_header d) + of_nat (i * PAGE_SIZE)) [0..<n]"
proof (induction n arbitrary: d)
  case (Suc n)
  have "map (\<lambda>i. next_free_offset (dm_header d) + of_nat (i * PAGE_SIZE)) [0..<Suc n] =
    next_free_offset (dm_header d) # map (\<lambda>i. next_free_offset (dm_header d) + of_nat PAGE_SIZE + of_nat (i * PAGE_SIZE)) [0..<n]"
    by (simp del: upt_Suc add: upt_conv_Cons map_Suc_upt [symmetric] comp_def algebra_simps)
  with Suc [of "snd (compute_new_page_id d)"] show ?case
    by (simp add: compute_new_page_id_def split_beta Let_def)
qed simp

lemma unat_of_nat_u64: "k < 2 ^ 64 \<Longrightarrow> unat (of_nat k :: u64) = k"
  by (simp add: unat_of_nat)

text \<open>Page allocation hands out distinct page ids as long as the file stays below 2^64 bytes.\<close>

lemma allocate_distinct:
  assumes "n * PAGE_SIZE < 2 ^ 64"
  shows "distinct (fst (allocate n d))"
proof -
  have "(of_nat (i * PAGE_SIZE) :: u64) = of_nat (j * PAGE_SIZE) \<longleftrightarrow> i = j" if "i < n" "j < n" for i j
  proof -
    have "i * PAGE_SIZE < 2 ^ 64" "j * PAGE_SIZE < 2 ^ 64"
      using that assms by (meson le_less_trans less_imp_le mult_le_mono1)+
    then have "unat (of_nat (i * PAGE_SIZE) :: u64) = i * PAGE_SIZE"
      "unat (of_nat (j * PAGE_SIZE) :: u64) = j * PAGE_SIZE" using unat_of_nat_u64 by blast+
    then show ?thesis by (metis mult_cancel2 page_sizes(2) zero_neq_numeral)
  qed
  then show ?thesis by (auto simp: allocate_ids distinct_map inj_on_def)
qed

end
