(* ===== verification/Wal.thy ===== *)
theory Wal
  imports Disk
begin

text \<open>
  The write-ahead log of src/src/storage/wal.rs: the records, their bytes, and the log
  manager over the log file (a list of bytes; the file is opened in append mode, so every
  write goes to its end) with the offset up to which the file has been synced.

  The record decoder slices the header before it checks the length, so a record of one to
  eight bytes panics. \<open>read_batch\<close> stops at the end of the file or at a zero length, and
  reports a record whose payload is cut off.
\<close>

section \<open>Records\<close>

datatype wal_record =
    Undo page_id u64 "u8 list"
  | Redo page_id u64 "u8 list"
  | Commit u64

fun wal_encode :: "wal_record \<Rightarrow> u8 list" where
  "wal_encode (Undo p t page) = [0] @ u64_to_le t @ u64_to_le p @ page"
| "wal_encode (Commit t) = [2] @ u64_to_le t"
| "wal_encode (Redo p t page) = [1] @ u64_to_le t @ u64_to_le p @ page"

definition slice :: "nat \<Rightarrow> nat \<Rightarrow> u8 list \<Rightarrow> u8 list res" where
  "slice a b bs = (if a \<le> b \<and> b \<le> length bs then Ok (take (b - a) (drop a bs)) else Panic)"

definition wal_decode :: "u8 list \<Rightarrow> wal_record res" where
  "wal_decode buffer =
     (if buffer = [] then Err (CorruptPage ''empty Wal record buffer'')
      else let record_type = hd buffer in
        res_bind (slice 1 9 buffer) (\<lambda>t. let txn_id = u64_of_le t in
          if record_type = 0 \<or> record_type = 1 then
            (if length buffer < 17 + PAGE_SIZE then Err (CorruptPage ''wal page record too small'')
             else res_bind (slice 9 17 buffer) (\<lambda>p.
                  res_bind (slice 17 (17 + PAGE_SIZE) buffer) (\<lambda>page.
                  Ok (if record_type = 0 then Undo (u64_of_le p) txn_id page
                      else Redo (u64_of_le p) txn_id page))))
          else if record_type = 2 then Ok (Commit txn_id)
          else Err (CorruptPage ''invalid wal record type'')))"

fun record_wf :: "wal_record \<Rightarrow> bool" where
  "record_wf (Undo p t page) = (length page = PAGE_SIZE)"
| "record_wf (Redo p t page) = (length page = PAGE_SIZE)"
| "record_wf (Commit t) = True"

lemma slice_mid [simp]:
  "length as = a \<Longrightarrow> length bs = b - a \<Longrightarrow> a \<le> b \<Longrightarrow> slice a b (as @ bs @ cs) = Ok bs"
  by (simp add: slice_def)

lemma wal_roundtrip: "record_wf r \<Longrightarrow> wal_decode (wal_encode r) = Ok r"
proof -
  have s: "slice 1 9 (x # u64_to_le t @ bs) = Ok (u64_to_le t)" for x t bs
    using slice_mid [of "[x]" 1 "u64_to_le t" 9 bs] by simp
  have s2: "slice 1 9 (x # u64_to_le t) = Ok (u64_to_le t)" for x t using s [of x t "[]"] by simp
  have p: "slice 9 17 (x # u64_to_le t @ u64_to_le p @ bs) = Ok (u64_to_le p)" for x t p bs
    using slice_mid [of "x # u64_to_le t" 9 "u64_to_le p" 17 bs] by simp
  have b: "slice 17 (17 + PAGE_SIZE) (x # u64_to_le t @ u64_to_le p @ bs) = Ok bs"
    if "length bs = PAGE_SIZE" for x t p bs
    using slice_mid [of "x # u64_to_le t @ u64_to_le p" 17 bs "17 + PAGE_SIZE" "[]"] that by simp
  show "record_wf r \<Longrightarrow> wal_decode (wal_encode r) = Ok r"
    by (cases r) (simp_all add: wal_decode_def s [simplified] s2 [simplified] p b)
qed

text \<open>A log record of one to eight bytes makes the decoder panic: the transaction id is sliced
  without a length check.\<close>

lemma wal_decode_short: "0 < length bs \<Longrightarrow> length bs < 9 \<Longrightarrow> wal_decode bs = Panic"
  by (cases bs) (simp_all add: wal_decode_def slice_def)

section \<open>The log manager\<close>

record wal =
  wal_file :: "u8 list"
  wal_flushed :: u64

definition wal_open :: "u8 list \<Rightarrow> wal" where
  "wal_open file = \<lparr>wal_file = file, wal_flushed = of_nat (length file)\<rparr>"

definition wal_size :: "wal \<Rightarrow> u64" where
  "wal_size w = of_nat (length (wal_file w))"

definition wal_sync :: "wal \<Rightarrow> wal" where
  "wal_sync w = w\<lparr>wal_flushed := of_nat (length (wal_file w))\<rparr>"

definition frame_bytes :: "wal_record \<Rightarrow> u8 list" where
  "frame_bytes r = u32_to_le (of_nat (length (wal_encode r))) @ wal_encode r"

definition write_record :: "wal_record \<Rightarrow> wal \<Rightarrow> u64 \<times> wal" where
  "write_record r w =
     (let encoded = wal_encode r;
          offset = of_nat (length (wal_file w))
      in (offset, w\<lparr>wal_file := (wal_file w @ u32_to_le (of_nat (length encoded))) @ encoded\<rparr>))"

definition read_record_at :: "u64 \<Rightarrow> wal \<Rightarrow> wal_record res" where
  "read_record_at offset w =
     res_bind (read_exact_at 4 (unat offset) (wal_file w)) (\<lambda>len_buf.
       let len = unat (u32_of_le len_buf)
       in res_bind (read_exact_at len (unat offset + 4) (wal_file w)) wal_decode)"

definition write_batch :: "wal_record list \<Rightarrow> wal \<Rightarrow> wal" where
  "write_batch batch w =
     (if batch = [] then w
      else let buffer = fold (\<lambda>entry buffer. let encoded = wal_encode entry in
             (buffer @ u32_to_le (of_nat (length encoded))) @ encoded) batch []
           in w\<lparr>wal_file := wal_file w @ buffer\<rparr>)"

text \<open>\<open>truncate\<close> leaves the flushed offset alone.\<close>

definition wal_truncate :: "wal \<Rightarrow> wal" where
  "wal_truncate w = w\<lparr>wal_file := []\<rparr>"

function read_entries :: "u8 list \<Rightarrow> wal_record list res" where
  "read_entries rest =
     (if length rest < 4 then Ok []
      else let record_len = unat (u32_of_le (take 4 rest)); rest1 = drop 4 rest in
        if record_len = 0 then Ok []
        else if length rest1 < record_len then
          Err (CorruptPage ''torn write: header reported more bytes than the file holds'')
        else res_bind (wal_decode (take record_len rest1)) (\<lambda>entry.
             res_bind (read_entries (drop record_len rest1)) (\<lambda>batch. Ok (entry # batch))))"
  by pat_completeness auto
termination by (relation "measure length") auto

declare read_entries.simps [simp del]

definition read_batch :: "wal \<Rightarrow> wal_record list res" where
  "read_batch w = read_entries (wal_file w)"

section \<open>Reading back what was written\<close>

lemma record_length: "record_wf r \<Longrightarrow> 9 \<le> length (wal_encode r) \<and> length (wal_encode r) \<le> 8209"
  by (cases r) (simp_all add: page_sizes)

lemma wal_encode_not_Nil [simp]: "wal_encode r \<noteq> []"
  by (cases r) simp_all

lemma record_length_u32: "record_wf r \<Longrightarrow> unat (of_nat (length (wal_encode r)) :: u32) = length (wal_encode r)"
  using record_length [of r] by (simp add: unat_of_nat)

lemma wal_file_write_record: "wal_file (snd (write_record r w)) = wal_file w @ frame_bytes r"
  by (simp add: write_record_def frame_bytes_def Let_def)

lemma wal_flushed_write_record [simp]: "wal_flushed (snd (write_record r w)) = wal_flushed w"
  by (simp add: write_record_def Let_def)

definition log_bytes :: "wal_record list \<Rightarrow> u8 list" where
  "log_bytes rs = concat (map frame_bytes rs)"

lemma log_bytes_append [simp]: "log_bytes (rs @ qs) = log_bytes rs @ log_bytes qs"
  by (simp add: log_bytes_def)

lemma wal_file_write_batch: "wal_file (write_batch rs w) = wal_file w @ log_bytes rs"
proof -
  have "fold (\<lambda>entry buffer. let encoded = wal_encode entry in
      (buffer @ u32_to_le (of_nat (length encoded))) @ encoded) rs buf = buf @ log_bytes rs" for buf
    by (induction rs arbitrary: buf) (simp_all add: log_bytes_def frame_bytes_def Let_def)
  then show ?thesis by (simp add: write_batch_def log_bytes_def)
qed

lemma wal_flushed_write_batch [simp]: "wal_flushed (write_batch rs w) = wal_flushed w"
  by (simp add: write_batch_def Let_def)

lemma read_entries_frame:
  assumes "record_wf r"
  shows "read_entries (frame_bytes r @ rest) = res_bind (read_entries rest) (\<lambda>rs. Ok (r # rs))"
  using record_length_u32 [OF assms] wal_roundtrip [OF assms] wal_encode_not_Nil [of r]
  by (subst read_entries.simps) (simp add: frame_bytes_def Let_def)

lemma read_entries_log:
  "\<forall>r \<in> set rs. record_wf r \<Longrightarrow>
   read_entries (log_bytes rs @ rest) = res_bind (read_entries rest) (\<lambda>qs. Ok (rs @ qs))"
  by (induction rs) (auto simp: log_bytes_def read_entries_frame res_bind_assoc)

lemma read_entries_short: "length rest < 4 \<Longrightarrow> read_entries rest = Ok []"
  by (subst read_entries.simps) simp

lemma read_entries_zeros: "read_entries (0 # 0 # 0 # 0 # rest) = Ok []"
  by (subst read_entries.simps) (simp add: u32_of_le_def)

lemma read_entries_cut:
  assumes "record_wf r" "4 \<le> k" "k < length (frame_bytes r)"
  shows "read_entries (take k (frame_bytes r)) =
    Err (CorruptPage ''torn write: header reported more bytes than the file holds'')"
  using assms record_length [OF assms(1)] record_length_u32 [OF assms(1)]
  by (subst read_entries.simps) (auto simp: frame_bytes_def Let_def)

text \<open>
  C36: A crash while a record is appended leaves a prefix of its frame behind the complete
  records of the log. When less than the four bytes of the length are left, the log is read as
  the complete records; otherwise reading fails with a torn write, however many complete records
  there are, instead of dropping the tail.
\<close>

lemma read_entries_torn:
  assumes "\<forall>q \<in> set rs. record_wf q" "record_wf r" "k < length (frame_bytes r)"
    and "wal_file w = log_bytes rs @ take k (frame_bytes r)"
  shows "read_batch w = (if k < 4 then Ok rs
    else Err (CorruptPage ''torn write: header reported more bytes than the file holds''))"
  using read_entries_log [OF assms(1), of "take k (frame_bytes r)"] assms(2-) read_entries_cut [of r k]
  by (auto simp: read_batch_def read_entries_short)

lemma read_batch_log:
  "\<forall>r \<in> set rs. record_wf r \<Longrightarrow> wal_file w = log_bytes rs \<Longrightarrow> read_batch w = Ok rs"
  using read_entries_log [of rs "[]"] by (simp add: read_batch_def read_entries_short)

text \<open>A record is found again at the offset returned when it was written, whatever is
  appended later.\<close>

lemma read_record_at_frame:
  assumes "record_wf r" "wal_file w = pre @ frame_bytes r @ post" "length pre < 2 ^ 64"
  shows "read_record_at (of_nat (length pre)) w = Ok r"
proof -
  have u: "unat (of_nat (length pre) :: u64) = length pre" using assms(3) by (rule unat_of_nat_u64)
  have "read_exact_at 4 (length pre) (wal_file w) = Ok (u32_to_le (of_nat (length (wal_encode r))))"
    using assms(2) by (simp add: read_exact_at_def frame_bytes_def)
  moreover have "read_exact_at (length (wal_encode r)) (length pre + 4) (wal_file w) = Ok (wal_encode r)"
    using assms(2) by (simp add: read_exact_at_def frame_bytes_def)
  ultimately show ?thesis
    using record_length_u32 [OF assms(1)] wal_roundtrip [OF assms(1)]
    by (simp add: read_record_at_def u)
qed

lemma read_entries_torn_witness:
  "read_batch (wal_open (log_bytes [Commit 1, Commit 2] @ take 5 (frame_bytes (Commit 3)))) =
    Err (CorruptPage ''torn write: header reported more bytes than the file holds'') \<and>
   read_batch (wal_open (log_bytes [Commit 1, Commit 2] @ take 3 (frame_bytes (Commit 3)))) = Ok [Commit 1, Commit 2]"
  using read_entries_torn [of "[Commit 1, Commit 2]" "Commit 3" 5 "wal_open (log_bytes [Commit 1, Commit 2] @ take 5 (frame_bytes (Commit 3)))"]
    read_entries_torn [of "[Commit 1, Commit 2]" "Commit 3" 3 "wal_open (log_bytes [Commit 1, Commit 2] @ take 3 (frame_bytes (Commit 3)))"]
  by (simp add: frame_bytes_def wal_open_def)

text \<open>
  C35: A log is read back as written: two batches appended to an empty log are read as their
  concatenation.
\<close>

lemma wal_append_read:
  "\<forall>r \<in> set rs \<union> set qs. record_wf r \<Longrightarrow>
   read_batch (write_batch qs (write_batch rs (wal_open []))) = Ok (rs @ qs)"
  by (rule read_batch_log) (auto simp: wal_file_write_batch wal_open_def)

lemma wal_append_read_witness:
  "read_batch (write_batch [Commit 2] (write_batch [Undo 8192 1 (replicate PAGE_SIZE 0), Commit 1] (wal_open []))) =
    Ok [Undo 8192 1 (replicate PAGE_SIZE 0), Commit 1, Commit 2]"
  using wal_append_read [of "[Undo 8192 1 (replicate PAGE_SIZE 0), Commit 1]" "[Commit 2]"] by simp

end
