(* ===== verification/Recovery.thy ===== *)
theory Recovery
  imports Wal
begin

text \<open>
  Startup recovery of src/src/storage/recovery.rs. The log is read in one batch and walked
  backwards; the first applicable record of a page (the redo image of a committed
  transaction, the undo image of any other) is written to the database file. The header is
  saved and the log truncated at the end.

  The specification is an abstract history of transactions over a state that maps every
  page to its content: recovery leaves each page of the log with the content after the
  committed transactions.
\<close>

fun committed_ids :: "wal_record list \<Rightarrow> u64 set" where
  "committed_ids [] = {}"
| "committed_ids (Commit t # rs) = insert t (committed_ids rs)"
| "committed_ids (r # rs) = committed_ids rs"

fun restore_record ::
    "u64 set \<Rightarrow> wal_record \<Rightarrow> page_id set \<times> disk_manager \<Rightarrow> page_id set \<times> disk_manager" where
  "restore_record committed (Undo p t page) (restored, d) =
     (if t \<notin> committed \<and> p \<notin> restored then (insert p restored, write_page p page d) else (restored, d))"
| "restore_record committed (Redo p t page) (restored, d) =
     (if t \<in> committed \<and> p \<notin> restored then (insert p restored, write_page p page d) else (restored, d))"
| "restore_record committed (Commit t) (restored, d) = (restored, d)"

definition recovery_init :: "u8 list \<Rightarrow> disk_manager \<Rightarrow> (wal \<times> disk_manager) res" where
  "recovery_init log d =
     (let w = wal_open log in
      res_bind (read_batch w) (\<lambda>record_batch.
        if record_batch = [] then Ok (w, d)
        else let committed = committed_ids record_batch;
                 (restored, d1) = fold (restore_record committed) (rev record_batch) ({}, d)
             in res_bind (save_header d1) (\<lambda>d2. Ok (wal_truncate w, d2))))"

section \<open>What recovery writes\<close>

fun restores :: "u64 set \<Rightarrow> page_id \<Rightarrow> wal_record \<Rightarrow> bool" where
  "restores C p (Undo q t page) \<longleftrightarrow> q = p \<and> t \<notin> C"
| "restores C p (Redo q t page) \<longleftrightarrow> q = p \<and> t \<in> C"
| "restores C p (Commit t) \<longleftrightarrow> False"

fun record_page :: "wal_record \<Rightarrow> u8 list" where
  "record_page (Undo q t page) = page"
| "record_page (Redo q t page) = page"
| "record_page (Commit t) = []"

fun record_aligned :: "wal_record \<Rightarrow> bool" where
  "record_aligned (Undo q t page) \<longleftrightarrow> aligned q"
| "record_aligned (Redo q t page) \<longleftrightarrow> aligned q"
| "record_aligned (Commit t) \<longleftrightarrow> True"

lemma committed_ids_iff: "t \<in> committed_ids rs \<longleftrightarrow> Commit t \<in> set rs"
  by (induction rs rule: committed_ids.induct) auto

lemma fold_restored_keep:
  assumes "\<forall>r \<in> set rs. record_wf r \<and> record_aligned r" "aligned p" "p \<in> restored"
    "read_page p d = Ok page"
  shows "read_page p (snd (fold (restore_record C) rs (restored, d))) = Ok page"
  using assms
proof (induction rs arbitrary: restored d)
  case (Cons r rs)
  obtain rr d' where s: "restore_record C r (restored, d) = (rr, d')" by fastforce
  have "p \<in> rr \<and> read_page p d' = Ok page"
    using Cons.prems s by (cases r) (auto split: if_splits intro!: read_write_other_page)
  with Cons s show ?case by simp
qed simp

lemma fold_restore_page:
  assumes "\<forall>r \<in> set rs. record_wf r \<and> record_aligned r" "aligned p" "p \<notin> restored"
  shows "case List.find (restores C p) rs of
      Some r \<Rightarrow> read_page p (snd (fold (restore_record C) rs (restored, d))) = Ok (record_page r)
    | None \<Rightarrow> \<forall>page. read_page p d = Ok page \<longrightarrow>
        read_page p (snd (fold (restore_record C) rs (restored, d))) = Ok page"
  using assms
proof (induction rs arbitrary: restored d)
  case (Cons r rs)
  obtain rr d' where s: "restore_record C r (restored, d) = (rr, d')" by fastforce
  show ?case
  proof (cases "restores C p r")
    case True
    then have "p \<in> rr" "read_page p d' = Ok (record_page r)"
      using Cons.prems s by (cases r; auto intro!: read_write_page)+
    then have "read_page p (snd (fold (restore_record C) rs (rr, d'))) = Ok (record_page r)"
      using Cons.prems by (intro fold_restored_keep) auto
    with True s show ?thesis by simp
  next
    case False
    have n: "p \<notin> rr" and k: "\<And>page. read_page p d = Ok page \<Longrightarrow> read_page p d' = Ok page"
      using False Cons.prems s by (cases r; auto split: if_splits intro!: read_write_other_page)+
    with Cons.IH [of rr d'] Cons.prems False s show ?thesis by (auto split: option.splits)
  qed
qed simp

lemma header_fold_restore: "dm_header (snd (fold (restore_record C) rs x)) = dm_header (snd x)"
proof (induction rs arbitrary: x)
  case (Cons r rs)
  have "dm_header (snd (restore_record C r x)) = dm_header (snd x)"
    by (cases r; cases x) auto
  with Cons show ?case by simp
qed simp

text \<open>
  The outcome of recovery: each page of the log has the content of its last applicable
  record, no other page changes, and the log is empty.
\<close>

lemma recovery_init_spec:
  assumes "\<forall>r \<in> set rs. record_wf r \<and> record_aligned r"
  shows "\<exists>w d'. recovery_init (log_bytes rs) d = Ok (w, d') \<and> wal_file w = [] \<and>
    dm_header d' = dm_header d \<and>
    (\<forall>p. aligned p \<longrightarrow> (case List.find (restores (committed_ids rs) p) (rev rs) of
        Some r \<Rightarrow> read_page p d' = Ok (record_page r)
      | None \<Rightarrow> \<forall>page. read_page p d = Ok page \<longrightarrow> read_page p d' = Ok page))"
proof (cases "rs = []")
  case True
  then show ?thesis
    by (simp add: recovery_init_def wal_open_def read_batch_def log_bytes_def read_entries_short)
next
  case False
  define d1 where "d1 = snd (fold (restore_record (committed_ids rs)) (rev rs) ({}, d))"
  have b: "read_batch (wal_open (log_bytes rs)) = Ok rs"
    using assms by (intro read_batch_log) (auto simp: wal_open_def)
  obtain d2 where d2: "save_header d1 = Ok d2" "dm_header d2 = dm_header d1"
    by (auto simp: save_header_eq)
  have i: "recovery_init (log_bytes rs) d = Ok (wal_truncate (wal_open (log_bytes rs)), d2)"
    using b False d2(1) by (simp add: recovery_init_def Let_def split_beta d1_def)
  have pg: "case List.find (restores (committed_ids rs) p) (rev rs) of
        Some r \<Rightarrow> read_page p d2 = Ok (record_page r)
      | None \<Rightarrow> \<forall>page. read_page p d = Ok page \<longrightarrow> read_page p d2 = Ok page" if "aligned p" for p
    using fold_restore_page [of "rev rs" p "{}" d "committed_ids rs"] assms that
      save_header_pages [OF d2(1) that] unfolding d1_def [symmetric]
    by (auto split: option.splits)
  show ?thesis using i pg d2(2) header_fold_restore [of "committed_ids rs" "rev rs" "({}, d)"]
    by (auto simp: wal_truncate_def d1_def)
qed

section \<open>Histories of transactions\<close>

text \<open>
  A transaction of a history: its id, the pages it touched in the order of their undo
  records, the after-images in the order of the commit batch, and whether its commit
  record reached the log. Of an unfinished or rolled-back transaction any part of the
  batch may be in the log.
\<close>

record txn_run =
  tr_id :: u64
  tr_pages :: "page_id list"
  tr_redo :: "(page_id \<times> u8 list) list"
  tr_committed :: bool

type_synonym db_state = "page_id \<Rightarrow> u8 list"

definition txn_log :: "db_state \<Rightarrow> txn_run \<Rightarrow> wal_record list" where
  "txn_log S t = map (\<lambda>p. Undo p (tr_id t) (S p)) (tr_pages t) @
     map (\<lambda>(p, a). Redo p (tr_id t) a) (tr_redo t) @ (if tr_committed t then [Commit (tr_id t)] else [])"

definition txn_effect :: "txn_run \<Rightarrow> db_state \<Rightarrow> db_state" where
  "txn_effect t S = (if tr_committed t then (\<lambda>p. case map_of (tr_redo t) p of Some a \<Rightarrow> a | None \<Rightarrow> S p) else S)"

definition txn_ok :: "txn_run \<Rightarrow> bool" where
  "txn_ok t \<longleftrightarrow> distinct (tr_pages t) \<and> distinct (map fst (tr_redo t)) \<and>
     (if tr_committed t then fst ` set (tr_redo t) = set (tr_pages t)
      else fst ` set (tr_redo t) \<subseteq> set (tr_pages t)) \<and>
     (\<forall>p \<in> set (tr_pages t). aligned p) \<and> (\<forall>(p, a) \<in> set (tr_redo t). length a = PAGE_SIZE)"

fun history_log :: "db_state \<Rightarrow> txn_run list \<Rightarrow> wal_record list" where
  "history_log S [] = []"
| "history_log S (t # ts) = txn_log S t @ history_log (txn_effect t S) ts"

definition history_state :: "db_state \<Rightarrow> txn_run list \<Rightarrow> db_state" where
  "history_state S ts = fold txn_effect ts S"

lemma history_log_snoc:
  "history_log S (ts @ [t]) = history_log S ts @ txn_log (history_state S ts) t"
  by (induction ts arbitrary: S) (simp_all add: history_state_def)

lemma commit_in_history:
  "Commit i \<in> set (history_log S ts) \<longleftrightarrow> (\<exists>t \<in> set ts. tr_id t = i \<and> tr_committed t)"
  by (induction ts arbitrary: S) (auto simp: txn_log_def split_beta)

lemma in_txn_log:
  "r \<in> set (txn_log S t) \<longleftrightarrow> (\<exists>p \<in> set (tr_pages t). r = Undo p (tr_id t) (S p)) \<or>
     (\<exists>p a. (p, a) \<in> set (tr_redo t) \<and> r = Redo p (tr_id t) a) \<or> tr_committed t \<and> r = Commit (tr_id t)"
  by (auto simp: txn_log_def image_iff)

lemma restores_iff:
  "restores C p r \<longleftrightarrow> (\<exists>t a. r = Undo p t a \<and> t \<notin> C) \<or> (\<exists>t a. r = Redo p t a \<and> t \<in> C)"
  by (cases r) auto

lemma txn_effect_length:
  assumes "txn_ok t" "\<forall>p. length (S p) = PAGE_SIZE"
  shows "length (txn_effect t S p) = PAGE_SIZE"
proof -
  have "length a = PAGE_SIZE" if "map_of (tr_redo t) p = Some a" for a
    using map_of_SomeD [OF that] assms(1) by (auto simp: txn_ok_def)
  with assms(2) show ?thesis by (simp add: txn_effect_def split: option.split)
qed

lemma txn_log_wf:
  assumes ok: "txn_ok t" and S: "\<forall>p. length (S p) = PAGE_SIZE" and r: "r \<in> set (txn_log S t)"
  shows "record_wf r \<and> record_aligned r"
proof -
  have sub: "fst ` set (tr_redo t) \<subseteq> set (tr_pages t)"
    using ok by (simp add: txn_ok_def split: if_splits)
  have al: "aligned p" if "p \<in> set (tr_pages t)" for p using ok that by (simp add: txn_ok_def)
  consider p where "p \<in> set (tr_pages t)" "r = Undo p (tr_id t) (S p)"
    | p a where "(p, a) \<in> set (tr_redo t)" "r = Redo p (tr_id t) a" | "r = Commit (tr_id t)"
    using r unfolding in_txn_log by blast
  then show ?thesis
  proof cases
    case 2
    then have "p \<in> set (tr_pages t)" using sub by force
    moreover have "length a = PAGE_SIZE" using 2(1) ok by (auto simp: txn_ok_def)
    ultimately show ?thesis using 2 al by simp
  qed (use S al in simp_all)
qed

lemma history_log_wf:
  assumes "\<forall>t \<in> set ts. txn_ok t" "\<forall>p. length (S p) = PAGE_SIZE" "r \<in> set (history_log S ts)"
  shows "record_wf r \<and> record_aligned r"
  using assms
proof (induction ts arbitrary: S)
  case (Cons t ts)
  have "\<forall>p. length (txn_effect t S p) = PAGE_SIZE"
    using Cons.prems txn_effect_length [of t S] by simp
  then have "r \<in> set (history_log (txn_effect t S) ts) \<Longrightarrow> record_wf r \<and> record_aligned r"
    using Cons.IH Cons.prems(1) by simp
  with Cons.prems txn_log_wf [of t S r] show ?case by auto
qed simp

lemma find_unique:
  assumes "P x \<and> x \<in> set xs" "\<And>y. P y \<and> y \<in> set xs \<Longrightarrow> y = x"
  shows "List.find P xs = Some x"
proof (cases "List.find P xs")
  case None
  with assms(1) show ?thesis unfolding find_None_iff by blast
next
  case (Some y)
  then have "P y \<and> y \<in> set xs" unfolding find_Some_iff by auto
  with Some assms(2) show ?thesis by simp
qed

text \<open>The last applicable record of a page in one transaction.\<close>

lemma find_txn_log:
  assumes ok: "txn_ok t" and C: "tr_id t \<in> C \<longleftrightarrow> tr_committed t"
  shows "if p \<in> set (tr_pages t)
    then \<exists>r. List.find (restores C p) (rev (txn_log S t)) = Some r \<and> record_page r = txn_effect t S p
    else List.find (restores C p) (rev (txn_log S t)) = None \<and> txn_effect t S p = S p"
proof -
  have sub: "fst ` set (tr_redo t) \<subseteq> set (tr_pages t)"
    and eq: "tr_committed t \<Longrightarrow> fst ` set (tr_redo t) = set (tr_pages t)"
    and d: "distinct (map fst (tr_redo t))"
    using ok by (simp_all add: txn_ok_def split: if_splits)
  have app: "restores C p r \<and> r \<in> set (rev (txn_log S t)) \<longleftrightarrow>
      (if tr_committed t then \<exists>a. (p, a) \<in> set (tr_redo t) \<and> r = Redo p (tr_id t) a
       else p \<in> set (tr_pages t) \<and> r = Undo p (tr_id t) (S p))" for r
    unfolding set_rev in_txn_log restores_iff using C by auto
  show ?thesis
  proof (cases "p \<in> set (tr_pages t)")
    case p: True
    show ?thesis
    proof (cases "tr_committed t")
      case True
      then obtain a where a: "(p, a) \<in> set (tr_redo t)"
        using eq p by (metis (no_types, lifting) fst_conv imageE surj_pair)
      then have m: "map_of (tr_redo t) p = Some a" using d by simp
      have "List.find (restores C p) (rev (txn_log S t)) = Some (Redo p (tr_id t) a)"
        using a d by (intro find_unique) (simp_all only: app True if_True, auto dest: eq_key_imp_eq_value)
      with p m True show ?thesis by (simp add: txn_effect_def)
    next
      case False
      have "List.find (restores C p) (rev (txn_log S t)) = Some (Undo p (tr_id t) (S p))"
        using p by (intro find_unique) (simp_all only: app False if_False simp_thms)
      with p False show ?thesis by (simp add: txn_effect_def)
    qed
  next
    case False
    then have n: "p \<notin> fst ` set (tr_redo t)" using sub by blast
    then have "\<not> (restores C p r \<and> r \<in> set (rev (txn_log S t)))" for r
      unfolding app using False by (auto simp: image_iff)
    then have "List.find (restores C p) (rev (txn_log S t)) = None"
      unfolding find_None_iff by blast
    moreover have "map_of (tr_redo t) p = None" using n by (simp add: map_of_eq_None_iff)
    ultimately show ?thesis using False by (simp add: txn_effect_def)
  qed
qed

lemma find_history_log:
  assumes "\<forall>t \<in> set ts. txn_ok t \<and> (tr_id t \<in> C \<longleftrightarrow> tr_committed t)"
  shows "if \<exists>t \<in> set ts. p \<in> set (tr_pages t)
    then \<exists>r. List.find (restores C p) (rev (history_log S ts)) = Some r \<and>
      record_page r = history_state S ts p
    else List.find (restores C p) (rev (history_log S ts)) = None \<and> history_state S ts p = S p"
  using assms
proof (induction ts rule: rev_induct)
  case Nil
  then show ?case by (simp add: history_state_def)
next
  case (snoc t ts)
  let ?S = "history_state S ts"
  have st: "history_state S (ts @ [t]) = txn_effect t ?S" by (simp add: history_state_def)
  have lst: "if p \<in> set (tr_pages t)
    then \<exists>r. List.find (restores C p) (rev (txn_log ?S t)) = Some r \<and> record_page r = txn_effect t ?S p
    else List.find (restores C p) (rev (txn_log ?S t)) = None \<and> txn_effect t ?S p = ?S p"
    using snoc.prems by (intro find_txn_log) auto
  show ?case
  proof (cases "p \<in> set (tr_pages t)")
    case True
    with lst st show ?thesis by (auto simp: history_log_snoc find_append)
  next
    case False
    with lst have f: "List.find (restores C p) (rev (txn_log ?S t)) = None" "txn_effect t ?S p = ?S p"
      by simp_all
    have "List.find (restores C p) (rev (history_log S (ts @ [t]))) =
      List.find (restores C p) (rev (history_log S ts))"
      by (simp add: history_log_snoc find_append f)
    with snoc f(2) st False show ?thesis by simp
  qed
qed

text \<open>
  Recovery after a crash. The database file may hold any content for the pages of the log
  (the buffer pool steals), and must hold the initial content of the other pages.
\<close>

definition distinct_ids :: "txn_run list \<Rightarrow> bool" where
  "distinct_ids ts \<longleftrightarrow> distinct (map tr_id ts)"

lemma committed_ids_history:
  assumes "distinct_ids ts" "t \<in> set ts"
  shows "tr_id t \<in> committed_ids (history_log S ts) \<longleftrightarrow> tr_committed t"
proof -
  have "t' = t" if "t' \<in> set ts" "tr_id t' = tr_id t" for t'
    using assms that unfolding distinct_ids_def by (simp add: distinct_map inj_on_def)
  with assms(2) show ?thesis unfolding committed_ids_iff commit_in_history by blast
qed

text \<open>
  C4: Recovery refines the abstract history of transactions: from a log of any history and a
  file whose touched pages are arbitrary, every page ends with the content after the committed
  transactions, in order, and the log is empty.
\<close>

lemma recovery_restores_committed:
  assumes ts: "\<forall>t \<in> set ts. txn_ok t" "distinct_ids ts" and S: "\<forall>p. length (S p) = PAGE_SIZE"
    and clean: "\<forall>p. aligned p \<and> (\<forall>t \<in> set ts. p \<notin> set (tr_pages t)) \<and> p \<in> P \<longrightarrow> read_page p d = Ok (S p)"
    and touched: "\<forall>t \<in> set ts. set (tr_pages t) \<subseteq> P"
  shows "\<exists>w d'. recovery_init (log_bytes (history_log S ts)) d = Ok (w, d') \<and> wal_file w = [] \<and>
    (\<forall>p. aligned p \<and> p \<in> P \<longrightarrow> read_page p d' = Ok (history_state S ts p))"
proof -
  let ?rs = "history_log S ts" let ?C = "committed_ids (history_log S ts)"
  have wf: "\<forall>r \<in> set ?rs. record_wf r \<and> record_aligned r" using history_log_wf [OF ts(1) S] by blast
  then obtain w d' where r: "recovery_init (log_bytes ?rs) d = Ok (w, d')" "wal_file w = []"
    and pg: "\<And>p. aligned p \<Longrightarrow> case List.find (restores ?C p) (rev ?rs) of
        Some r \<Rightarrow> read_page p d' = Ok (record_page r)
      | None \<Rightarrow> \<forall>page. read_page p d = Ok page \<longrightarrow> read_page p d' = Ok page"
    using recovery_init_spec by blast
  have "read_page p d' = Ok (history_state S ts p)" if p: "aligned p" "p \<in> P" for p
  proof (cases "\<exists>t \<in> set ts. p \<in> set (tr_pages t)")
    case True
    with find_history_log [of ts ?C p S] ts committed_ids_history [OF ts(2)] pg [OF p(1)]
    show ?thesis by auto
  next
    case False
    with find_history_log [of ts ?C p S] ts committed_ids_history [OF ts(2)]
    have "List.find (restores ?C p) (rev ?rs) = None" "history_state S ts p = S p" by auto
    moreover have "read_page p d = Ok (S p)" using clean False p by blast
    ultimately show ?thesis using pg [OF p(1)] by simp
  qed
  with r show ?thesis by blast
qed

text \<open>
  C5: A crash during recovery is harmless: recovery started again on a file in which any prefix
  of the restores was already made gives the same page contents as an uninterrupted recovery.
\<close>

lemma recovery_restart:
  assumes wf: "\<forall>r \<in> set rs. record_wf r \<and> record_aligned r"
    and partial: "d1 = snd (fold (restore_record (committed_ids rs)) (take k (rev rs)) ({}, d))"
    and p: "aligned p" "read_page p d = Ok old"
  shows "\<exists>w d' w1 d1' page. recovery_init (log_bytes rs) d = Ok (w, d') \<and>
    recovery_init (log_bytes rs) d1 = Ok (w1, d1') \<and> read_page p d' = Ok page \<and> read_page p d1' = Ok page"
proof -
  let ?C = "committed_ids rs"
  from recovery_init_spec [OF wf, of d] obtain w d' where a: "recovery_init (log_bytes rs) d = Ok (w, d')"
    "case List.find (restores ?C p) (rev rs) of Some r \<Rightarrow> read_page p d' = Ok (record_page r)
      | None \<Rightarrow> \<forall>page. read_page p d = Ok page \<longrightarrow> read_page p d' = Ok page" using p(1) by blast
  from recovery_init_spec [OF wf, of d1] obtain w1 d1' where b: "recovery_init (log_bytes rs) d1 = Ok (w1, d1')"
    "case List.find (restores ?C p) (rev rs) of Some r \<Rightarrow> read_page p d1' = Ok (record_page r)
      | None \<Rightarrow> \<forall>page. read_page p d1 = Ok page \<longrightarrow> read_page p d1' = Ok page" using p(1) by blast
  show ?thesis
  proof (cases "List.find (restores ?C p) (rev rs)")
    case (Some r)
    with a b show ?thesis by auto
  next
    case None
    then have "List.find (restores ?C p) (take k (rev rs)) = None"
      by (auto simp: find_None_iff dest: in_set_takeD)
    moreover have "\<forall>r \<in> set (take k (rev rs)). record_wf r \<and> record_aligned r"
      using wf by (auto dest: in_set_takeD)
    ultimately have "read_page p d1 = Ok old"
      using fold_restore_page [of "take k (rev rs)" p "{}" d ?C] p partial by simp
    with a b p(2) None show ?thesis by auto
  qed
qed

end
