(* ===== verification/Lru.thy ===== *)
theory Lru
  imports Prelude
begin

text \<open>
  The LRU replacer of src/src/storage/lru.rs: a doubly linked list of pages kept in an
  arena (a vector of nodes that point at each other by index), with a map from pages to
  arena indices and a free list of reusable slots.

  The abstract specification is a list of pages, most recently used first
  (\<open>lru_rep l ps\<close>). Every operation of the arena refines the operation on the list:
  an access moves or pushes a page to the front, a removal deletes it, an eviction takes
  the first page from the back that satisfies the predicate. The contract is the locale
  \<open>recency_list\<close>, interpreted here on the arena and used by the buffer pool.
\<close>

section \<open>State\<close>

record lru_node =
  prev_idx :: "nat option"
  node_page :: page_id
  next_idx :: "nat option"

record lru =
  lru_pages :: "page_id \<rightharpoonup> nat"
  arena :: "lru_node list"
  head_idx :: "nat option"
  tail_idx :: "nat option"
  lru_capacity :: nat
  free_list :: "nat list"

section \<open>Operations\<close>

definition lru_new :: "nat \<Rightarrow> lru" where
  "lru_new c = \<lparr>lru_pages = Map.empty, arena = [], head_idx = None, tail_idx = None,
     lru_capacity = c, free_list = []\<rparr>"

text \<open>A write through \<open>self.arena[i]\<close>, which panics out of range.\<close>

definition arena_upd :: "nat \<Rightarrow> (lru_node \<Rightarrow> lru_node) \<Rightarrow> lru \<Rightarrow> lru res" where
  "arena_upd i f l =
     (if i < length (arena l) then Ok (l\<lparr>arena := (arena l)[i := f (arena l ! i)]\<rparr>) else Panic)"

definition insert_head :: "nat \<Rightarrow> lru \<Rightarrow> lru res" where
  "insert_head idx l =
     res_bind (arena_upd idx (\<lambda>n. n\<lparr>prev_idx := None\<rparr>) l) (\<lambda>l.
     res_bind (arena_upd idx (\<lambda>n. n\<lparr>next_idx := head_idx l\<rparr>) l) (\<lambda>l.
     res_bind (case head_idx l of
         Some h \<Rightarrow> arena_upd h (\<lambda>n. n\<lparr>prev_idx := Some idx\<rparr>) l
       | None \<Rightarrow> Ok (l\<lparr>tail_idx := Some idx\<rparr>)) (\<lambda>l.
     Ok (l\<lparr>head_idx := Some idx\<rparr>))))"

definition unlink :: "nat \<Rightarrow> lru \<Rightarrow> lru res" where
  "unlink idx l =
     res_bind (vec_get (arena l) idx) (\<lambda>n.
     res_bind (case prev_idx n of
         Some p \<Rightarrow> arena_upd p (\<lambda>m. m\<lparr>next_idx := next_idx n\<rparr>) l
       | None \<Rightarrow> Ok (l\<lparr>head_idx := next_idx n\<rparr>)) (\<lambda>l.
     case next_idx n of
         Some x \<Rightarrow> arena_upd x (\<lambda>m. m\<lparr>prev_idx := prev_idx n\<rparr>) l
       | None \<Rightarrow> Ok (l\<lparr>tail_idx := prev_idx n\<rparr>)))"

text \<open>The slot for a new page: the last index of the free list, or a new arena cell.\<close>

definition alloc_node :: "page_id \<Rightarrow> lru \<Rightarrow> (nat \<times> lru) res" where
  "alloc_node p l =
     (let node = \<lparr>prev_idx = None, node_page = p, next_idx = None\<rparr> in
      if free_list l \<noteq> [] then
        (let i = last (free_list l) in
         res_bind (arena_upd i (\<lambda>_. node) (l\<lparr>free_list := butlast (free_list l)\<rparr>))
           (\<lambda>l. Ok (i, l)))
      else Ok (length (arena l), l\<lparr>arena := arena l @ [node]\<rparr>))"

definition record_access :: "page_id \<Rightarrow> lru \<Rightarrow> lru res" where
  "record_access p l =
     (case lru_pages l p of
        Some idx \<Rightarrow> res_bind (unlink idx l) (insert_head idx)
      | None \<Rightarrow>
          if card (dom (lru_pages l)) < lru_capacity l then
            res_bind (alloc_node p l) (\<lambda>(i, l).
              insert_head i (l\<lparr>lru_pages := (lru_pages l)(p \<mapsto> i)\<rparr>))
          else Panic)"

definition lru_remove :: "page_id \<Rightarrow> lru \<Rightarrow> lru res" where
  "lru_remove p l =
     (case lru_pages l p of
        None \<Rightarrow> Ok l
      | Some idx \<Rightarrow>
          res_bind (unlink idx (l\<lparr>lru_pages := (lru_pages l)(p := None)\<rparr>)) (\<lambda>l.
            Ok (l\<lparr>free_list := free_list l @ [idx]\<rparr>)))"

text \<open>\<open>peek_rev\<close>: the loop counts the candidates against the limit.\<close>

fun peek_walk :: "nat \<Rightarrow> lru \<Rightarrow> nat option \<Rightarrow> page_id list res" where
  "peek_walk limit l None = Ok []"
| "peek_walk 0 l (Some i) = Ok []"
| "peek_walk (Suc n) l (Some i) =
     res_bind (vec_get (arena l) i) (\<lambda>node.
     res_bind (peek_walk n l (prev_idx node)) (\<lambda>ps. Ok (node_page node # ps)))"

definition peek_rev :: "nat \<Rightarrow> lru \<Rightarrow> page_id list res" where
  "peek_rev limit l = peek_walk limit l (tail_idx l)"

text \<open>
  The eviction loop follows the \<open>prev\<close> links from the tail. On a cyclic arena it would
  not return, which is the value \<open>None\<close> of the partial function. The predicate is a
  closure of the caller and may itself panic.
\<close>

partial_function (option) evict_walk ::
    "(page_id \<Rightarrow> bool res) \<Rightarrow> lru \<Rightarrow> nat option \<Rightarrow> (page_id option \<times> lru) res option" where
  "evict_walk pred l cur =
     (case cur of
        None \<Rightarrow> Some (Ok (None, l))
      | Some i \<Rightarrow>
          (case vec_get (arena l) i of
             Ok node \<Rightarrow>
               (case pred (node_page node) of
                  Ok hit \<Rightarrow>
                    (if hit then
                      Some (res_bind (unlink i l) (\<lambda>l'.
                        Ok (Some (node_page node),
                            l'\<lparr>lru_pages := (lru_pages l')(node_page node := None),
                              free_list := free_list l' @ [i]\<rparr>)))
                     else evict_walk pred l (prev_idx node))
                | Err e \<Rightarrow> Some (Err e)
                | Panic \<Rightarrow> Some Panic)
           | Err e \<Rightarrow> Some (Err e)
           | Panic \<Rightarrow> Some Panic))"

definition evict_if :: "(page_id \<Rightarrow> bool res) \<Rightarrow> lru \<Rightarrow> (page_id option \<times> lru) res option" where
  "evict_if pred l = evict_walk pred l (tail_idx l)"

section \<open>Linked segments of the arena\<close>

definition first_of :: "'a list \<Rightarrow> 'a option \<Rightarrow> 'a option" where
  "first_of xs d = (case xs of [] \<Rightarrow> d | x # _ \<Rightarrow> Some x)"

definition last_of :: "'a list \<Rightarrow> 'a option \<Rightarrow> 'a option" where
  "last_of xs d = (if xs = [] then d else Some (last xs))"

lemma first_of_simps [simp]: "first_of [] d = d" "first_of (x # xs) d = Some x"
  by (simp_all add: first_of_def)

lemma last_of_simps [simp]:
  "last_of [] d = d" "last_of (x # xs) d = last_of xs (Some x)" "last_of (xs @ [x]) d = Some x"
  by (simp_all add: last_of_def)

lemma last_of_append [simp]: "last_of (xs @ ys) d = last_of ys (last_of xs d)"
  by (simp add: last_of_def)

lemma first_of_append [simp]: "first_of (xs @ ys) d = first_of xs (first_of ys d)"
  by (cases xs) simp_all

text \<open>
  \<open>dlseg ar p xs n\<close>: the indices \<open>xs\<close> form a doubly linked segment of the arena, whose
  first node points back at \<open>p\<close> and whose last node points on to \<open>n\<close>.
\<close>

fun dlseg :: "lru_node list \<Rightarrow> nat option \<Rightarrow> nat list \<Rightarrow> nat option \<Rightarrow> bool" where
  "dlseg ar p [] n \<longleftrightarrow> True"
| "dlseg ar p (x # xs) n \<longleftrightarrow>
     x < length ar \<and> prev_idx (ar ! x) = p \<and> next_idx (ar ! x) = first_of xs n \<and>
     dlseg ar (Some x) xs n"

lemma dlseg_append [simp]:
  "dlseg ar p (xs @ ys) n \<longleftrightarrow>
     dlseg ar p xs (first_of ys n) \<and> dlseg ar (last_of xs p) ys n"
  by (induction xs arbitrary: p) auto

lemma dlseg_bounds: "dlseg ar p xs n \<Longrightarrow> x \<in> set xs \<Longrightarrow> x < length ar"
  by (induction xs arbitrary: p) auto

lemma dlseg_frame [simp]: "i \<notin> set xs \<Longrightarrow> dlseg (ar[i := nd]) p xs n = dlseg ar p xs n"
  by (induction xs arbitrary: p) auto

lemma dlseg_grow: "dlseg ar p xs n \<Longrightarrow> dlseg (ar @ nds) p xs n"
  by (induction xs arbitrary: p) (auto simp: nth_append)

text \<open>Redirecting the outer links of a segment.\<close>

lemma dlseg_set_next:
  "dlseg ar p (xs @ [x]) n \<Longrightarrow> distinct (xs @ [x]) \<Longrightarrow>
   dlseg (ar[x := (ar ! x)\<lparr>next_idx := n'\<rparr>]) p (xs @ [x]) n'"
  by auto

lemma dlseg_set_prev:
  "dlseg ar p (x # xs) n \<Longrightarrow> distinct (x # xs) \<Longrightarrow>
   dlseg (ar[x := (ar ! x)\<lparr>prev_idx := p'\<rparr>]) p' (x # xs) n"
  by auto

section \<open>Representation of a recency list\<close>

definition lru_links :: "lru \<Rightarrow> nat list \<Rightarrow> bool" where
  "lru_links l xs \<longleftrightarrow>
     dlseg (arena l) None xs None \<and> distinct xs \<and>
     head_idx l = first_of xs None \<and> tail_idx l = last_of xs None"

definition pg :: "lru \<Rightarrow> nat \<Rightarrow> page_id" where
  "pg l i = node_page (arena l ! i)"

definition lru_idx :: "lru \<Rightarrow> nat list \<Rightarrow> bool" where
  "lru_idx l xs \<longleftrightarrow>
     lru_links l xs \<and> inj_on (pg l) (set xs) \<and>
     (\<forall>p i. lru_pages l p = Some i \<longleftrightarrow> i \<in> set xs \<and> pg l i = p) \<and>
     distinct (free_list l) \<and> set (free_list l) \<inter> set xs = {} \<and>
     set (free_list l) \<subseteq> {..<length (arena l)} \<and> length xs \<le> lru_capacity l"

definition lru_rep :: "lru \<Rightarrow> page_id list \<Rightarrow> bool" where
  "lru_rep l ps \<longleftrightarrow> (\<exists>xs. lru_idx l xs \<and> ps = map (pg l) xs)"

lemma lru_rep_new: "lru_rep (lru_new c) []"
  by (auto simp: lru_rep_def lru_idx_def lru_links_def lru_new_def)

lemma lru_rep_distinct: "lru_rep l ps \<Longrightarrow> distinct ps"
  by (auto simp: lru_rep_def lru_idx_def lru_links_def distinct_map)

lemma lru_rep_pages: "lru_rep l ps \<Longrightarrow> dom (lru_pages l) = set ps"
  by (fastforce simp: lru_rep_def lru_idx_def)

lemma lru_rep_card: "lru_rep l ps \<Longrightarrow> card (dom (lru_pages l)) = length ps"
  by (simp add: lru_rep_pages lru_rep_distinct distinct_card)

section \<open>The link operations\<close>

lemma unlink_links:
  assumes "lru_links l (as @ i # bs)"
  shows "\<exists>l'. unlink i l = Ok l' \<and> lru_links l' (as @ bs) \<and>
    length (arena l') = length (arena l) \<and> (\<forall>j. pg l' j = pg l j) \<and>
    lru_pages l' = lru_pages l \<and> free_list l' = free_list l \<and> lru_capacity l' = lru_capacity l"
proof -
  have d: "distinct (as @ i # bs)" and i: "i < length (arena l)"
    and p: "prev_idx (arena l ! i) = last_of as None"
    and n: "next_idx (arena l ! i) = first_of bs None"
    using assms by (auto simp: lru_links_def)
  show ?thesis
  proof (cases as rule: rev_cases)
    case Nil
    show ?thesis
    proof (cases bs)
      case Nil
      with \<open>as = []\<close> show ?thesis using assms d i p n
        by (auto simp: unlink_def lru_links_def pg_def arena_upd_def)
    next
      case (Cons b bs')
      with \<open>as = []\<close> show ?thesis using assms d i p n
        by (auto simp: unlink_def lru_links_def pg_def arena_upd_def nth_list_update)
    qed
  next
    case (snoc as' a)
    show ?thesis
    proof (cases bs)
      case Nil
      with snoc show ?thesis using assms d i p n
        by (auto simp: unlink_def lru_links_def pg_def arena_upd_def nth_list_update)
    next
      case (Cons b bs')
      with snoc show ?thesis using assms d i p n
        by (auto simp: unlink_def lru_links_def pg_def arena_upd_def nth_list_update)
    qed
  qed
qed

lemma insert_head_links:
  assumes "lru_links l xs" "i \<notin> set xs" "i < length (arena l)"
  shows "\<exists>l'. insert_head i l = Ok l' \<and> lru_links l' (i # xs) \<and>
    length (arena l') = length (arena l) \<and> (\<forall>j. pg l' j = pg l j) \<and>
    lru_pages l' = lru_pages l \<and> free_list l' = free_list l \<and> lru_capacity l' = lru_capacity l"
  using assms
  by (cases xs) (auto simp: insert_head_def lru_links_def pg_def arena_upd_def nth_list_update)

section \<open>Refinement of the recency list\<close>

text \<open>The abstract operations on a list of pages, most recently used first.\<close>

definition rl_access :: "page_id \<Rightarrow> page_id list \<Rightarrow> page_id list" where
  "rl_access p ps = p # remove1 p ps"

definition rl_victim :: "(page_id \<Rightarrow> bool) \<Rightarrow> page_id list \<Rightarrow> page_id option" where
  "rl_victim pr ps = List.find pr (rev ps)"

lemma pg_upd [simp]:
  "pg (l\<lparr>lru_pages := m\<rparr>) j = pg l j" "pg (l\<lparr>free_list := fs\<rparr>) j = pg l j"
  by (simp_all add: pg_def)

lemma lru_rep_mem:
  assumes "lru_rep l ps" "p \<in> set ps"
  obtains as i bs where "lru_idx l (as @ i # bs)" "pg l i = p" "lru_pages l p = Some i"
    "ps = map (pg l) as @ p # map (pg l) bs" "p \<notin> pg l ` set as"
proof -
  from assms(1) obtain xs where x: "lru_idx l xs" "ps = map (pg l) xs"
    by (auto simp: lru_rep_def)
  with assms(2) obtain i where i: "i \<in> set xs" "pg l i = p" by auto
  then obtain as bs where s: "xs = as @ i # bs" by (meson split_list)
  show thesis
  proof (rule that)
    show "lru_idx l (as @ i # bs)" using x s by simp
    show "pg l i = p" by fact
    show "lru_pages l p = Some i" using x i by (auto simp: lru_idx_def)
    show "ps = map (pg l) as @ p # map (pg l) bs" using x s i by simp
    show "p \<notin> pg l ` set as" using x s i
      by (auto simp: lru_idx_def lru_links_def inj_on_def)
  qed
qed

lemma lru_rep_not_mem: "lru_rep l ps \<Longrightarrow> p \<notin> set ps \<Longrightarrow> lru_pages l p = None"
  by (metis domIff lru_rep_pages)

lemma record_access_hit:
  assumes "lru_rep l ps" "p \<in> set ps"
  shows "\<exists>l'. record_access p l = Ok l' \<and> lru_rep l' (rl_access p ps) \<and>
    lru_capacity l' = lru_capacity l"
proof -
  obtain as i bs where a: "lru_idx l (as @ i # bs)" "pg l i = p" "lru_pages l p = Some i"
    "ps = map (pg l) as @ p # map (pg l) bs" "p \<notin> pg l ` set as"
    using lru_rep_mem [OF assms] by blast
  obtain l1 where l1: "unlink i l = Ok l1" "lru_links l1 (as @ bs)"
    "length (arena l1) = length (arena l)" "\<forall>j. pg l1 j = pg l j"
    "lru_pages l1 = lru_pages l" "free_list l1 = free_list l" "lru_capacity l1 = lru_capacity l"
    using unlink_links [of l as i bs] a(1) by (auto simp: lru_idx_def)
  have i: "i \<notin> set (as @ bs)" "i < length (arena l1)"
    using a(1) l1(3) by (auto simp: lru_idx_def lru_links_def)
  obtain l2 where l2: "insert_head i l1 = Ok l2" "lru_links l2 (i # as @ bs)"
    "length (arena l2) = length (arena l1)" "\<forall>j. pg l2 j = pg l1 j"
    "lru_pages l2 = lru_pages l1" "free_list l2 = free_list l1" "lru_capacity l2 = lru_capacity l1"
    using insert_head_links [OF l1(2) i] by auto
  have "lru_idx l2 (i # as @ bs)"
    using a(1) l1 l2 by (auto simp: lru_idx_def inj_on_def)
  moreover have "map (pg l2) (i # as @ bs) = rl_access p ps"
    using a l1(4) l2(4) by (simp add: rl_access_def remove1_mid)
  ultimately have "lru_rep l2 (rl_access p ps)"
    by (auto simp: lru_rep_def)
  with a(3) l1 l2 show ?thesis by (simp add: record_access_def)
qed

lemma alloc_node_rep:
  assumes "lru_idx l xs"
  shows "\<exists>i l'. alloc_node p l = Ok (i, l') \<and> lru_idx l' xs \<and> i \<notin> set xs \<and>
    i < length (arena l') \<and> i \<notin> set (free_list l') \<and> pg l' i = p \<and>
    (\<forall>j \<in> set xs. pg l' j = pg l j) \<and> lru_pages l' = lru_pages l \<and>
    lru_capacity l' = lru_capacity l"
proof -
  let ?nd = "\<lparr>prev_idx = None, node_page = p, next_idx = None\<rparr>"
  have b: "\<forall>x \<in> set xs. x < length (arena l)"
    using assms by (auto simp: lru_idx_def lru_links_def dest: dlseg_bounds)
  show ?thesis
  proof (cases "free_list l" rule: rev_cases)
    case Nil
    have pgs: "\<forall>j \<in> set xs. pg (l\<lparr>arena := arena l @ [?nd]\<rparr>) j = pg l j"
      using b by (auto simp: pg_def nth_append)
    have "lru_idx (l\<lparr>arena := arena l @ [?nd]\<rparr>) xs"
      using assms pgs Nil
      by (auto simp: lru_idx_def lru_links_def dlseg_grow inj_on_def)
    with Nil b pgs show ?thesis by (auto simp: alloc_node_def pg_def)
  next
    case (snoc fs i)
    let ?l = "l\<lparr>free_list := fs, arena := (arena l)[i := ?nd]\<rparr>"
    have i: "i < length (arena l)" "i \<notin> set xs" "i \<notin> set fs"
      using assms snoc by (auto simp: lru_idx_def)
    have pgs: "\<forall>j \<in> set xs. pg ?l j = pg l j" using i by (auto simp: pg_def nth_list_update)
    have "lru_idx ?l xs"
      using assms pgs snoc i by (auto simp: lru_idx_def lru_links_def inj_on_def)
    with snoc i pgs show ?thesis
      by (auto simp: alloc_node_def arena_upd_def pg_def)
  qed
qed

lemma record_access_miss:
  assumes "lru_rep l ps" "p \<notin> set ps" "length ps < lru_capacity l"
  shows "\<exists>l'. record_access p l = Ok l' \<and> lru_rep l' (rl_access p ps) \<and>
    lru_capacity l' = lru_capacity l"
proof -
  from assms(1) obtain xs where x: "lru_idx l xs" "ps = map (pg l) xs"
    by (auto simp: lru_rep_def)
  obtain i l1 where a: "alloc_node p l = Ok (i, l1)" "lru_idx l1 xs" "i \<notin> set xs"
    "i < length (arena l1)" "i \<notin> set (free_list l1)" "pg l1 i = p"
    "\<forall>j \<in> set xs. pg l1 j = pg l j" "lru_pages l1 = lru_pages l"
    "lru_capacity l1 = lru_capacity l"
    using alloc_node_rep [OF x(1)] by blast
  let ?l = "l1\<lparr>lru_pages := (lru_pages l1)(p \<mapsto> i)\<rparr>"
  have "lru_links ?l xs" using a(2) by (auto simp: lru_idx_def lru_links_def)
  then obtain l2 where l2: "insert_head i ?l = Ok l2" "lru_links l2 (i # xs)"
    "length (arena l2) = length (arena ?l)" "\<forall>j. pg l2 j = pg ?l j"
    "lru_pages l2 = lru_pages ?l" "free_list l2 = free_list ?l" "lru_capacity l2 = lru_capacity ?l"
    using insert_head_links [of ?l xs i] a by auto
  have np: "p \<notin> pg l1 ` set xs" using assms(2) x(2) a(7) by auto
  have np': "\<forall>j \<in> set xs. pg l1 j \<noteq> p" using np by auto
  have pg2: "\<And>j. pg l2 j = pg l1 j" using l2(4) by simp
  have cap: "length xs < lru_capacity l" using assms(3) x(2) by simp
  have "lru_idx l2 (i # xs)"
    unfolding lru_idx_def
  proof (intro conjI allI)
    show "lru_links l2 (i # xs)" by fact
    show "inj_on (pg l2) (set (i # xs))"
      using a(2,6) np' by (auto simp: lru_idx_def inj_on_def pg2)
    show "lru_pages l2 q = Some k \<longleftrightarrow> k \<in> set (i # xs) \<and> pg l2 k = q" for q k
      using a(2,6) l2(5) np' unfolding pg2 by (auto simp: lru_idx_def)
    show "distinct (free_list l2)" using a(2) l2(6) by (simp add: lru_idx_def)
    show "set (free_list l2) \<inter> set (i # xs) = {}"
      using a(2,5) l2(6) by (simp add: lru_idx_def)
    show "set (free_list l2) \<subseteq> {..<length (arena l2)}"
      using a(2) l2(3,6) by (simp add: lru_idx_def)
    show "length (i # xs) \<le> lru_capacity l2" using cap a(9) l2(7) by simp
  qed
  moreover have "map (pg l2) (i # xs) = rl_access p ps"
    using a(6,7) x(2) assms(2) by (simp add: rl_access_def remove1_idem pg2)
  ultimately have r: "lru_rep l2 (rl_access p ps)" by (auto simp: lru_rep_def)
  show ?thesis
    using assms a(1,9) l2(1,7) r
    by (simp add: record_access_def lru_rep_not_mem lru_rep_card)
qed

lemma record_access_full:
  "lru_rep l ps \<Longrightarrow> p \<notin> set ps \<Longrightarrow> \<not> length ps < lru_capacity l \<Longrightarrow> record_access p l = Panic"
  by (simp add: record_access_def lru_rep_not_mem lru_rep_card)

lemma lru_release:
  assumes "lru_idx l (as @ i # bs)" "unlink i l = Ok l1"
    "l2 = l1\<lparr>lru_pages := (lru_pages l)(pg l i := None), free_list := free_list l1 @ [i]\<rparr>"
  shows "lru_rep l2 (map (pg l) (as @ bs)) \<and> lru_capacity l2 = lru_capacity l"
proof -
  have l1: "lru_links l1 (as @ bs)"
    "length (arena l1) = length (arena l)" "\<forall>j. pg l1 j = pg l j"
    "lru_pages l1 = lru_pages l" "free_list l1 = free_list l" "lru_capacity l1 = lru_capacity l"
    using unlink_links [of l as i bs] assms(1,2) by (auto simp: lru_idx_def)
  have i: "i < length (arena l)" "i \<notin> set (as @ bs)"
    using assms(1) by (auto simp: lru_idx_def lru_links_def)
  have pg2: "\<And>j. pg l2 j = pg l j" using l1(3) assms(3) by simp
  have lk: "lru_links l2 (as @ bs)" using l1(1) assms(3) by (simp add: lru_links_def)
  have "lru_idx l2 (as @ bs)"
    unfolding lru_idx_def
  proof (intro conjI allI)
    show "lru_links l2 (as @ bs)" by fact
    show "inj_on (pg l2) (set (as @ bs))"
      using assms(1) by (auto simp: lru_idx_def inj_on_def pg2)
    show "lru_pages l2 q = Some k \<longleftrightarrow> k \<in> set (as @ bs) \<and> pg l2 k = q" for q k
      using assms(1) i assms(3) unfolding pg2 by (auto simp: lru_idx_def inj_on_def)
    show "distinct (free_list l2)" using assms(1,3) l1(5) by (auto simp: lru_idx_def)
    show "set (free_list l2) \<inter> set (as @ bs) = {}"
      using assms(1,3) l1(5) i by (auto simp: lru_idx_def)
    show "set (free_list l2) \<subseteq> {..<length (arena l2)}"
      using assms(1,3) l1(2,5) i by (auto simp: lru_idx_def)
    show "length (as @ bs) \<le> lru_capacity l2"
      using assms(1,3) l1(6) by (auto simp: lru_idx_def)
  qed
  then show ?thesis using pg2 l1(6) assms(3) by (auto simp: lru_rep_def intro!: exI [of _ "as @ bs"])
qed

definition rl_evict :: "(page_id \<Rightarrow> bool) \<Rightarrow> page_id list \<Rightarrow> page_id list" where
  "rl_evict pr ps = (case rl_victim pr ps of None \<Rightarrow> ps | Some p \<Rightarrow> remove1 p ps)"

lemma pg_node: "pg l i = node_page (arena l ! i)"
  by (simp add: pg_def)

lemma unlink_pages:
  "unlink i (l\<lparr>lru_pages := m\<rparr>) = res_bind (unlink i l) (\<lambda>l'. Ok (l'\<lparr>lru_pages := m\<rparr>))"
  by (auto simp: unlink_def arena_upd_def vec_get_def split: option.splits)

lemma lru_remove_rep:
  assumes "lru_rep l ps"
  shows "\<exists>l'. lru_remove p l = Ok l' \<and> lru_rep l' (remove1 p ps) \<and>
    lru_capacity l' = lru_capacity l"
proof (cases "p \<in> set ps")
  case False
  then show ?thesis
    using assms by (simp add: lru_remove_def lru_rep_not_mem remove1_idem)
next
  case True
  obtain as i bs where a: "lru_idx l (as @ i # bs)" "pg l i = p" "lru_pages l p = Some i"
    "ps = map (pg l) as @ p # map (pg l) bs" "p \<notin> pg l ` set as"
    using lru_rep_mem [OF assms True] by blast
  obtain l1 where u: "unlink i l = Ok l1"
    using unlink_links [of l as i bs] a(1) by (auto simp: lru_idx_def)
  let ?l2 = "l1\<lparr>lru_pages := (lru_pages l)(p := None), free_list := free_list l1 @ [i]\<rparr>"
  have "lru_rep ?l2 (map (pg l) (as @ bs)) \<and> lru_capacity ?l2 = lru_capacity l"
    by (rule lru_release [OF a(1) u]) (use a(2) in simp)
  moreover have "remove1 p ps = map (pg l) (as @ bs)"
    using a(4,5) by (simp add: remove1_mid)
  ultimately show ?thesis using a(3) u by (simp add: lru_remove_def unlink_pages)
qed

lemma peek_walk_segment:
  "dlseg (arena l) None xs n \<Longrightarrow>
   peek_walk limit l (last_of xs None) = Ok (take limit (rev (map (pg l) xs)))"
proof (induction xs arbitrary: limit n rule: rev_induct)
  case Nil
  then show ?case by simp
next
  case (snoc x xs)
  show ?case
  proof (cases limit)
    case (Suc m)
    have "peek_walk m l (last_of xs None) = Ok (take m (rev (map (pg l) xs)))"
      by (rule snoc.IH [of "Some x"]) (use snoc.prems in simp)
    with Suc snoc.prems show ?thesis by (simp add: pg_node [symmetric])
  qed simp
qed

lemma peek_rev_rep: "lru_rep l ps \<Longrightarrow> peek_rev limit l = Ok (take limit (rev ps))"
  by (auto simp: lru_rep_def lru_idx_def lru_links_def peek_rev_def peek_walk_segment)

lemma evict_walk_rep:
  assumes "lru_idx l (xs @ ys)"
    and "\<forall>i \<in> set (xs @ ys). pred (pg l i) = Ok (pr (pg l i))"
    and "\<forall>i \<in> set ys. \<not> pr (pg l i)"
  shows "\<exists>l'. evict_walk pred l (last_of xs None) = Some (Ok (rl_victim pr (map (pg l) (xs @ ys)), l'))
    \<and> lru_rep l' (rl_evict pr (map (pg l) (xs @ ys)))
    \<and> lru_capacity l' = lru_capacity l"
  using assms
proof (induction xs arbitrary: ys rule: rev_induct)
  case Nil
  have n: "rl_victim pr (map (pg l) ys) = None"
    using Nil.prems(3) by (auto simp: rl_victim_def find_None_iff)
  have "lru_rep l (map (pg l) ys)"
    using Nil.prems(1) by (auto simp: lru_rep_def)
  then show ?case using n by (simp add: evict_walk.simps rl_evict_def)
next
  case (snoc i xs)
  have lk: "lru_links l (xs @ i # ys)" and i: "i < length (arena l)"
    and pv: "prev_idx (arena l ! i) = last_of xs None"
    using snoc.prems(1) by (auto simp: lru_idx_def lru_links_def)
  have pi: "pred (node_page (arena l ! i)) = Ok (pr (pg l i))"
    using snoc.prems(2) by (auto simp: pg_def)
  show ?case
  proof (cases "pr (pg l i)")
    case False
    then have "\<exists>l'. evict_walk pred l (last_of xs None) =
        Some (Ok (rl_victim pr (map (pg l) (xs @ i # ys)), l'))
      \<and> lru_rep l' (rl_evict pr (map (pg l) (xs @ i # ys)))
      \<and> lru_capacity l' = lru_capacity l"
      using snoc.prems by (intro snoc.IH) auto
    with False i pi pv show ?thesis by (simp add: evict_walk.simps [of pred l "Some i"])
  next
    case True
    obtain l1 where l1: "unlink i l = Ok l1" "lru_pages l1 = lru_pages l"
      using unlink_links [OF lk] by auto
    let ?l2 = "l1\<lparr>lru_pages := (lru_pages l1)(pg l i := None), free_list := free_list l1 @ [i]\<rparr>"
    have rep: "lru_rep ?l2 (map (pg l) (xs @ ys)) \<and> lru_capacity ?l2 = lru_capacity l"
      by (rule lru_release [of l xs i ys l1]) (use snoc.prems(1) l1 in auto)
    have ni: "pg l i \<notin> set (map (pg l) xs)"
      using snoc.prems(1) by (auto simp: lru_idx_def lru_links_def inj_on_def)
    have "List.find pr (rev (map (pg l) ys)) = None"
      using snoc.prems(3) by (auto simp: find_None_iff)
    then have v: "rl_victim pr (map (pg l) ((xs @ [i]) @ ys)) = Some (pg l i)"
      using True by (simp add: rl_victim_def find_append)
    show ?thesis
      using True i pi l1 rep ni v
      by (simp add: evict_walk.simps [of pred l "Some i"] pg_def [symmetric] remove1_mid rl_evict_def)
  qed
qed

lemma evict_if_rep:
  assumes "lru_rep l ps" "\<forall>p \<in> set ps. pred p = Ok (pr p)"
  shows "\<exists>l'. evict_if pred l = Some (Ok (rl_victim pr ps, l'))
    \<and> lru_rep l' (rl_evict pr ps)
    \<and> lru_capacity l' = lru_capacity l"
proof -
  obtain xs where x: "lru_idx l xs" "ps = map (pg l) xs"
    using assms(1) by (auto simp: lru_rep_def)
  then have "evict_if pred l = evict_walk pred l (last_of xs None)"
    by (simp add: evict_if_def lru_idx_def lru_links_def)
  with evict_walk_rep [of l xs "[]" pred pr] x assms(2) show ?thesis by simp
qed

section \<open>The contract as a locale\<close>

text \<open>
  What a user of a replacer may rely on. The client lemmas below are proved from these laws
  only; the arena satisfies them.
\<close>

locale recency_list =
  fixes rep :: "'r \<Rightarrow> page_id list \<Rightarrow> bool"
    and cap :: "'r \<Rightarrow> nat"
    and access :: "page_id \<Rightarrow> 'r \<Rightarrow> 'r res"
    and discard :: "page_id \<Rightarrow> 'r \<Rightarrow> 'r res"
    and oldest :: "nat \<Rightarrow> 'r \<Rightarrow> page_id list res"
    and evict :: "(page_id \<Rightarrow> bool res) \<Rightarrow> 'r \<Rightarrow> (page_id option \<times> 'r) res option"
  assumes rep_distinct: "rep r ps \<Longrightarrow> distinct ps"
    and rep_access: "rep r ps \<Longrightarrow> p \<in> set ps \<or> length ps < cap r \<Longrightarrow>
      \<exists>r'. access p r = Ok r' \<and> rep r' (rl_access p ps) \<and> cap r' = cap r"
    and rep_access_full: "rep r ps \<Longrightarrow> p \<notin> set ps \<Longrightarrow> \<not> length ps < cap r \<Longrightarrow> access p r = Panic"
    and rep_discard: "rep r ps \<Longrightarrow>
      \<exists>r'. discard p r = Ok r' \<and> rep r' (remove1 p ps) \<and> cap r' = cap r"
    and rep_oldest: "rep r ps \<Longrightarrow> oldest n r = Ok (take n (rev ps))"
    and rep_evict: "rep r ps \<Longrightarrow> \<forall>p \<in> set ps. pred p = Ok (pr p) \<Longrightarrow>
      \<exists>r'. evict pred r = Some (Ok (rl_victim pr ps, r')) \<and>
        rep r' (rl_evict pr ps) \<and> cap r' = cap r"
begin

text \<open>After a sequence of accesses the pages are ordered by their last access.\<close>

lemma access_sequence:
  "rep r [] \<Longrightarrow> card (set qs) \<le> cap r \<Longrightarrow>
   \<exists>r'. res_fold access qs r = Ok r' \<and> rep r' (rev (remdups qs)) \<and> cap r' = cap r"
proof (induction qs rule: rev_induct)
  case Nil
  then show ?case by auto
next
  case (snoc q qs)
  have le: "card (set qs) \<le> card (set (qs @ [q]))" by (rule card_mono) auto
  with snoc obtain r1 where r1: "res_fold access qs r = Ok r1" "rep r1 (rev (remdups qs))"
    "cap r1 = cap r" by auto
  have len: "length (rev (remdups qs)) = card (set qs)"
    by (simp add: length_remdups_card_conv)
  have room: "q \<in> set (rev (remdups qs)) \<or> length (rev (remdups qs)) < cap r1"
    using snoc.prems(2) r1(3) len by (auto simp: card_insert_if split: if_splits)
  have eq: "rl_access q (rev (remdups qs)) = rev (remdups (qs @ [q]))"
  proof -
    have "remdups (qs @ [q]) = filter (\<lambda>x. x \<noteq> q) (remdups qs) @ [q]"
      by (induction qs) auto
    moreover have "remove1 q (rev (remdups qs)) = filter (\<lambda>x. x \<noteq> q) (rev (remdups qs))"
      by (rule distinct_remove1_removeAll [THEN trans])
        (auto simp: removeAll_filter_not_eq intro!: filter_cong)
    ultimately show ?thesis by (simp add: rl_access_def rev_filter)
  qed
  from rep_access [OF r1(2) room] r1(1,3) eq show ?case
    by (auto simp: res_fold_append)
qed

text \<open>The victim of an unrestricted eviction is the page whose last access is oldest.\<close>

lemma victim_is_least_recent:
  assumes "rep r []" "card (set qs) \<le> cap r" "qs \<noteq> []" "res_fold access qs r = Ok r'"
  shows "\<exists>r''. evict (\<lambda>_. Ok True) r' = Some (Ok (Some (hd (remdups qs)), r'')) \<and>
    rep r'' (rev (tl (remdups qs)))"
proof -
  have rp: "rep r' (rev (remdups qs))"
    using access_sequence [OF assms(1,2)] assms(4) by auto
  obtain x xs where x: "remdups qs = x # xs" using assms(3) by (cases "remdups qs") auto
  have "x \<notin> set xs" using x by (metis distinct.simps(2) distinct_remdups)
  then have "remove1 x (rev xs @ [x]) = rev xs" using remove1_mid [of x "rev xs" "[]"] by simp
  with rep_evict [OF rp, of "\<lambda>_. Ok True" "\<lambda>_. True"] x show ?thesis
    by (auto simp: rl_victim_def rl_evict_def)
qed

lemma room_after_evict:
  assumes "rep r ps" "\<forall>p \<in> set ps. pred p = Ok (pr p)" "rl_victim pr ps = Some v"
    "length ps \<le> cap r"
  shows "\<exists>r'. evict pred r = Some (Ok (Some v, r')) \<and> rep r' (remove1 v ps) \<and>
    cap r' = cap r \<and> v \<in> set ps \<and> pr v \<and> length (remove1 v ps) < cap r'"
proof -
  have "List.find pr (rev ps) = Some v" using assms(3) by (simp add: rl_victim_def)
  then obtain i where "i < length (rev ps)" "v = rev ps ! i" "pr v"
    by (auto simp: find_Some_iff)
  then have v: "v \<in> set ps" "pr v" by (metis nth_mem set_rev)+
  then have "length (remove1 v ps) < length ps"
    by (simp add: length_remove1_less)
  with rep_evict [OF assms(1,2)] assms(3,4) v show ?thesis
    by (auto simp: rl_evict_def)
qed

end

interpretation lru: recency_list lru_rep lru_capacity record_access lru_remove peek_rev evict_if
proof unfold_locales
  fix r ps p
  assume "lru_rep r ps" "p \<in> set ps \<or> length ps < lru_capacity r"
  then show "\<exists>r'. record_access p r = Ok r' \<and> lru_rep r' (rl_access p ps) \<and>
      lru_capacity r' = lru_capacity r"
    by (cases "p \<in> set ps") (simp_all add: record_access_hit record_access_miss)
qed (simp_all add: lru_rep_distinct record_access_full lru_remove_rep peek_rev_rep evict_if_rep)

section \<open>The replacer\<close>

text \<open>
  C34: After any sequence of accesses within the capacity the arena-linked list evicts the page
  whose last access is the oldest.
\<close>

lemma lru_victim:
  assumes "card (set qs) \<le> c" "qs \<noteq> []"
  shows "\<exists>l l'. res_fold record_access qs (lru_new c) = Ok l \<and>
    evict_if (\<lambda>_. Ok True) l = Some (Ok (Some (hd (remdups qs)), l')) \<and> lru_rep l' (rev (tl (remdups qs)))"
proof -
  have c: "lru_capacity (lru_new c) = c" by (simp add: lru_new_def)
  obtain l where l: "res_fold record_access qs (lru_new c) = Ok l"
    using lru.access_sequence [OF lru_rep_new, of qs c] assms(1) c by auto
  with lru.victim_is_least_recent [OF lru_rep_new _ assms(2) l] assms(1) c show ?thesis by auto
qed

lemma lru_victim_witness:
  "\<exists>l l'. res_fold record_access [1, 2, 1] (lru_new 2) = Ok l \<and>
    evict_if (\<lambda>_. Ok True) l = Some (Ok (Some 2, l')) \<and> lru_rep l' [1]"
proof -
  have "card (set [1, 2, 1 :: page_id]) \<le> 2" by (simp add: insert_commute card_insert_if)
  from lru_victim [OF this] show ?thesis by simp
qed

end
