(* ===== verification/BufferPool.thy ===== *)
theory BufferPool
  imports StateErr Recovery Lru
begin

text \<open>
  The buffer pool of src/src/storage/buffer_pool.rs: the page table, the LRU replacer, the
  disk manager, the log and the active transactions, with every operation of the pool.

  A frame is named by its page id; the page table holds its node. A caller that holds an
  \<open>Arc\<close> of a frame pins the page: \<open>pins\<close> is the set of pages so held, and eviction passes
  them over. The order in which a hash set or map is walked is the parameter \<open>order\<close>,
  which enumerates a finite set of page ids.
\<close>

section \<open>State\<close>

record txn_state =
  undo_logged :: "page_id \<rightharpoonup> u64"
  dirty_pages :: "page_id set"

record pool =
  bp_replacer :: lru
  bp_disk :: disk_manager
  bp_table :: "page_id \<rightharpoonup> btree_node"
  bp_capacity :: nat
  bp_wal :: wal
  bp_txns :: "u64 \<rightharpoonup> txn_state"

definition pool_new :: "disk_manager \<Rightarrow> nat \<Rightarrow> wal \<Rightarrow> pool" where
  "pool_new d c w = \<lparr>bp_replacer = lru_new c, bp_disk = d, bp_table = Map.empty, bp_capacity = c,
     bp_wal = w, bp_txns = Map.empty\<rparr>"

definition can_checkpoint :: "pool \<Rightarrow> bool" where
  "can_checkpoint s \<longleftrightarrow> dom (bp_txns s) = {}"

definition pool_is_empty :: "pool \<Rightarrow> bool" where
  "pool_is_empty s \<longleftrightarrow> disk_is_empty (bp_disk s)"

fun node_wal_offset :: "btree_node \<Rightarrow> u64" where
  "node_wal_offset (Internal n) = in_wal_offset n"
| "node_wal_offset (Leaf n) = lf_wal_offset n"

fun set_wal_offset :: "u64 \<Rightarrow> btree_node \<Rightarrow> btree_node" where
  "set_wal_offset off (Internal n) = Internal (n\<lparr>in_wal_offset := off\<rparr>)"
| "set_wal_offset off (Leaf n) = Leaf (n\<lparr>lf_wal_offset := off\<rparr>)"

definition zero_page :: "u8 list" where "zero_page = replicate PAGE_SIZE 0"

text \<open>Reading and overwriting a frame that the caller holds.\<close>

definition read_frame :: "page_id \<Rightarrow> (pool, btree_node) call" where
  "read_frame p s = (case bp_table s p of Some n \<Rightarrow> ret n s | None \<Rightarrow> panic s)"

definition write_frame :: "page_id \<Rightarrow> btree_node \<Rightarrow> (pool, unit) call" where
  "write_frame p n = modify (\<lambda>s. s\<lparr>bp_table := (bp_table s)(p \<mapsto> n)\<rparr>)"

text \<open>The replacer's calls on the pool.\<close>

definition touch :: "page_id \<Rightarrow> (pool, unit) call" where
  "touch p s = (case record_access p (bp_replacer s) of
     Ok l \<Rightarrow> ret () (s\<lparr>bp_replacer := l\<rparr>) | Err e \<Rightarrow> fail e s | Panic \<Rightarrow> panic s)"

section \<open>Writing back and eviction\<close>

definition write_back :: "page_id \<Rightarrow> btree_node \<Rightarrow> (pool, unit) call" where
  "write_back p n =
     seq (modify (\<lambda>s. if node_wal_offset n > wal_flushed (bp_wal s)
                      then s\<lparr>bp_wal := wal_sync (bp_wal s)\<rparr> else s)) (\<lambda>_.
     seq (lift (encode n zero_page)) (\<lambda>raw_page.
     seq (modify (\<lambda>s. s\<lparr>bp_disk := write_page p raw_page (bp_disk s)\<rparr>)) (\<lambda>_.
     write_frame p (clear_dirty n))))"

definition flush_page :: "page_id \<Rightarrow> (pool, unit) call" where
  "flush_page p s =
     (case bp_table s p of
        None \<Rightarrow> ret () s
      | Some n \<Rightarrow> if \<not> node_is_dirty n then ret () s else write_back p n s)"

definition evict_pred :: "page_id set \<Rightarrow> pool \<Rightarrow> page_id \<Rightarrow> bool res" where
  "evict_pred pins s p = (case bp_table s p of Some _ \<Rightarrow> Ok (p \<notin> pins) | None \<Rightarrow> Panic)"

definition choose_victim :: "page_id set \<Rightarrow> (pool, page_id) call" where
  "choose_victim pins s =
     (case evict_if (evict_pred pins s) (bp_replacer s) of
        None \<Rightarrow> None
      | Some (Ok (Some p, l)) \<Rightarrow> ret p (s\<lparr>bp_replacer := l\<rparr>)
      | Some (Ok (None, l)) \<Rightarrow> fail LruEviction (s\<lparr>bp_replacer := l\<rparr>)
      | Some (Err e) \<Rightarrow> fail e s
      | Some Panic \<Rightarrow> panic s)"

definition evict_page :: "page_id set \<Rightarrow> (pool, unit) call" where
  "evict_page pins =
     seq (choose_victim pins) (\<lambda>p.
     seq (flush_page p) (\<lambda>_.
     modify (\<lambda>s. s\<lparr>bp_table := (bp_table s)(p := None)\<rparr>)))"

section \<open>Fetching and allocating\<close>

definition make_room :: "page_id set \<Rightarrow> (pool, unit) call" where
  "make_room pins s =
     (if card (dom (bp_table s)) \<ge> bp_capacity s then evict_page pins s else ret () s)"

definition fetch_page :: "page_id set \<Rightarrow> page_id \<Rightarrow> (pool, btree_node) call" where
  "fetch_page pins p s =
     (case bp_table s p of
        Some n \<Rightarrow> seq (touch p) (\<lambda>_. ret n) s
      | None \<Rightarrow>
          seq (make_room pins) (\<lambda>_.
          seq (gets (\<lambda>s. read_page p (bp_disk s))) (\<lambda>r.
          seq (lift (res_bind r decode)) (\<lambda>n.
          seq (write_frame p n) (\<lambda>_.
          seq (touch p) (\<lambda>_. ret n))))) s)"

definition new_page :: "page_id set \<Rightarrow> bool \<Rightarrow> (pool, page_id) call" where
  "new_page pins is_leaf =
     seq (make_room pins) (\<lambda>_.
     seq (gets (\<lambda>s. compute_new_page_id (bp_disk s))) (\<lambda>(p, d).
     seq (modify (\<lambda>s. s\<lparr>bp_disk := d\<rparr>)) (\<lambda>_.
     seq (write_frame p (new_empty p is_leaf)) (\<lambda>_.
     seq (touch p) (\<lambda>_. ret p)))))"

section \<open>Transactions\<close>

definition txn_entry :: "u64 \<Rightarrow> pool \<Rightarrow> txn_state" where
  "txn_entry t s = (case bp_txns s t of Some st \<Rightarrow> st | None \<Rightarrow> \<lparr>undo_logged = Map.empty, dirty_pages = {}\<rparr>)"

definition put_txn :: "u64 \<Rightarrow> txn_state \<Rightarrow> (pool, unit) call" where
  "put_txn t st = modify (\<lambda>s. s\<lparr>bp_txns := (bp_txns s)(t \<mapsto> st)\<rparr>)"

definition log_record :: "wal_record \<Rightarrow> (pool, u64) call" where
  "log_record r s = (let (off, w) = write_record r (bp_wal s) in ret off (s\<lparr>bp_wal := w\<rparr>))"

definition begin_page_mutation :: "page_id set \<Rightarrow> page_id \<Rightarrow> u64 \<Rightarrow> (pool, unit) call" where
  "begin_page_mutation pins p t =
     seq (fetch_page pins p) (\<lambda>n.
     seq (gets (txn_entry t)) (\<lambda>st.
     seq (put_txn t st) (\<lambda>_.
     seq (case undo_logged st p of
            Some _ \<Rightarrow> ret st
          | None \<Rightarrow>
              seq (lift (encode n zero_page)) (\<lambda>page.
              seq (log_record (Undo p t page)) (\<lambda>off.
              seq (write_frame p (set_wal_offset off n)) (\<lambda>_.
              ret (st\<lparr>undo_logged := (undo_logged st)(p \<mapsto> off)\<rparr>))))) (\<lambda>st.
     put_txn t (st\<lparr>dirty_pages := insert p (dirty_pages st)\<rparr>)))))"

text \<open>The redo records of the batch, for the pages of the transaction that are cached.\<close>

fun redo_batch :: "u64 \<Rightarrow> (page_id \<rightharpoonup> btree_node) \<Rightarrow> page_id list \<Rightarrow> wal_record list res" where
  "redo_batch t table [] = Ok []"
| "redo_batch t table (p # ps) =
     (case table p of
        None \<Rightarrow> redo_batch t table ps
      | Some n \<Rightarrow> res_bind (encode n zero_page) (\<lambda>page.
          res_bind (redo_batch t table ps) (\<lambda>rs. Ok (Redo p t page # rs))))"

definition commit_transaction :: "(page_id set \<Rightarrow> page_id list) \<Rightarrow> u64 \<Rightarrow> (pool, unit) call" where
  "commit_transaction order t s =
     (case bp_txns s t of
        None \<Rightarrow> ret () s
      | Some st \<Rightarrow>
          seq (modify (\<lambda>s. s\<lparr>bp_txns := (bp_txns s)(t := None)\<rparr>)) (\<lambda>_.
          seq (gets bp_table) (\<lambda>table.
          seq (lift (redo_batch t table (order (dirty_pages st)))) (\<lambda>batch.
          modify (\<lambda>s. s\<lparr>bp_wal := wal_sync (write_batch (batch @ [Commit t]) (bp_wal s))\<rparr>)))) s)"

definition undo_page :: "page_id \<Rightarrow> u64 \<Rightarrow> (pool, unit) call" where
  "undo_page p off =
     seq (gets (\<lambda>s. read_record_at off (bp_wal s))) (\<lambda>r.
     seq (lift r) (\<lambda>record.
     seq (case record of
            Undo _ _ page \<Rightarrow> modify (\<lambda>s. s\<lparr>bp_disk := write_page p page (bp_disk s)\<rparr>)
          | _ \<Rightarrow> fail (CorruptPage ''expected Undo record at cached Wal offset'')) (\<lambda>_.
     seq (modify (\<lambda>s. s\<lparr>bp_table := (bp_table s)(p := None)\<rparr>)) (\<lambda>_.
     seq (gets (\<lambda>s. lru_remove p (bp_replacer s))) (\<lambda>l.
     seq (lift l) (\<lambda>l. modify (\<lambda>s. s\<lparr>bp_replacer := l\<rparr>)))))))"

definition abort_transaction :: "(page_id set \<Rightarrow> page_id list) \<Rightarrow> u64 \<Rightarrow> (pool, unit) call" where
  "abort_transaction order t s =
     (case bp_txns s t of
        None \<Rightarrow> ret () s
      | Some st \<Rightarrow>
          seq (modify (\<lambda>s. s\<lparr>bp_txns := (bp_txns s)(t := None)\<rparr>)) (\<lambda>_.
          for_each (\<lambda>p. undo_page p (the (undo_logged st p))) (order (dom (undo_logged st)))) s)"

section \<open>Cleaning and checkpoints\<close>

definition is_dirty_in :: "pool \<Rightarrow> page_id \<Rightarrow> bool" where
  "is_dirty_in s p = (case bp_table s p of Some n \<Rightarrow> node_is_dirty n | None \<Rightarrow> False)"

definition clean_pages_watermark :: "(pool, unit) call" where
  "clean_pages_watermark s =
     (let dirty_threshold = (bp_capacity s * 3) div 4;
          dirty_allowed = bp_capacity s div 4
      in seq (lift (peek_rev dirty_threshold (bp_replacer s))) (\<lambda>candidates.
           let dirty_page_ids = filter (is_dirty_in s) candidates in
           if length dirty_page_ids \<ge> dirty_threshold then
             for_each flush_page (take (dirty_threshold - dirty_allowed) dirty_page_ids)
           else ret ()) s)"

definition flush_all_pages :: "(page_id set \<Rightarrow> page_id list) \<Rightarrow> (pool, unit) call" where
  "flush_all_pages order =
     seq (gets (\<lambda>s. order (dom (bp_table s)))) (\<lambda>page_ids.
     seq (for_each flush_page page_ids) (\<lambda>_.
     seq (gets (\<lambda>s. save_header (bp_disk s))) (\<lambda>r.
     seq (lift r) (\<lambda>d. modify (\<lambda>s. s\<lparr>bp_disk := d\<rparr>)))))"

section \<open>Contents and invariant\<close>

text \<open>
  The content of a page: the cached node, or else what the file decodes to, up to the fields
  that a reload resets. The invariant over the allocated pages \<open>D\<close> says that the replacer
  holds exactly the cached pages, that every cached node is well formed, and that a clean
  cached page and every uncached page are on disk. A page just allocated is clean but not
  on disk: such pages form the set \<open>F\<close>, and their holder keeps them pinned.
\<close>

definition on_disk :: "disk_manager \<Rightarrow> page_id \<Rightarrow> btree_node \<Rightarrow> bool" where
  "on_disk d p n \<longleftrightarrow> res_bind (read_page p d) decode = Ok n"

definition page_content :: "pool \<Rightarrow> page_id \<Rightarrow> btree_node option" where
  "page_content s p = (case bp_table s p of Some n \<Rightarrow> Some (reloaded n)
     | None \<Rightarrow> (case res_bind (read_page p (bp_disk s)) decode of Ok n \<Rightarrow> Some (reloaded n) | _ \<Rightarrow> None))"

definition page_inv :: "page_id set \<Rightarrow> pool \<Rightarrow> page_id \<Rightarrow> bool" where
  "page_inv F s p \<longleftrightarrow> (case bp_table s p of
     Some n \<Rightarrow> node_wf n \<and> (\<not> node_is_dirty n \<and> p \<notin> F \<longrightarrow> on_disk (bp_disk s) p (reloaded n))
   | None \<Rightarrow> \<exists>n. on_disk (bp_disk s) p n \<and> node_wf n \<and> reloaded n = n)"

definition cache_inv :: "pool \<Rightarrow> bool" where
  "cache_inv s \<longleftrightarrow> 0 < bp_capacity s \<and> lru_capacity (bp_replacer s) = bp_capacity s \<and>
     (\<exists>ps. lru_rep (bp_replacer s) ps \<and> set ps = dom (bp_table s) \<and> length ps \<le> bp_capacity s)"

definition pages_inv :: "page_id set \<Rightarrow> page_id set \<Rightarrow> pool \<Rightarrow> bool" where
  "pages_inv D F s \<longleftrightarrow> dom (bp_table s) \<subseteq> D \<and> (\<forall>p \<in> D. aligned p \<and> page_inv F s p)"

definition pool_inv :: "page_id set \<Rightarrow> page_id set \<Rightarrow> pool \<Rightarrow> bool" where
  "pool_inv D F s \<longleftrightarrow> cache_inv s \<and> pages_inv D F s"

text \<open>The dirty frames of one state are dirty in another.\<close>

definition dirty_sub :: "pool \<Rightarrow> pool \<Rightarrow> bool" where
  "dirty_sub s' s \<longleftrightarrow> (\<forall>q. is_dirty_in s' q \<longrightarrow> is_dirty_in s q)"

text \<open>What a call on the cache may change: it keeps the contents, the transactions, the log
  records and the frames that are pinned, and makes no page dirty.\<close>

definition quiet :: "page_id set \<Rightarrow> page_id set \<Rightarrow> pool \<Rightarrow> pool \<Rightarrow> bool" where
  "quiet D pins s s' \<longleftrightarrow> (\<forall>p \<in> D. page_content s' p = page_content s p) \<and>
     bp_txns s' = bp_txns s \<and> dm_header (bp_disk s') = dm_header (bp_disk s) \<and>
     wal_file (bp_wal s') = wal_file (bp_wal s) \<and> bp_capacity s' = bp_capacity s \<and>
     (\<forall>q \<in> pins. \<forall>n. bp_table s q = Some n \<longrightarrow> bp_table s' q = Some n) \<and> dirty_sub s' s"

lemma dirty_sub_refl [simp]: "dirty_sub s s"
  by (simp add: dirty_sub_def)

lemma dirty_sub_trans: "dirty_sub s'' s' \<Longrightarrow> dirty_sub s' s \<Longrightarrow> dirty_sub s'' s"
  by (simp add: dirty_sub_def)

lemma is_dirty_in_iff: "is_dirty_in s q \<longleftrightarrow> (\<exists>n. bp_table s q = Some n \<and> node_is_dirty n)"
  by (simp add: is_dirty_in_def split: option.split)

lemma dirty_subI:
  assumes "\<And>q n. bp_table s' q = Some n \<Longrightarrow> node_is_dirty n \<Longrightarrow> \<exists>m. bp_table s q = Some m \<and> node_is_dirty m"
  shows "dirty_sub s' s"
  unfolding dirty_sub_def is_dirty_in_iff using assms by blast

lemma dirty_sub_table: "bp_table s' = bp_table s \<Longrightarrow> dirty_sub s' s"
  by (rule dirty_subI) simp

lemma quiet_refl [simp]: "quiet D pins s s"
  by (simp add: quiet_def)

lemma quiet_trans: "quiet D pins s s' \<Longrightarrow> quiet D pins s' s'' \<Longrightarrow> quiet D pins s s''"
  using dirty_sub_trans [of s'' s' s] by (simp add: quiet_def)

lemma reloaded_reloaded [simp]: "reloaded (reloaded n) = reloaded n"
  by (cases n) (simp_all add: reloaded_leaf_def reloaded_internal_def leaf_cells_def)

lemma reloaded_clear_dirty [simp]: "reloaded (clear_dirty n) = reloaded n"
  by (cases n) (simp_all add: reloaded_leaf_def reloaded_internal_def leaf_cells_def)

lemma reloaded_wal_offset [simp]: "reloaded (set_wal_offset off n) = reloaded n"
  by (cases n) (simp_all add: reloaded_leaf_def reloaded_internal_def leaf_cells_def)

lemma reloaded_mark_dirty [simp]: "reloaded (mark_dirty n) = reloaded n"
  by (cases n) (simp_all add: reloaded_leaf_def reloaded_internal_def leaf_cells_def)

lemma node_wf_flags [simp]:
  "node_wf (clear_dirty n) = node_wf n" "node_wf (set_wal_offset off n) = node_wf n"
  "node_wf (mark_dirty n) = node_wf n"
  by (cases n; simp add: leaf_wf_def internal_wf_def leaf_cells_def in_list_def)+

lemma dirty_flags [simp]:
  "\<not> node_is_dirty (clear_dirty n)" "node_is_dirty (mark_dirty n)"
  "node_is_dirty (set_wal_offset off n) = node_is_dirty n"
  by (cases n; simp)+

lemma length_zero_page [simp]: "length zero_page = PAGE_SIZE"
  by (simp add: zero_page_def)

lemma page_inv_cong:
  "bp_table s' p = bp_table s p \<Longrightarrow> read_page p (bp_disk s') = read_page p (bp_disk s) \<Longrightarrow>
   page_inv F s' p = page_inv F s p"
  by (simp only: page_inv_def on_disk_def)

lemma page_content_cong:
  "bp_table s' p = bp_table s p \<Longrightarrow> read_page p (bp_disk s') = read_page p (bp_disk s) \<Longrightarrow>
   page_content s' p = page_content s p"
  by (simp only: page_content_def)

lemma pages_inv_cong:
  assumes "bp_table s' = bp_table s" "bp_disk s' = bp_disk s"
  shows "pages_inv D F s' = pages_inv D F s"
proof -
  have "page_inv F s' p = page_inv F s p" for p using assms by (intro page_inv_cong) simp_all
  then show ?thesis by (simp only: pages_inv_def assms(1))
qed

lemma pages_invD:
  assumes "pages_inv D F s" "p \<in> D"
  shows "bp_table s p = None \<Longrightarrow> \<exists>n. on_disk (bp_disk s) p n \<and> node_wf n \<and> reloaded n = n"
    and "bp_table s p = Some n \<Longrightarrow> node_wf n \<and> (\<not> node_is_dirty n \<and> p \<notin> F \<longrightarrow> on_disk (bp_disk s) p (reloaded n))"
    and "aligned p"
proof -
  have i: "aligned p \<and> page_inv F s p" using assms by (simp add: pages_inv_def)
  then show "bp_table s p = None \<Longrightarrow> \<exists>n. on_disk (bp_disk s) p n \<and> node_wf n \<and> reloaded n = n"
    "bp_table s p = Some n \<Longrightarrow> node_wf n \<and> (\<not> node_is_dirty n \<and> p \<notin> F \<longrightarrow> on_disk (bp_disk s) p (reloaded n))"
    "aligned p" by (simp_all add: page_inv_def)
qed

section \<open>Writing back\<close>

lemma on_disk_written:
  assumes "node_wf n" "encode n zero_page = Ok img"
  shows "length img = PAGE_SIZE" "on_disk (write_page p img d) p (reloaded n)"
  using encode_roundtrip [OF assms(1) length_zero_page] assms(2)
  by (auto simp: on_disk_def read_write_page)

lemma on_disk_other:
  "length img = PAGE_SIZE \<Longrightarrow> aligned p \<Longrightarrow> aligned q \<Longrightarrow> q \<noteq> p \<Longrightarrow> on_disk d q n \<Longrightarrow>
   on_disk (write_page p img d) q n"
  by (auto simp: on_disk_def res_bind_eq_Ok intro: read_write_other_page)

lemma content_cached: "bp_table s p = Some n \<Longrightarrow> page_content s p = Some (reloaded n)"
  by (simp add: page_content_def)

lemma content_uncached: "bp_table s p = None \<Longrightarrow> on_disk (bp_disk s) p n \<Longrightarrow> page_content s p = Some (reloaded n)"
  by (simp add: page_content_def on_disk_def)

lemma cache_inv_cong:
  "cache_inv s \<Longrightarrow> bp_replacer s' = bp_replacer s \<Longrightarrow> dom (bp_table s') = dom (bp_table s) \<Longrightarrow>
   bp_capacity s' = bp_capacity s \<Longrightarrow> cache_inv s'"
  by (simp add: cache_inv_def)

lemma cache_inv_wal [simp]: "cache_inv (s\<lparr>bp_wal := w\<rparr>) = cache_inv s"
  by (simp add: cache_inv_def)

text \<open>The state after a write-back of the cached page \<open>p\<close>.\<close>

definition cleaned :: "page_id \<Rightarrow> btree_node \<Rightarrow> u8 list \<Rightarrow> pool \<Rightarrow> pool" where
  "cleaned p n img s = s\<lparr>bp_wal := (if node_wal_offset n > wal_flushed (bp_wal s)
      then wal_sync (bp_wal s) else bp_wal s), bp_disk := write_page p img (bp_disk s),
    bp_table := (bp_table s)(p \<mapsto> clear_dirty n)\<rparr>"

lemma write_back_eq:
  assumes "node_wf n"
  shows "\<exists>img. encode n zero_page = Ok img \<and> write_back p n s = ret () (cleaned p n img s)"
proof -
  obtain img where "encode n zero_page = Ok img"
    using encode_roundtrip [OF assms length_zero_page] by auto
  then show ?thesis
    by (auto simp: write_back_def write_frame_def cleaned_def modify_def ret_def)
qed

lemma cleaned_inv:
  assumes inv: "pages_inv D F s" and p: "bp_table s p = Some n" "p \<in> D"
    and img: "encode n zero_page = Ok img"
  shows "pages_inv D F (cleaned p n img s)"
    "q \<in> D \<Longrightarrow> page_content (cleaned p n img s) q = page_content s q"
    "on_disk (bp_disk (cleaned p n img s)) p (reloaded n)"
proof -
  have wf: "node_wf n" using inv p by (auto simp: pages_inv_def page_inv_def split: option.splits)
  note w = on_disk_written [OF wf img]
  have al: "aligned q" if "q \<in> D" for q using inv that by (simp add: pages_inv_def)
  have d: "bp_disk (cleaned p n img s) = write_page p img (bp_disk s)"
    and t: "bp_table (cleaned p n img s) = (bp_table s)(p \<mapsto> clear_dirty n)"
    by (simp_all add: cleaned_def)
  have keep: "on_disk (bp_disk s) q m \<Longrightarrow> q \<in> D \<Longrightarrow> q \<noteq> p \<Longrightarrow> on_disk (write_page p img (bp_disk s)) q m" for q m
    using on_disk_other [OF w(1)] al p(2) by blast
  have "page_inv F (cleaned p n img s) q" if q: "q \<in> D" for q
  proof (cases "q = p")
    case True
    then show ?thesis using w(2) wf by (simp add: page_inv_def d t)
  next
    case False
    have "page_inv F s q" using inv q by (simp add: pages_inv_def)
    then show ?thesis using keep [OF _ q False] False
      by (auto simp: page_inv_def d t split: option.splits)
  qed
  moreover have "dom (bp_table (cleaned p n img s)) \<subseteq> D"
    using inv p by (auto simp: pages_inv_def t)
  ultimately show "pages_inv D F (cleaned p n img s)" using al by (simp add: pages_inv_def)
  show "on_disk (bp_disk (cleaned p n img s)) p (reloaded n)" using w(2) by (simp add: d)
  assume q: "q \<in> D"
  show "page_content (cleaned p n img s) q = page_content s q"
  proof (cases "bp_table s q")
    case None
    then obtain m where "on_disk (bp_disk s) q m"
      using pages_invD(1) [OF inv q] by blast
    moreover from None p have "q \<noteq> p" by auto
    ultimately show ?thesis using None q keep [of q m]
      by (simp add: content_uncached d t)
  next
    case (Some m)
    with p show ?thesis unfolding page_content_def t by (cases "q = p") auto
  qed
qed

lemma cleaned_dirty_sub: "bp_table s p = Some n \<Longrightarrow> dirty_sub (cleaned p n img s) s"
  by (rule dirty_subI) (auto simp: cleaned_def split: if_splits)

lemma flush_page_spec:
  assumes inv: "pages_inv D F s"
  shows "\<exists>s'. flush_page p s = ret () s' \<and> pages_inv D F s' \<and> quiet D {q. q \<noteq> p} s s' \<and>
    dom (bp_table s') = dom (bp_table s) \<and> bp_replacer s' = bp_replacer s \<and>
    (\<forall>n. bp_table s p = Some n \<longrightarrow> bp_table s' p = Some (clear_dirty n) \<and>
       (p \<notin> F \<or> node_is_dirty n \<longrightarrow> on_disk (bp_disk s') p (reloaded n)))"
proof (cases "bp_table s p")
  case None
  then show ?thesis using inv by (intro exI [of _ s]) (simp add: flush_page_def)
next
  case (Some n)
  from inv have D: "p \<in> D" using Some by (auto simp: pages_inv_def)
  then have pg: "page_inv F s p" using inv by (simp add: pages_inv_def)
  show ?thesis
  proof (cases "node_is_dirty n")
    case False
    have c: "clear_dirty n = n" using False by (cases n) simp_all
    have "flush_page p s = ret () s" using Some False by (simp add: flush_page_def)
    moreover have "p \<notin> F \<or> node_is_dirty n \<longrightarrow> on_disk (bp_disk s) p (reloaded n)"
      using pg Some False by (simp add: page_inv_def)
    moreover have "bp_table s p = Some (clear_dirty n)" using Some by (simp only: c)
    ultimately show ?thesis using inv Some
      by (intro exI [of _ s] conjI allI impI) (simp_all only: option.inject quiet_refl)
  next
    case True
    have wf: "node_wf n" using pg Some by (simp add: page_inv_def)
    obtain img where img: "encode n zero_page = Ok img" "write_back p n s = ret () (cleaned p n img s)"
      using write_back_eq [OF wf] by blast
    note c = cleaned_inv [OF _ Some D img(1)]
    have dm: "dom (bp_table (cleaned p n img s)) = dom (bp_table s)"
      using Some by (simp add: cleaned_def insert_absorb domI)
    have "bp_replacer (cleaned p n img s) = bp_replacer s" by (simp add: cleaned_def)
    moreover have "quiet D {q. q \<noteq> p} s (cleaned p n img s)"
      using c(2) [OF inv] cleaned_dirty_sub [OF Some] by (simp add: quiet_def) (simp add: cleaned_def wal_sync_def)
    moreover have "bp_table (cleaned p n img s) p = Some (clear_dirty n)" by (simp add: cleaned_def)
    moreover have "flush_page p s = ret () (cleaned p n img s)"
      using img(2) Some True by (simp add: flush_page_def)
    ultimately show ?thesis using c(1,3) [OF inv] Some dm
      by (intro exI [of _ "cleaned p n img s"]) simp
  qed
qed

lemma flush_page_pool:
  assumes "pool_inv D F s"
  shows "outcome (flush_page p s) (\<lambda>_ s'. pool_inv D F s' \<and> quiet D {q. q \<noteq> p} s s') (\<lambda>_ _. False)"
proof -
  have c: "cache_inv s" "pages_inv D F s" using assms by (simp_all add: pool_inv_def)
  obtain s' where s': "flush_page p s = ret () s'" "pages_inv D F s'" "quiet D {q. q \<noteq> p} s s'"
    "dom (bp_table s') = dom (bp_table s)" "bp_replacer s' = bp_replacer s"
    using flush_page_spec [OF c(2)] by blast
  have "cache_inv s'" using c(1) by (rule cache_inv_cong) (use s' in \<open>simp_all add: quiet_def\<close>)
  with s' show ?thesis by (simp add: pool_inv_def)
qed

section \<open>Eviction\<close>

lemma choose_victim_spec:
  assumes "cache_inv s"
  shows "outcome (choose_victim pins s)
    (\<lambda>v s'. \<exists>l ps. s' = s\<lparr>bp_replacer := l\<rparr> \<and> v \<in> dom (bp_table s) \<and> v \<notin> pins \<and>
       lru_rep l ps \<and> set ps = dom (bp_table s) - {v} \<and> length ps < bp_capacity s \<and>
       lru_capacity l = bp_capacity s)
    (\<lambda>e s'. \<exists>l. e = LruEviction \<and> dom (bp_table s) \<subseteq> pins \<and> s' = s\<lparr>bp_replacer := l\<rparr> \<and> cache_inv s')"
proof -
  obtain ps where ps: "lru_rep (bp_replacer s) ps" "set ps = dom (bp_table s)" "length ps \<le> bp_capacity s"
    and cap: "lru_capacity (bp_replacer s) = bp_capacity s" and pos: "0 < bp_capacity s"
    using assms by (auto simp: cache_inv_def)
  let ?pr = "\<lambda>p. p \<notin> pins"
  have pred: "\<forall>p \<in> set ps. evict_pred pins s p = Ok (?pr p)"
    using ps(2) by (auto simp: evict_pred_def)
  from lru.rep_evict [OF ps(1) pred] obtain l where
    l: "evict_if (evict_pred pins s) (bp_replacer s) = Some (Ok (rl_victim ?pr ps, l))"
      "lru_rep l (rl_evict ?pr ps)" "lru_capacity l = lru_capacity (bp_replacer s)" by blast
  show ?thesis
  proof (cases "rl_victim ?pr ps")
    case None
    then have n: "\<forall>p \<in> set ps. p \<in> pins" by (auto simp: rl_victim_def find_None_iff)
    have "rl_evict ?pr ps = ps" using None by (simp add: rl_evict_def)
    then have "cache_inv (s\<lparr>bp_replacer := l\<rparr>)"
      using l ps cap pos by (auto simp: cache_inv_def)
    with l(1) None n ps(2) show ?thesis by (auto simp: choose_victim_def)
  next
    case (Some v)
    obtain l' where l': "evict_if (evict_pred pins s) (bp_replacer s) = Some (Ok (Some v, l'))"
      "lru_rep l' (remove1 v ps)" "lru_capacity l' = lru_capacity (bp_replacer s)" "v \<in> set ps" "v \<notin> pins"
      "length (remove1 v ps) < lru_capacity l'"
      using lru.room_after_evict [OF ps(1) pred Some] ps(3) cap by auto
    have "set (remove1 v ps) = dom (bp_table s) - {v}"
      using lru_rep_distinct [OF ps(1)] ps(2) by simp
    with l' ps(2) cap show ?thesis by (auto simp: choose_victim_def)
  qed
qed

lemma pages_inv_replacer [simp]: "pages_inv D F (s\<lparr>bp_replacer := l\<rparr>) = pages_inv D F s"
  by (rule pages_inv_cong) simp_all

lemma page_content_replacer [simp]: "page_content (s\<lparr>bp_replacer := l\<rparr>) p = page_content s p"
  by (rule page_content_cong) simp_all

text \<open>Dropping a page that is on disk from the table.\<close>

lemma drop_page:
  assumes inv: "pages_inv D F s" and p: "bp_table s p = Some n" "on_disk (bp_disk s) p (reloaded n)"
  defines "s' \<equiv> s\<lparr>bp_table := (bp_table s)(p := None)\<rparr>"
  shows "pages_inv D F s'" "page_content s' q = page_content s q"
proof -
  have D: "p \<in> D" using inv p by (auto simp: pages_inv_def)
  then have wf: "node_wf n" using pages_invD(2) [OF inv] p by blast
  have "page_inv F s' q" if "q \<in> D" for q
  proof (cases "q = p")
    case True
    then show ?thesis using p(2) reloaded_wf [OF wf] by (auto simp: page_inv_def s'_def)
  next
    case False
    have "page_inv F s q" using inv that by (simp add: pages_inv_def)
    with False show ?thesis using page_inv_cong [of s' q s F] by (simp add: s'_def)
  qed
  then show "pages_inv D F s'" using inv by (auto simp: pages_inv_def s'_def)
  show "page_content s' q = page_content s q"
  proof (cases "q = p")
    case True
    then show ?thesis using p by (simp add: page_content_def s'_def on_disk_def)
  next
    case False
    then show ?thesis by (intro page_content_cong) (simp_all add: s'_def)
  qed
qed

lemma evict_page_spec:
  assumes inv: "pool_inv D F s" and F: "F \<subseteq> pins"
  shows "outcome (evict_page pins s)
    (\<lambda>_ s'. pool_inv D F s' \<and> quiet D pins s s' \<and> card (dom (bp_table s')) < bp_capacity s' \<and>
       dom (bp_table s') \<subseteq> dom (bp_table s))
    (\<lambda>e s'. e = LruEviction \<and> dom (bp_table s) \<subseteq> pins \<and> pool_inv D F s' \<and> quiet D pins s s')"
  unfolding evict_page_def
proof (rule outcome_seqI)
  have c: "cache_inv s" "pages_inv D F s" using inv by (simp_all add: pool_inv_def)
  show "outcome (choose_victim pins s)
    (\<lambda>v s'. \<exists>l ps. s' = s\<lparr>bp_replacer := l\<rparr> \<and> v \<in> dom (bp_table s) \<and> v \<notin> pins \<and>
       lru_rep l ps \<and> set ps = dom (bp_table s) - {v} \<and> length ps < bp_capacity s \<and>
       lru_capacity l = bp_capacity s)
    (\<lambda>e s'. e = LruEviction \<and> dom (bp_table s) \<subseteq> pins \<and> pool_inv D F s' \<and> quiet D pins s s')"
    using choose_victim_spec [OF c(1), of pins] c(2)
    by (elim outcome_weaken) (auto simp: pool_inv_def quiet_def dirty_sub_table)
  fix v s1
  assume "\<exists>l ps. s1 = s\<lparr>bp_replacer := l\<rparr> \<and> v \<in> dom (bp_table s) \<and> v \<notin> pins \<and>
       lru_rep l ps \<and> set ps = dom (bp_table s) - {v} \<and> length ps < bp_capacity s \<and>
       lru_capacity l = bp_capacity s"
  then obtain l ps where s1: "s1 = s\<lparr>bp_replacer := l\<rparr>" and v: "v \<in> dom (bp_table s)" "v \<notin> pins"
    and ps: "lru_rep l ps" "set ps = dom (bp_table s) - {v}" "length ps < bp_capacity s"
    and cap: "lru_capacity l = bp_capacity s" by blast
  obtain n where n: "bp_table s1 v = Some n" using v(1) s1 by auto
  have i1: "pages_inv D F s1" using c(2) s1 by simp
  from flush_page_spec [OF i1, of v] n obtain s2 where s2: "flush_page v s1 = ret () s2" "pages_inv D F s2"
    "quiet D {q. q \<noteq> v} s1 s2" "dom (bp_table s2) = dom (bp_table s1)" "bp_replacer s2 = bp_replacer s1"
    "bp_table s2 v = Some (clear_dirty n)" "v \<notin> F \<or> node_is_dirty n \<longrightarrow> on_disk (bp_disk s2) v (reloaded n)"
    by blast
  have vF: "v \<notin> F" using v(2) F by blast
  let ?s3 = "s2\<lparr>bp_table := (bp_table s2)(v := None)\<rparr>"
  have dr: "pages_inv D F ?s3" "\<And>q. page_content ?s3 q = page_content s2 q"
    using drop_page [OF s2(2,6)] s2(7) vF by auto
  have dm: "dom (bp_table ?s3) = dom (bp_table s) - {v}" using s2(4) s1 by auto
  have q12: "bp_txns s2 = bp_txns s" "dm_header (bp_disk s2) = dm_header (bp_disk s)"
    "wal_file (bp_wal s2) = wal_file (bp_wal s)" "bp_capacity s2 = bp_capacity s"
    using s2(3) s1 by (simp_all add: quiet_def)
  have "cache_inv ?s3" using ps cap dm s2(5) s1 q12(4) c(1) by (auto simp: cache_inv_def)
  moreover have "dirty_sub ?s3 s"
  proof -
    have "dirty_sub ?s3 s2" by (rule dirty_subI) (auto split: if_splits)
    moreover have "dirty_sub s2 s1" using s2(3) by (simp add: quiet_def)
    moreover have "dirty_sub s1 s" by (rule dirty_sub_table) (simp add: s1)
    ultimately show ?thesis using dirty_sub_trans by blast
  qed
  then have "quiet D pins s ?s3"
    using dr(2) s2(3) q12 s1 v(2) by (auto simp: quiet_def)
  moreover have "card (dom (bp_table ?s3)) = length ps"
    using distinct_card [OF lru_rep_distinct [OF ps(1)]] by (simp only: dm ps(2))
  then have "card (dom (bp_table ?s3)) < bp_capacity ?s3" using ps(3) q12(4) by simp
  ultimately show "outcome (seq (flush_page v) (\<lambda>_. modify (\<lambda>s. s\<lparr>bp_table := (bp_table s)(v := None)\<rparr>)) s1)
    (\<lambda>_ s'. pool_inv D F s' \<and> quiet D pins s s' \<and> card (dom (bp_table s')) < bp_capacity s' \<and>
       dom (bp_table s') \<subseteq> dom (bp_table s))
    (\<lambda>e s'. e = LruEviction \<and> dom (bp_table s) \<subseteq> pins \<and> pool_inv D F s' \<and> quiet D pins s s')"
    using dr(1) dm by (simp add: outcome_seq s2(1) pool_inv_def)
qed

section \<open>Fetching\<close>

lemma make_room_full:
  assumes inv: "pool_inv D F s" and F: "F \<subseteq> pins"
  shows "outcome (make_room pins s)
    (\<lambda>_ s'. pool_inv D F s' \<and> quiet D pins s s' \<and> card (dom (bp_table s')) < bp_capacity s' \<and>
       dom (bp_table s') \<subseteq> dom (bp_table s))
    (\<lambda>e s'. e = LruEviction \<and> dom (bp_table s) \<subseteq> pins \<and> bp_capacity s \<le> card (dom (bp_table s)) \<and> pool_inv D F s' \<and> quiet D pins s s')"
  using evict_page_spec [OF inv F] inv by (auto simp: make_room_def elim!: outcome_weaken)

lemma make_room_spec:
  assumes inv: "pool_inv D F s" and F: "F \<subseteq> pins"
  shows "outcome (make_room pins s)
    (\<lambda>_ s'. pool_inv D F s' \<and> quiet D pins s s' \<and> card (dom (bp_table s')) < bp_capacity s' \<and>
       dom (bp_table s') \<subseteq> dom (bp_table s))
    (\<lambda>e s'. e = LruEviction \<and> dom (bp_table s) \<subseteq> pins \<and> pool_inv D F s' \<and> quiet D pins s s')"
  by (rule outcome_weaken [OF make_room_full [OF assms]]) auto

text \<open>The replacer learns of an access to a page that has just been put into the table, or
  that was there.\<close>

lemma touch_spec:
  assumes ps: "lru_rep (bp_replacer s) ps" "lru_capacity (bp_replacer s) = bp_capacity s"
    and room: "p \<in> set ps \<or> length ps < bp_capacity s"
    and tab: "dom (bp_table s) = insert p (set ps)" and len: "length ps \<le> bp_capacity s"
    and pos: "0 < bp_capacity s"
  shows "\<exists>l. touch p s = ret () (s\<lparr>bp_replacer := l\<rparr>) \<and> cache_inv (s\<lparr>bp_replacer := l\<rparr>)"
proof -
  obtain l where l: "record_access p (bp_replacer s) = Ok l" "lru_rep l (rl_access p ps)"
    "lru_capacity l = lru_capacity (bp_replacer s)"
    using lru.rep_access [OF ps(1), of p] room ps(2) by auto
  have d: "distinct ps" by (rule lru_rep_distinct [OF ps(1)])
  have st: "set (rl_access p ps) = insert p (set ps)" using d by (auto simp: rl_access_def)
  have "length (rl_access p ps) \<le> bp_capacity s"
    using room len length_remove1_less [of p ps]
    by (cases "p \<in> set ps") (auto simp: rl_access_def remove1_idem)
  then have "cache_inv (s\<lparr>bp_replacer := l\<rparr>)"
    unfolding cache_inv_def using l ps(2) st tab pos by (intro conjI exI [of _ "rl_access p ps"]) simp_all
  with l(1) show ?thesis by (intro exI [of _ l]) (simp add: touch_def)
qed

lemma cache_inv_ps:
  assumes "cache_inv s"
  obtains ps where "lru_rep (bp_replacer s) ps" "set ps = dom (bp_table s)" "length ps \<le> bp_capacity s"
    "lru_capacity (bp_replacer s) = bp_capacity s" "0 < bp_capacity s" "card (dom (bp_table s)) = length ps"
proof -
  obtain ps where ps: "lru_rep (bp_replacer s) ps" "set ps = dom (bp_table s)" "length ps \<le> bp_capacity s"
    using assms by (auto simp: cache_inv_def)
  moreover have "card (dom (bp_table s)) = length ps"
    using distinct_card [OF lru_rep_distinct [OF ps(1)]] ps(2) by simp
  ultimately show thesis using that assms by (simp add: cache_inv_def)
qed

lemma touch_cached:
  assumes inv: "pool_inv D F s" and p: "p \<in> dom (bp_table s)"
  shows "outcome (touch p s) (\<lambda>_ s'. pool_inv D F s' \<and> quiet D pins s s' \<and> bp_table s' = bp_table s) (\<lambda>_ _. False)"
proof -
  have c: "cache_inv s" "pages_inv D F s" using inv by (simp_all add: pool_inv_def)
  from c(1) obtain ps where ps: "lru_rep (bp_replacer s) ps" "set ps = dom (bp_table s)" "length ps \<le> bp_capacity s"
    "lru_capacity (bp_replacer s) = bp_capacity s" "0 < bp_capacity s" by (rule cache_inv_ps)
  have m: "p \<in> set ps" "dom (bp_table s) = insert p (set ps)" using ps(2) p by (simp_all add: insert_absorb)
  obtain l where "touch p s = ret () (s\<lparr>bp_replacer := l\<rparr>)" "cache_inv (s\<lparr>bp_replacer := l\<rparr>)"
    using touch_spec [OF ps(1,4) disjI1 [OF m(1)] m(2) ps(3,5)] by blast
  with c(2) show ?thesis by (simp add: pool_inv_def quiet_def dirty_sub_table)
qed

text \<open>Entering a node into the table, with room for it.\<close>

lemma enter_page:
  assumes c: "cache_inv s" "pages_inv D F s" and new: "bp_table s p = None" and n: "page_inv F' (s\<lparr>bp_table := (bp_table s)(p \<mapsto> n)\<rparr>) p"
    and D': "D' = insert p D" "aligned p" "F' = F \<or> F' = insert p F"
    and room: "card (dom (bp_table s)) < bp_capacity s"
  shows "\<exists>l. seq (write_frame p n) (\<lambda>_. touch p) s = ret () (s\<lparr>bp_table := (bp_table s)(p \<mapsto> n), bp_replacer := l\<rparr>) \<and>
    pool_inv D' F' (s\<lparr>bp_table := (bp_table s)(p \<mapsto> n), bp_replacer := l\<rparr>)"
proof -
  let ?s = "s\<lparr>bp_table := (bp_table s)(p \<mapsto> n)\<rparr>"
  from c(1) obtain ps where ps: "lru_rep (bp_replacer s) ps" "set ps = dom (bp_table s)" "length ps \<le> bp_capacity s"
    "lru_capacity (bp_replacer s) = bp_capacity s" "0 < bp_capacity s" "card (dom (bp_table s)) = length ps"
    by (rule cache_inv_ps)
  obtain l where l: "touch p ?s = ret () (?s\<lparr>bp_replacer := l\<rparr>)" "cache_inv (?s\<lparr>bp_replacer := l\<rparr>)"
    using touch_spec [of ?s ps p] ps room by auto
  have "page_inv F' ?s q" if "q \<in> D" "q \<noteq> p" for q
  proof -
    have "page_inv F s q" using c(2) that by (simp add: pages_inv_def)
    then have "page_inv F' s q" using D'(3) by (auto simp: page_inv_def split: option.splits)
    then show ?thesis using page_inv_cong [of ?s q s F'] that(2) by simp
  qed
  then have "pages_inv D' F' ?s" using c(2) n D' by (auto simp: pages_inv_def)
  with l show ?thesis by (intro exI [of _ l]) (simp add: pool_inv_def write_frame_def)
qed

lemma fetch_page_spec:
  assumes inv: "pool_inv D F s" and F: "F \<subseteq> pins" and p: "p \<in> D"
  shows "outcome (fetch_page pins p s)
    (\<lambda>n s'. pool_inv D F s' \<and> quiet D pins s s' \<and> bp_table s' p = Some n)
    (\<lambda>e s'. e = LruEviction \<and> dom (bp_table s) \<subseteq> pins \<and> bp_capacity s \<le> card (dom (bp_table s)) \<and> pool_inv D F s' \<and> quiet D pins s s')"
proof (cases "bp_table s p")
  case (Some n)
  then show ?thesis unfolding fetch_page_def
    by (simp add: outcome_seq) (rule outcome_weaken [OF touch_cached [OF inv, of p pins]], auto)
next
  case None
  have fc: "fetch_page pins p s = seq (make_room pins) (\<lambda>_.
          seq (gets (\<lambda>s. read_page p (bp_disk s))) (\<lambda>r.
          seq (lift (res_bind r decode)) (\<lambda>n.
          seq (write_frame p n) (\<lambda>_.
          seq (touch p) (\<lambda>_. ret n))))) s"
    using None by (simp add: fetch_page_def)
  show ?thesis unfolding fc
  proof (rule outcome_seqI, rule make_room_full [OF inv F])
    fix u s1
    assume r: "pool_inv D F s1 \<and> quiet D pins s s1 \<and> card (dom (bp_table s1)) < bp_capacity s1 \<and>
      dom (bp_table s1) \<subseteq> dom (bp_table s)"
    then have n1: "bp_table s1 p = None" using None by auto
    have c: "cache_inv s1" "pages_inv D F s1" using r by (simp_all add: pool_inv_def)
    obtain n where n: "on_disk (bp_disk s1) p n" "node_wf n" "reloaded n = n"
      using pages_invD(1) [OF c(2) p n1] by blast
    have ent: "page_inv F (s1\<lparr>bp_table := (bp_table s1)(p \<mapsto> n)\<rparr>) p"
      using n by (simp add: page_inv_def)
    obtain l where l: "seq (write_frame p n) (\<lambda>_. touch p) s1 =
        ret () (s1\<lparr>bp_table := (bp_table s1)(p \<mapsto> n), bp_replacer := l\<rparr>)"
      "pool_inv D F (s1\<lparr>bp_table := (bp_table s1)(p \<mapsto> n), bp_replacer := l\<rparr>)"
      using enter_page [where D' = D, OF c n1 ent] p r pages_invD(3) [OF c(2) p] by (auto simp: insert_absorb)
    let ?s2 = "s1\<lparr>bp_table := (bp_table s1)(p \<mapsto> n), bp_replacer := l\<rparr>"
    have ct: "page_content ?s2 q = page_content s1 q" for q
    proof (cases "q = p")
      case True
      then show ?thesis using n1 n by (simp add: content_cached content_uncached)
    next
      case False
      then show ?thesis by (intro page_content_cong) simp_all
    qed
    have "\<not> node_is_dirty (reloaded n)"
      by (cases n) (simp_all add: reloaded_leaf_def reloaded_internal_def)
    then have "dirty_sub ?s2 s1" using n(3) by (intro dirty_subI) (auto split: if_splits)
    then have "quiet D pins s1 ?s2" using ct n1 by (auto simp: quiet_def)
    then have q: "quiet D pins s ?s2" using r quiet_trans by blast
    have st: "seq (write_frame p n) (\<lambda>_. seq (touch p) (\<lambda>_. ret n)) s1 = ret n ?s2"
      using l(1) by (simp add: seq_assoc [symmetric] seq_def) (simp add: ret_def)
    have dk: "res_bind (read_page p (bp_disk s1)) decode = Ok n" using n(1) by (simp add: on_disk_def)
    show "outcome (seq (gets (\<lambda>s. read_page p (bp_disk s))) (\<lambda>r.
          seq (lift (res_bind r decode)) (\<lambda>n.
          seq (write_frame p n) (\<lambda>_.
          seq (touch p) (\<lambda>_. ret n)))) s1)
      (\<lambda>n s'. pool_inv D F s' \<and> quiet D pins s s' \<and> bp_table s' p = Some n)
      (\<lambda>e s'. e = LruEviction \<and> dom (bp_table s) \<subseteq> pins \<and> bp_capacity s \<le> card (dom (bp_table s)) \<and> pool_inv D F s' \<and> quiet D pins s s')"
      using l(2) q by (simp add: dk st)
  qed
qed

text \<open>The only error of a fetch is that all frames are pinned, so there is none without pins.\<close>

lemma fetch_page_pins:
  assumes inv: "pool_inv D F s" and F: "F \<subseteq> pins" and p: "p \<in> D"
  shows "outcome (fetch_page pins p s)
    (\<lambda>n s'. pool_inv D F s' \<and> quiet D pins s s' \<and> bp_table s' p = Some n)
    (\<lambda>e s'. e = LruEviction \<and> pins \<noteq> {} \<and> pool_inv D F s' \<and> quiet D pins s s')"
proof -
  have "0 < bp_capacity s" using inv by (simp add: pool_inv_def cache_inv_def)
  then show ?thesis by (intro outcome_weaken [OF fetch_page_spec [OF assms]]) auto
qed

section \<open>Allocating\<close>

lemma new_empty_wf: "node_wf (new_empty p is_leaf)"
  by (simp add: new_empty_def new_empty_leaf_def new_empty_internal_def leaf_wf_def internal_wf_def
    leaf_cells_def in_list_def cells_size_def page_sizes)

lemma new_page_spec:
  assumes inv: "pool_inv D F s" and F: "F \<subseteq> pins"
    and new: "next_free_offset (dm_header (bp_disk s)) = p" "aligned p" "p \<notin> D"
  shows "outcome (new_page pins is_leaf s)
    (\<lambda>q s'. q = p \<and> pool_inv (insert p D) (insert p F) s' \<and> bp_table s' p = Some (new_empty p is_leaf) \<and>
       next_free_offset (dm_header (bp_disk s')) = p + of_nat PAGE_SIZE \<and>
       (\<forall>q \<in> D. page_content s' q = page_content s q) \<and> bp_txns s' = bp_txns s \<and>
       wal_file (bp_wal s') = wal_file (bp_wal s) \<and> bp_capacity s' = bp_capacity s \<and>
       (\<forall>q \<in> pins. \<forall>n. bp_table s q = Some n \<longrightarrow> bp_table s' q = Some n) \<and> dirty_sub s' s)
    (\<lambda>e s'. e = LruEviction \<and> dom (bp_table s) \<subseteq> pins \<and> pool_inv D F s' \<and> quiet D pins s s')"
  unfolding new_page_def
proof (rule outcome_seqI, rule make_room_spec [OF inv F])
  fix u s1
  assume r: "pool_inv D F s1 \<and> quiet D pins s s1 \<and> card (dom (bp_table s1)) < bp_capacity s1 \<and>
    dom (bp_table s1) \<subseteq> dom (bp_table s)"
  define d where "d = snd (compute_new_page_id (bp_disk s1))"
  have cn: "compute_new_page_id (bp_disk s1) = (p, d)" "dm_file d = dm_file (bp_disk s1)"
    "next_free_offset (dm_header d) = p + of_nat PAGE_SIZE"
    using r new(1) by (simp_all add: d_def compute_new_page_id_def quiet_def)
  let ?s2 = "s1\<lparr>bp_disk := d\<rparr>" let ?n = "new_empty p is_leaf"
  have rd: "read_page q d = read_page q (bp_disk s1)" for q using cn(2) by (simp add: read_page_def)
  have pi: "page_inv F ?s2 q = page_inv F s1 q" and pc: "page_content ?s2 q = page_content s1 q" for q
    by (rule page_inv_cong, simp_all add: rd) (rule page_content_cong, simp_all add: rd)
  have c: "cache_inv ?s2" "pages_inv D F ?s2"
    using r pi by (simp_all add: pool_inv_def pages_inv_def cache_inv_def)
  have n1: "bp_table ?s2 p = None" using c(2) new(3) by (auto simp: pages_inv_def)
  have ent: "page_inv (insert p F) (?s2\<lparr>bp_table := (bp_table ?s2)(p \<mapsto> ?n)\<rparr>) p"
    by (simp add: page_inv_def new_empty_wf)
  obtain l where l: "seq (write_frame p ?n) (\<lambda>_. touch p) ?s2 =
        ret () (?s2\<lparr>bp_table := (bp_table ?s2)(p \<mapsto> ?n), bp_replacer := l\<rparr>)"
      "pool_inv (insert p D) (insert p F) (?s2\<lparr>bp_table := (bp_table ?s2)(p \<mapsto> ?n), bp_replacer := l\<rparr>)"
    using enter_page [OF c n1 ent refl new(2)] r by auto
  let ?s3 = "?s2\<lparr>bp_table := (bp_table ?s2)(p \<mapsto> ?n), bp_replacer := l\<rparr>"
  have st: "seq (write_frame p ?n) (\<lambda>_. seq (touch p) (\<lambda>_. ret p)) ?s2 = ret p ?s3"
    using l(1) by (simp add: seq_assoc [symmetric] seq_def) (simp add: ret_def)
  have ct: "page_content ?s3 q = page_content s q" if "q \<in> D" for q
  proof -
    have "q \<noteq> p" using that new(3) by blast
    then have "page_content ?s3 q = page_content ?s2 q" by (intro page_content_cong) simp_all
    with r that pc show ?thesis by (simp add: quiet_def)
  qed
  have pins: "bp_table ?s3 q = Some m" if "q \<in> pins" "bp_table s q = Some m" for q m
    using that r n1 by (auto simp: quiet_def)
  have "\<not> node_is_dirty ?n" by (simp add: new_empty_def new_empty_leaf_def new_empty_internal_def)
  then have "dirty_sub ?s3 s1" by (intro dirty_subI) (auto split: if_splits)
  then have ds: "dirty_sub ?s3 s" using r dirty_sub_trans by (auto simp: quiet_def)
  show "outcome (seq (gets (\<lambda>s. compute_new_page_id (bp_disk s))) (\<lambda>(p, d).
     seq (modify (\<lambda>s. s\<lparr>bp_disk := d\<rparr>)) (\<lambda>_.
     seq (write_frame p (new_empty p is_leaf)) (\<lambda>_.
     seq (touch p) (\<lambda>_. ret p)))) s1)
    (\<lambda>q s'. q = p \<and> pool_inv (insert p D) (insert p F) s' \<and> bp_table s' p = Some (new_empty p is_leaf) \<and>
       next_free_offset (dm_header (bp_disk s')) = p + of_nat PAGE_SIZE \<and>
       (\<forall>q \<in> D. page_content s' q = page_content s q) \<and> bp_txns s' = bp_txns s \<and>
       wal_file (bp_wal s') = wal_file (bp_wal s) \<and> bp_capacity s' = bp_capacity s \<and>
       (\<forall>q \<in> pins. \<forall>n. bp_table s q = Some n \<longrightarrow> bp_table s' q = Some n) \<and> dirty_sub s' s)
    (\<lambda>e s'. e = LruEviction \<and> dom (bp_table s) \<subseteq> pins \<and> pool_inv D F s' \<and> quiet D pins s s')"
    using l(2) ct pins r cn(3) ds by (simp add: cn(1) st) (simp add: quiet_def)
qed

section \<open>Undo records\<close>

text \<open>The log holds, at the offset cached for a page, the undo record of the transaction with
  the image of a well-formed node.\<close>

definition undo_at :: "wal \<Rightarrow> u64 \<Rightarrow> page_id \<Rightarrow> u64 \<Rightarrow> btree_node \<Rightarrow> bool" where
  "undo_at w t p off n \<longleftrightarrow> (\<exists>img pre post. wal_file w = pre @ frame_bytes (Undo p t img) @ post \<and>
     off = of_nat (length pre) \<and> length pre < 2 ^ 64 \<and> length img = PAGE_SIZE \<and>
     decode img = Ok n \<and> node_wf n \<and> reloaded n = n)"

definition txns_inv :: "pool \<Rightarrow> bool" where
  "txns_inv s \<longleftrightarrow> (\<forall>t st. bp_txns s t = Some st \<longrightarrow> finite (dom (undo_logged st)) \<and>
     (\<forall>p off. undo_logged st p = Some off \<longrightarrow> (\<exists>n. undo_at (bp_wal s) t p off n)))"

lemma undo_at_append:
  "undo_at w t p off n \<Longrightarrow> wal_file w' = wal_file w @ extra \<Longrightarrow> undo_at w' t p off n"
  by (fastforce simp: undo_at_def)

lemma txns_inv_quiet: "txns_inv s \<Longrightarrow> quiet D pins s s' \<Longrightarrow> txns_inv s'"
  by (simp add: txns_inv_def quiet_def undo_at_def)

lemma undo_at_read:
  "undo_at w t p off n \<Longrightarrow> \<exists>img. read_record_at off w = Ok (Undo p t img) \<and> length img = PAGE_SIZE \<and>
     decode img = Ok n \<and> node_wf n \<and> reloaded n = n"
  unfolding undo_at_def using read_record_at_frame [of "Undo p t img" w for img] by fastforce

text \<open>Changing a cached page without changing what it stores.\<close>

lemma retag_page:
  assumes inv: "pool_inv D F s" and p: "bp_table s p = Some n"
    and n': "node_wf n'" "reloaded n' = reloaded n" "node_is_dirty n' = node_is_dirty n"
  defines "s' \<equiv> s\<lparr>bp_table := (bp_table s)(p \<mapsto> n')\<rparr>"
  shows "pool_inv D F s'" "page_content s' q = page_content s q"
proof -
  have c: "cache_inv s" "pages_inv D F s" using inv by (simp_all add: pool_inv_def)
  have D: "p \<in> D" using c(2) p by (auto simp: pages_inv_def)
  have dm: "dom (bp_table s') = dom (bp_table s)" using p by (auto simp: s'_def)
  have "cache_inv s'" using c(1) by (rule cache_inv_cong) (use dm in \<open>simp_all add: s'_def\<close>)
  moreover have "page_inv F s' q" if "q \<in> D" for q
  proof (cases "q = p")
    case True
    then show ?thesis using pages_invD(2) [OF c(2) D p] n' by (simp add: page_inv_def s'_def)
  next
    case False
    have "page_inv F s q" using c(2) that by (simp add: pages_inv_def)
    with False page_inv_cong [of s' q s F] show ?thesis by (simp add: s'_def)
  qed
  ultimately show "pool_inv D F s'" using c(2) dm by (auto simp: pool_inv_def pages_inv_def)
  show "page_content s' q = page_content s q"
  proof (cases "q = p")
    case True
    then show ?thesis using p n'(2) by (simp add: page_content_def s'_def)
  next
    case False
    then show ?thesis by (intro page_content_cong) (simp_all add: s'_def)
  qed
qed

lemma pool_inv_wal_txns [simp]:
  "pool_inv D F (s\<lparr>bp_wal := w\<rparr>) = pool_inv D F s"
  "pool_inv D F (s\<lparr>bp_txns := ts\<rparr>) = pool_inv D F s"
proof -
  have "pages_inv D F (s\<lparr>bp_wal := w\<rparr>) = pages_inv D F s" "pages_inv D F (s\<lparr>bp_txns := ts\<rparr>) = pages_inv D F s"
    by (rule pages_inv_cong; simp)+
  then show "pool_inv D F (s\<lparr>bp_wal := w\<rparr>) = pool_inv D F s" "pool_inv D F (s\<lparr>bp_txns := ts\<rparr>) = pool_inv D F s"
    by (simp_all add: pool_inv_def cache_inv_def)
qed

lemma page_content_wal_txns [simp]:
  "page_content (s\<lparr>bp_wal := w\<rparr>) p = page_content s p"
  "page_content (s\<lparr>bp_txns := ts\<rparr>) p = page_content s p"
  by (rule page_content_cong; simp)+

lemma seq_log_record:
  "seq (log_record r) f s = f (fst (write_record r (bp_wal s))) (s\<lparr>bp_wal := snd (write_record r (bp_wal s))\<rparr>)"
  by (simp add: seq_def log_record_def ret_def split_beta Let_def)

definition mutation_begun :: "page_id set \<Rightarrow> page_id set \<Rightarrow> page_id set \<Rightarrow> page_id \<Rightarrow> u64 \<Rightarrow> pool \<Rightarrow> pool \<Rightarrow> bool" where
  "mutation_begun D F pins p t s s' \<longleftrightarrow> pool_inv D F s' \<and> (\<forall>q \<in> D. page_content s' q = page_content s q) \<and> txns_inv s' \<and>
     p \<in> dom (bp_table s') \<and> t \<in> dom (bp_txns s') \<and> (\<forall>u. u \<noteq> t \<longrightarrow> bp_txns s' u = bp_txns s u) \<and>
     dirty_pages (txn_entry t s') = insert p (dirty_pages (txn_entry t s)) \<and>
     dm_header (bp_disk s') = dm_header (bp_disk s) \<and> bp_capacity s' = bp_capacity s \<and>
     (\<forall>q \<in> pins - {p}. \<forall>n. bp_table s q = Some n \<longrightarrow> bp_table s' q = Some n) \<and> dirty_sub s' s \<and>
     (case undo_logged (txn_entry t s) p of
        Some off \<Rightarrow> wal_file (bp_wal s') = wal_file (bp_wal s) \<and>
          undo_logged (txn_entry t s') = undo_logged (txn_entry t s)
      | None \<Rightarrow> \<exists>off n img. undo_logged (txn_entry t s') = (undo_logged (txn_entry t s))(p \<mapsto> off) \<and>
          undo_at (bp_wal s') t p off n \<and> page_content s p = Some n \<and>
          length img = PAGE_SIZE \<and> decode img = Ok n \<and> wal_file (bp_wal s') = wal_file (bp_wal s) @ frame_bytes (Undo p t img))"

text \<open>
  \<open>begin_page_mutation\<close> logs the content of the page once per transaction: the first call
  appends the undo record and remembers its offset, later calls leave the log alone.
\<close>

lemma begin_page_mutation_spec:
  assumes inv: "pool_inv D F s" and F: "F \<subseteq> pins" and p: "p \<in> D" and tx: "txns_inv s"
    and small: "length (wal_file (bp_wal s)) < 2 ^ 64"
  shows "outcome (begin_page_mutation pins p t s)
    (\<lambda>_. mutation_begun D F pins p t s)
    (\<lambda>e s'. e = LruEviction \<and> dom (bp_table s) \<subseteq> pins \<and> pool_inv D F s' \<and> quiet D pins s s')"
  unfolding begin_page_mutation_def
proof (rule outcome_seqI)
  show "outcome (fetch_page pins p s)
    (\<lambda>n s'. pool_inv D F s' \<and> quiet D pins s s' \<and> bp_table s' p = Some n)
    (\<lambda>e s'. e = LruEviction \<and> dom (bp_table s) \<subseteq> pins \<and> pool_inv D F s' \<and> quiet D pins s s')"
    using fetch_page_spec [OF inv F p] by (rule outcome_weaken) auto
  fix n s1
  assume r: "pool_inv D F s1 \<and> quiet D pins s s1 \<and> bp_table s1 p = Some n"
  then have tx1: "txns_inv s1" using txns_inv_quiet tx by blast
  have te: "txn_entry t s1 = txn_entry t s" using r by (simp add: txn_entry_def quiet_def)
  have wf: "node_wf n" using r p pages_invD(2) by (auto simp: pool_inv_def)
  have ct: "page_content s p = Some (reloaded n)" using r p content_cached [of s1 p n] by (auto simp: quiet_def)
  let ?st = "txn_entry t s"
  show "outcome (seq (gets (txn_entry t)) (\<lambda>st.
     seq (put_txn t st) (\<lambda>_.
     seq (case undo_logged st p of
            Some _ \<Rightarrow> ret st
          | None \<Rightarrow>
              seq (lift (encode n zero_page)) (\<lambda>page.
              seq (log_record (Undo p t page)) (\<lambda>off.
              seq (write_frame p (set_wal_offset off n)) (\<lambda>_.
              ret (st\<lparr>undo_logged := (undo_logged st)(p \<mapsto> off)\<rparr>))))) (\<lambda>st.
     put_txn t (st\<lparr>dirty_pages := insert p (dirty_pages st)\<rparr>)))) s1)
    (\<lambda>_. mutation_begun D F pins p t s)
    (\<lambda>e s'. e = LruEviction \<and> dom (bp_table s) \<subseteq> pins \<and> pool_inv D F s' \<and> quiet D pins s s')"
  proof (cases "undo_logged ?st p")
    case (Some off)
    have "txns_inv (s1\<lparr>bp_txns := (bp_txns s1)(t \<mapsto> ?st\<lparr>dirty_pages := insert p (dirty_pages ?st)\<rparr>)\<rparr>)"
      using tx1 te by (auto simp: txns_inv_def txn_entry_def split: option.splits)
    moreover have "dirty_sub (s1\<lparr>bp_txns := ts\<rparr>) s" for ts
      using r dirty_sub_trans [of "s1\<lparr>bp_txns := ts\<rparr>" s1 s] by (simp add: quiet_def dirty_sub_table)
    ultimately show ?thesis using Some r te
      by (simp add: put_txn_def quiet_def mutation_begun_def) (auto simp: txn_entry_def)
  next
    case None
    obtain img where img: "encode n zero_page = Ok img" "length img = PAGE_SIZE" "decode img = Ok (reloaded n)"
      using encode_roundtrip [OF wf length_zero_page] by blast
    define off where "off = (of_nat (length (wal_file (bp_wal s))) :: u64)"
    have w1: "wal_file (bp_wal s1) = wal_file (bp_wal s)" using r by (simp add: quiet_def)
    obtain w where w: "write_record (Undo p t img) (bp_wal s1) = (off, w)"
      "wal_file w = wal_file (bp_wal s) @ frame_bytes (Undo p t img)"
      using wal_file_write_record [of "Undo p t img" "bp_wal s1"] w1
      by (simp add: write_record_def Let_def off_def)
    let ?n' = "set_wal_offset off n"
    let ?s2 = "s1\<lparr>bp_table := (bp_table s1)(p \<mapsto> ?n')\<rparr>"
    have rt: "pool_inv D F ?s2" "\<And>q. page_content ?s2 q = page_content s1 q"
      using retag_page [of D F s1 p n ?n'] r wf by simp_all
    let ?st' = "?st\<lparr>undo_logged := (undo_logged ?st)(p \<mapsto> off), dirty_pages := insert p (dirty_pages ?st)\<rparr>"
    let ?s3 = "s1\<lparr>bp_txns := (bp_txns s1)(t \<mapsto> ?st'), bp_wal := w, bp_table := (bp_table s1)(p \<mapsto> ?n')\<rparr>"
    have e3: "?s3 = (?s2\<lparr>bp_wal := w\<rparr>)\<lparr>bp_txns := (bp_txns s1)(t \<mapsto> ?st')\<rparr>" by simp
    have inv3: "pool_inv D F ?s3" and ct3: "page_content ?s3 q = page_content s1 q" for q
      unfolding e3 using rt by simp_all
    have ua: "undo_at w t p off (reloaded n)"
      unfolding undo_at_def using w(2) img small reloaded_wf [OF wf]
      by (intro exI [of _ img] exI [of _ "wal_file (bp_wal s)"] exI [of _ "[]"]) (simp add: off_def)
    have keep: "undo_at (bp_wal s1) u q o' m \<Longrightarrow> undo_at w u q o' m" for u q o' m
      using undo_at_append w(2) w1 by metis
    have te1: "finite (dom (undo_logged ?st)) \<and> (\<forall>q o'. undo_logged ?st q = Some o' \<longrightarrow> (\<exists>m. undo_at w t q o' m))"
      using tx1 te keep by (cases "bp_txns s1 t") (auto simp: txns_inv_def txn_entry_def, blast)
    have "txns_inv ?s3"
      unfolding txns_inv_def
    proof (intro allI impI)
      fix u st assume u: "bp_txns ?s3 u = Some st"
      show "finite (dom (undo_logged st)) \<and> (\<forall>p off. undo_logged st p = Some off \<longrightarrow> (\<exists>n. undo_at (bp_wal ?s3) u p off n))"
      proof (cases "u = t")
        case True
        with u have "st = ?st'" by simp
        with te1 ua True show ?thesis by auto
      next
        case False
        with u have "bp_txns s1 u = Some st" by simp
        with tx1 keep show ?thesis by (auto simp: txns_inv_def) blast
      qed
    qed
    moreover have "seq (gets (txn_entry t)) (\<lambda>st.
     seq (put_txn t st) (\<lambda>_.
     seq (case undo_logged st p of
            Some _ \<Rightarrow> ret st
          | None \<Rightarrow>
              seq (lift (encode n zero_page)) (\<lambda>page.
              seq (log_record (Undo p t page)) (\<lambda>off.
              seq (write_frame p (set_wal_offset off n)) (\<lambda>_.
              ret (st\<lparr>undo_logged := (undo_logged st)(p \<mapsto> off)\<rparr>))))) (\<lambda>st.
     put_txn t (st\<lparr>dirty_pages := insert p (dirty_pages st)\<rparr>)))) s1 = ret () ?s3"
      using te None
      by (simp add: put_txn_def img(1) seq_log_record w(1) write_frame_def seq_assoc)
        (simp add: ret_def modify_def)
    moreover have "dirty_sub ?s3 s"
    proof -
      have "dirty_sub ?s3 s1" by (rule dirty_subI) (use r in \<open>auto split: if_splits\<close>)
      then show ?thesis using r dirty_sub_trans by (auto simp: quiet_def)
    qed
    then have "mutation_begun D F pins p t s ?s3" if "txns_inv ?s3"
      using that img(2,3) inv3 ct3 r None ct ua w(2)
      by (simp add: mutation_begun_def quiet_def) (auto simp: txn_entry_def)
    ultimately show ?thesis by simp
  qed
qed

section \<open>Writing a page\<close>

text \<open>A caller overwrites the frame of a cached page and marks it dirty.\<close>

lemma store_page:
  assumes inv: "pool_inv D F s" and p: "p \<in> dom (bp_table s)" and n: "node_wf n" "node_is_dirty n"
  defines "s' \<equiv> s\<lparr>bp_table := (bp_table s)(p \<mapsto> n)\<rparr>"
  shows "pool_inv D (F - {p}) s'" "page_content s' p = Some (reloaded n)"
    "q \<noteq> p \<Longrightarrow> page_content s' q = page_content s q"
proof -
  have c: "cache_inv s" "pages_inv D F s" using inv by (simp_all add: pool_inv_def)
  have dm: "dom (bp_table s') = dom (bp_table s)" using p by (auto simp: s'_def)
  have "cache_inv s'" using c(1) by (rule cache_inv_cong) (use dm in \<open>simp_all add: s'_def\<close>)
  moreover have "page_inv (F - {p}) s' q" if "q \<in> D" for q
  proof (cases "q = p")
    case True
    then show ?thesis using n by (simp add: page_inv_def s'_def)
  next
    case False
    have "page_inv F s q" using c(2) that by (simp add: pages_inv_def)
    then have "page_inv (F - {p}) s q" using False by (auto simp: page_inv_def split: option.splits)
    with False page_inv_cong [of s' q s "F - {p}"] show ?thesis by (simp add: s'_def)
  qed
  ultimately show "pool_inv D (F - {p}) s'" using c(2) dm by (auto simp: pool_inv_def pages_inv_def)
  show "page_content s' p = Some (reloaded n)" by (simp add: page_content_def s'_def)
  show "q \<noteq> p \<Longrightarrow> page_content s' q = page_content s q"
    by (intro page_content_cong) (simp_all add: s'_def)
qed

section \<open>Abort\<close>

text \<open>Restoring the undo image of one page: the file gets the image, the cache forgets the page.\<close>

lemma undo_page_spec:
  assumes inv: "pool_inv D F s" and p: "p \<in> D" and u: "undo_at (bp_wal s) t p off n"
  shows "\<exists>s'. undo_page p off s = ret () s' \<and> pool_inv D (F - {p}) s' \<and> page_content s' p = Some n \<and>
    (\<forall>q \<in> D. q \<noteq> p \<longrightarrow> page_content s' q = page_content s q) \<and> bp_wal s' = bp_wal s \<and> bp_txns s' = bp_txns s \<and>
    dm_header (bp_disk s') = dm_header (bp_disk s)"
proof -
  obtain img where img: "read_record_at off (bp_wal s) = Ok (Undo p t img)" "length img = PAGE_SIZE"
    "decode img = Ok n" "node_wf n" "reloaded n = n"
    using undo_at_read [OF u] by blast
  have c: "cache_inv s" "pages_inv D F s" using inv by (simp_all add: pool_inv_def)
  from c(1) obtain ps where ps: "lru_rep (bp_replacer s) ps" "set ps = dom (bp_table s)" "length ps \<le> bp_capacity s"
    "lru_capacity (bp_replacer s) = bp_capacity s" "0 < bp_capacity s" by (rule cache_inv_ps)
  obtain l where l: "lru_remove p (bp_replacer s) = Ok l" "lru_rep l (remove1 p ps)"
    "lru_capacity l = lru_capacity (bp_replacer s)"
    using lru.rep_discard [OF ps(1)] by blast
  define s' where "s' = s\<lparr>bp_disk := write_page p img (bp_disk s), bp_table := (bp_table s)(p := None), bp_replacer := l\<rparr>"
  have "undo_page p off s = ret () s'"
    by (simp add: undo_page_def img(1) l(1) s'_def) (simp add: modify_def ret_def)
  moreover have dk: "on_disk (bp_disk s') p n" using img by (simp add: on_disk_def s'_def read_write_page)
  have al: "aligned q" if "q \<in> D" for q using pages_invD(3) [OF c(2) that] .
  have keep: "read_page q (bp_disk s') = read_page q (bp_disk s)"
    if "q \<in> D" "q \<noteq> p" "read_page q (bp_disk s) = Ok x" for q x
    using that al p img(2) by (simp add: s'_def read_write_other_page)
  have other: "page_inv (F - {p}) s' q \<and> page_content s' q = page_content s q" if q: "q \<in> D" "q \<noteq> p" for q
  proof -
    have pi: "page_inv F s q" using c(2) q(1) by (simp add: pages_inv_def)
    have od: "on_disk (bp_disk s') q m" if "on_disk (bp_disk s) q m" for m
      using that keep [OF q] by (auto simp: on_disk_def res_bind_eq_Ok)
    have tb: "bp_table s' q = bp_table s q" using q(2) by (simp add: s'_def)
    show ?thesis
    proof (cases "bp_table s q")
      case None
      then obtain m where m: "on_disk (bp_disk s) q m" "node_wf m" "reloaded m = m"
        using pages_invD(1) [OF c(2) q(1)] by blast
      then have "page_inv (F - {p}) s' q" using od None tb by (auto simp: page_inv_def)
      moreover have "page_content s' q = page_content s q"
        using content_uncached [OF None m(1)] content_uncached [OF _ od [OF m(1)]] None tb by simp
      ultimately show ?thesis by simp
    next
      case (Some m)
      then have "page_inv (F - {p}) s' q" using pi od tb q(2) by (simp add: page_inv_def)
      then show ?thesis using Some tb by (simp add: content_cached)
    qed
  qed
  have tp: "bp_table s' p = None" by (simp add: s'_def)
  have "page_inv (F - {p}) s' p" using tp dk img by (auto simp: page_inv_def)
  then have "pages_inv D (F - {p}) s'" using other al c(2) p by (auto simp: pages_inv_def s'_def)
  moreover have "cache_inv s'"
  proof -
    have "set (remove1 p ps) = dom (bp_table s')" using lru_rep_distinct [OF ps(1)] ps(2) by (auto simp: s'_def)
    moreover have "length (remove1 p ps) \<le> bp_capacity s'"
      using ps(3) by (cases "p \<in> set ps") (auto simp: length_remove1 remove1_idem s'_def)
    ultimately show ?thesis using l ps(4,5) by (auto simp: cache_inv_def s'_def)
  qed
  moreover have "page_content s' p = Some n" using content_uncached [OF tp dk] img(5) by simp
  ultimately show ?thesis using other
    by (intro exI [of _ s']) (simp add: pool_inv_def, simp add: s'_def)
qed

lemma undo_pages_spec:
  assumes "pool_inv D F s" "set ps \<subseteq> D" "distinct ps"
    "\<And>p. p \<in> set ps \<Longrightarrow> undo_at (bp_wal s) t p (off p) (old p)"
  shows "\<exists>s'. for_each (\<lambda>p. undo_page p (off p)) ps s = ret () s' \<and> pool_inv D (F - set ps) s' \<and>
    (\<forall>p \<in> set ps. page_content s' p = Some (old p)) \<and>
    (\<forall>q \<in> D - set ps. page_content s' q = page_content s q) \<and> bp_txns s' = bp_txns s \<and> bp_wal s' = bp_wal s"
  using assms
proof (induction ps arbitrary: s F)
  case Nil
  then show ?case by (intro exI [of _ s]) simp
next
  case (Cons p ps)
  have p: "p \<in> D" "p \<notin> set ps" "set ps \<subseteq> D" "distinct ps" using Cons.prems by auto
  from undo_page_spec [OF Cons.prems(1) p(1), of t "off p" "old p"] Cons.prems(4)
  obtain s1 where s1: "undo_page p (off p) s = ret () s1" "pool_inv D (F - {p}) s1" "page_content s1 p = Some (old p)"
    "\<forall>q \<in> D. q \<noteq> p \<longrightarrow> page_content s1 q = page_content s q" "bp_wal s1 = bp_wal s" "bp_txns s1 = bp_txns s"
    by auto
  from Cons.IH [OF s1(2) p(3,4)] Cons.prems(4) s1(5)
  obtain s' where s': "for_each (\<lambda>p. undo_page p (off p)) ps s1 = ret () s'" "pool_inv D (F - {p} - set ps) s'"
    "\<forall>p \<in> set ps. page_content s' p = Some (old p)"
    "\<forall>q \<in> D - set ps. page_content s' q = page_content s1 q" "bp_txns s' = bp_txns s1" "bp_wal s' = bp_wal s1"
    by auto
  have "F - set (p # ps) = F - {p} - set ps" by auto
  moreover have "for_each (\<lambda>p. undo_page p (off p)) (p # ps) s = ret () s'"
    using s1(1) s'(1) by (simp add: seq_def ret_def)
  ultimately show ?case using s' s1(3,4,5,6) p by (intro exI [of _ s']) auto
qed

lemma abort_transaction_spec:
  assumes inv: "pool_inv D F s" and tx: "txns_inv s" and st: "bp_txns s t = Some st"
    and old: "\<And>p off. undo_logged st p = Some off \<Longrightarrow> p \<in> D \<and> undo_at (bp_wal s) t p off (old p)"
    and order: "set (order (dom (undo_logged st))) = dom (undo_logged st)" "distinct (order (dom (undo_logged st)))"
  shows "outcome (abort_transaction order t s)
    (\<lambda>_ s'. pool_inv D (F - dom (undo_logged st)) s' \<and> bp_txns s' = (bp_txns s)(t := None) \<and>
       (\<forall>p \<in> dom (undo_logged st). page_content s' p = Some (old p)) \<and>
       (\<forall>q \<in> D - dom (undo_logged st). page_content s' q = page_content s q))
    (\<lambda>_ _. False)"
proof -
  let ?s = "s\<lparr>bp_txns := (bp_txns s)(t := None)\<rparr>"
  have i: "pool_inv D F ?s" using inv by simp
  have "set (order (dom (undo_logged st))) \<subseteq> D" using old order(1) by auto
  moreover have "undo_at (bp_wal ?s) t p (the (undo_logged st p)) (old p)" if "p \<in> set (order (dom (undo_logged st)))" for p
    using that old order(1) by auto
  ultimately obtain s' where "for_each (\<lambda>p. undo_page p (the (undo_logged st p))) (order (dom (undo_logged st))) ?s = ret () s'"
    "pool_inv D (F - dom (undo_logged st)) s'" "\<forall>p \<in> dom (undo_logged st). page_content s' p = Some (old p)"
    "\<forall>q \<in> D - dom (undo_logged st). page_content s' q = page_content ?s q" "bp_txns s' = bp_txns ?s"
    using undo_pages_spec [OF i _ order(2), of t "\<lambda>p. the (undo_logged st p)" old] unfolding order(1) by blast
  then show ?thesis using st by (simp add: abort_transaction_def)
qed

section \<open>Commit\<close>

lemma redo_batch_eq:
  assumes "\<And>p n. table p = Some n \<Longrightarrow> node_wf n"
  shows "\<exists>img. (\<forall>p n. table p = Some n \<longrightarrow> encode n zero_page = Ok (img p) \<and> length (img p) = PAGE_SIZE \<and>
      decode (img p) = Ok (reloaded n)) \<and>
    (\<forall>ps. redo_batch t table ps = Ok (map (\<lambda>p. Redo p t (img p)) (filter (\<lambda>p. p \<in> dom table) ps)))"
proof -
  have "\<exists>i. table p = Some n \<longrightarrow> encode n zero_page = Ok i \<and> length i = PAGE_SIZE \<and> decode i = Ok (reloaded n)" for p n
    using encode_roundtrip [OF assms length_zero_page] by blast
  then obtain f where f: "\<And>p n. table p = Some n \<Longrightarrow> encode n zero_page = Ok (f p n) \<and> length (f p n) = PAGE_SIZE \<and>
      decode (f p n) = Ok (reloaded n)"
    by metis
  define img where "img p = f p (the (table p))" for p
  have e: "encode n zero_page = Ok (img p) \<and> length (img p) = PAGE_SIZE \<and> decode (img p) = Ok (reloaded n)"
    if "table p = Some n" for p n
    using f [OF that] that by (simp add: img_def)
  have "redo_batch t table ps = Ok (map (\<lambda>p. Redo p t (img p)) (filter (\<lambda>p. p \<in> dom table) ps))" for ps
  proof (induction ps)
    case (Cons p ps)
    show ?case
    proof (cases "table p")
      case (Some n)
      then have "encode n zero_page = Ok (img p)" using e by blast
      then show ?thesis using Some Cons by (simp add: domI del: not_None_eq)
    qed (use Cons in \<open>simp add: domIff\<close>)
  qed simp
  with e show ?thesis by blast
qed

text \<open>
  Committing logs the after-image of every page of the transaction that is still cached,
  then the commit record, and syncs the log.
\<close>

lemma commit_transaction_spec:
  assumes inv: "pool_inv D F s" and st: "bp_txns s t = Some st"
  shows "\<exists>img. (\<forall>p \<in> dom (bp_table s). length (img p) = PAGE_SIZE \<and>
      (\<exists>n. page_content s p = Some n \<and> decode (img p) = Ok n)) \<and>
    outcome (commit_transaction order t s)
      (\<lambda>_ s'. pool_inv D F s' \<and> bp_txns s' = (bp_txns s)(t := None) \<and> bp_table s' = bp_table s \<and> bp_disk s' = bp_disk s \<and>
         (\<forall>p. page_content s' p = page_content s p) \<and>
         wal_file (bp_wal s') = wal_file (bp_wal s) @
           log_bytes (map (\<lambda>p. Redo p t (img p)) (filter (\<lambda>p. p \<in> dom (bp_table s)) (order (dirty_pages st))) @ [Commit t]) \<and>
         wal_flushed (bp_wal s') = of_nat (length (wal_file (bp_wal s'))))
      (\<lambda>_ _. False)"
proof -
  have wf: "node_wf n" if "bp_table s p = Some n" for p n
    using that inv pages_invD(2) [of D F s p n] by (auto simp: pool_inv_def pages_inv_def)
  obtain img where img: "\<forall>p n. bp_table s p = Some n \<longrightarrow> encode n zero_page = Ok (img p) \<and> length (img p) = PAGE_SIZE \<and>
      decode (img p) = Ok (reloaded n)"
    and b: "\<forall>ps. redo_batch t (bp_table s) ps = Ok (map (\<lambda>p. Redo p t (img p)) (filter (\<lambda>p. p \<in> dom (bp_table s)) ps))"
    using redo_batch_eq [of "bp_table s" t] wf by blast
  have "outcome (commit_transaction order t s)
      (\<lambda>_ s'. pool_inv D F s' \<and> bp_txns s' = (bp_txns s)(t := None) \<and> bp_table s' = bp_table s \<and> bp_disk s' = bp_disk s \<and>
         (\<forall>p. page_content s' p = page_content s p) \<and>
         wal_file (bp_wal s') = wal_file (bp_wal s) @
           log_bytes (map (\<lambda>p. Redo p t (img p)) (filter (\<lambda>p. p \<in> dom (bp_table s)) (order (dirty_pages st))) @ [Commit t]) \<and>
         wal_flushed (bp_wal s') = of_nat (length (wal_file (bp_wal s'))))
      (\<lambda>_ _. False)"
    using st b inv by (simp add: commit_transaction_def wal_sync_def wal_file_write_batch)
  moreover have "length (img p) = PAGE_SIZE \<and> (\<exists>n. page_content s p = Some n \<and> decode (img p) = Ok n)"
    if "p \<in> dom (bp_table s)" for p using that img content_cached by blast
  ultimately show ?thesis by blast
qed

section \<open>The contract of the pool\<close>

text \<open>
  C25: A fetch keeps the invariant of the pool and all page contents: the page is cached
  afterwards, pinned frames stay in place, whatever was evicted is on disk, and it fails only
  when every frame is pinned.
\<close>

lemma fetched_page_is_current:
  assumes "pool_inv D F s" "F \<subseteq> pins" "p \<in> D"
  shows "outcome (fetch_page pins p s)
    (\<lambda>n s'. pool_inv D F s' \<and> quiet D pins s s' \<and> bp_table s' p = Some n)
    (\<lambda>e s'. e = LruEviction \<and> dom (bp_table s) \<subseteq> pins \<and> pool_inv D F s' \<and> quiet D pins s s')"
  by (rule outcome_weaken [OF fetch_page_spec [OF assms]]) auto

text \<open>
  C26: begin_page_mutation keeps all page contents and the invariants, marks the page as touched
  by the transaction, and logs its image exactly once per transaction: the first call appends
  one undo record whose offset is remembered, later calls leave the log alone.
\<close>

lemma mutation_logged_once:
  assumes "pool_inv D F s" "F \<subseteq> pins" "p \<in> D" "txns_inv s" "length (wal_file (bp_wal s)) < 2 ^ 64"
  shows "outcome (begin_page_mutation pins p t s)
    (\<lambda>_. mutation_begun D F pins p t s)
    (\<lambda>e s'. e = LruEviction \<and> dom (bp_table s) \<subseteq> pins \<and> pool_inv D F s' \<and> quiet D pins s s')"
  by (rule begin_page_mutation_spec [OF assms])

text \<open>
  C27: A commit appends one redo image for each cached page of the transaction and then the
  commit marker, syncs the log, forgets the transaction, and changes no page.
\<close>

lemma commit_logs_images:
  assumes "pool_inv D F s" "bp_txns s t = Some st"
  shows "\<exists>img. (\<forall>p \<in> dom (bp_table s). length (img p) = PAGE_SIZE \<and>
      (\<exists>n. page_content s p = Some n \<and> decode (img p) = Ok n)) \<and>
    outcome (commit_transaction order t s)
      (\<lambda>_ s'. pool_inv D F s' \<and> bp_txns s' = (bp_txns s)(t := None) \<and> bp_table s' = bp_table s \<and> bp_disk s' = bp_disk s \<and>
         (\<forall>p. page_content s' p = page_content s p) \<and>
         wal_file (bp_wal s') = wal_file (bp_wal s) @
           log_bytes (map (\<lambda>p. Redo p t (img p)) (filter (\<lambda>p. p \<in> dom (bp_table s)) (order (dirty_pages st))) @ [Commit t]) \<and>
         wal_flushed (bp_wal s') = of_nat (length (wal_file (bp_wal s'))))
      (\<lambda>_ _. False)"
  by (rule commit_transaction_spec [OF assms])

end
