(* ===== verification/Transaction.thy ===== *)
theory Transaction
  imports BufferPool
begin

text \<open>
  Transactions over the buffer pool: the handle of src/src/concurrency/transaction.rs, the
  background flusher of src/src/storage/flusher.rs, and the step relation of one running
  transaction: any sequence of fetches, allocations, logged page writes, flushes and
  watermark cleanings. The invariant of that relation gives atomicity: an abort restores
  the contents from before the transaction, recovery of an uncommitted log does the same,
  and recovery after a commit keeps the contents of the commit.
\<close>

section \<open>The transaction handle\<close>

record txn_handle =
  th_txn_id :: u64
  th_completed :: bool

definition txn_new :: "u64 \<Rightarrow> txn_handle" where
  "txn_new t = \<lparr>th_txn_id = t, th_completed = False\<rparr>"

definition txn_commit ::
    "(page_id set \<Rightarrow> page_id list) \<Rightarrow> txn_handle \<Rightarrow> (pool, txn_handle) call" where
  "txn_commit order h =
     (if th_completed h then ret h
      else seq (commit_transaction order (th_txn_id h)) (\<lambda>_. ret (h\<lparr>th_completed := True\<rparr>)))"

definition txn_abort ::
    "(page_id set \<Rightarrow> page_id list) \<Rightarrow> txn_handle \<Rightarrow> (pool, txn_handle) call" where
  "txn_abort order h =
     (if th_completed h then ret h
      else seq (abort_transaction order (th_txn_id h)) (\<lambda>_. ret (h\<lparr>th_completed := True\<rparr>)))"

text \<open>Dropping the handle aborts an open transaction; an error is only printed.\<close>

definition txn_drop :: "(page_id set \<Rightarrow> page_id list) \<Rightarrow> txn_handle \<Rightarrow> (pool, unit) call" where
  "txn_drop order h =
     (if th_completed h then ret () else seq (attempt (txn_abort order h)) (\<lambda>_. ret ()))"

section \<open>The background flusher\<close>

definition WAL_CHECKPOINT_THRESHOLD :: u64 where "WAL_CHECKPOINT_THRESHOLD = 32 * 1024 * 1024"

text \<open>Flush everything and truncate the log, if no transaction is active.\<close>

definition checkpoint :: "(page_id set \<Rightarrow> page_id list) \<Rightarrow> (pool, unit) call" where
  "checkpoint order =
     seq (attempt (flush_all_pages order)) (\<lambda>r.
       case r of Ok _ \<Rightarrow> modify (\<lambda>s. s\<lparr>bp_wal := wal_truncate (bp_wal s)\<rparr>) | _ \<Rightarrow> ret ())"

definition flusher_tick :: "(page_id set \<Rightarrow> page_id list) \<Rightarrow> (pool, unit) call" where
  "flusher_tick order =
     seq (attempt clean_pages_watermark) (\<lambda>_.
     seq (gets (\<lambda>s. wal_size (bp_wal s) > WAL_CHECKPOINT_THRESHOLD)) (\<lambda>should_checkpoint.
     seq (gets can_checkpoint) (\<lambda>can.
     if should_checkpoint \<and> can then checkpoint order else ret ())))"

definition flusher_shutdown :: "(page_id set \<Rightarrow> page_id list) \<Rightarrow> (pool, unit) call" where
  "flusher_shutdown order =
     seq (gets can_checkpoint) (\<lambda>can. if can then checkpoint order else ret ())"

text \<open>The thread: a tick per timeout until the shutdown signal.\<close>

definition flusher_run :: "(page_id set \<Rightarrow> page_id list) \<Rightarrow> nat \<Rightarrow> (pool, unit) call" where
  "flusher_run order ticks =
     seq (for_each (\<lambda>_. flusher_tick order) [0..<ticks]) (\<lambda>_. flusher_shutdown order)"

section \<open>Flushing\<close>

definition order_ok :: "(page_id set \<Rightarrow> page_id list) \<Rightarrow> bool" where
  "order_ok order \<longleftrightarrow> (\<forall>S. finite S \<longrightarrow> set (order S) = S \<and> distinct (order S))"

lemma flush_list_spec:
  assumes "pool_inv D F s"
  shows "\<exists>s'. for_each flush_page ps s = ret () s' \<and> pool_inv D F s' \<and> quiet D {} s s' \<and>
    dom (bp_table s') = dom (bp_table s) \<and> (\<forall>p \<in> set ps. \<not> is_dirty_in s' p)"
  using assms
proof (induction ps arbitrary: s)
  case Nil
  then show ?case by (intro exI [of _ s]) simp
next
  case (Cons p ps)
  have c: "cache_inv s" "pages_inv D F s" using Cons.prems by (simp_all add: pool_inv_def)
  obtain s1 where s1: "flush_page p s = ret () s1" "pages_inv D F s1" "quiet D {q. q \<noteq> p} s s1"
    "dom (bp_table s1) = dom (bp_table s)" "bp_replacer s1 = bp_replacer s"
    "\<forall>n. bp_table s p = Some n \<longrightarrow> bp_table s1 p = Some (clear_dirty n)"
    using flush_page_spec [OF c(2), of p] by blast
  have "cache_inv s1" using c(1) by (rule cache_inv_cong) (use s1 in \<open>simp_all add: quiet_def\<close>)
  then have i1: "pool_inv D F s1" using s1(2) by (simp add: pool_inv_def)
  have q1: "quiet D {} s s1" using s1(3) by (simp add: quiet_def)
  have np: "\<not> is_dirty_in s1 p" using s1(4,6) by (cases "bp_table s p") (auto simp: is_dirty_in_iff)
  from Cons.IH [OF i1] obtain s' where s': "for_each flush_page ps s1 = ret () s'" "pool_inv D F s'" "quiet D {} s1 s'"
    "dom (bp_table s') = dom (bp_table s1)" "\<forall>p \<in> set ps. \<not> is_dirty_in s' p" by blast
  have "\<not> is_dirty_in s' p" using np s'(3) by (auto simp: quiet_def dirty_sub_def)
  moreover have "for_each flush_page (p # ps) s = ret () s'"
    using s1(1) s'(1) by (simp add: seq_def ret_def)
  ultimately show ?case using s' s1(4) quiet_trans [OF q1 s'(3)] by (intro exI [of _ s']) simp
qed

lemma clean_pages_watermark_spec:
  assumes inv: "pool_inv D F s"
  shows "\<exists>s'. clean_pages_watermark s = ret () s' \<and> pool_inv D F s' \<and> quiet D {} s s'"
proof -
  obtain ps where ps: "lru_rep (bp_replacer s) ps" using inv by (auto simp: pool_inv_def cache_inv_def)
  let ?ids = "filter (is_dirty_in s) (take (bp_capacity s * 3 div 4) (rev ps))"
  have eq: "clean_pages_watermark s =
      (if length ?ids \<ge> bp_capacity s * 3 div 4
       then for_each flush_page (take (bp_capacity s * 3 div 4 - bp_capacity s div 4) ?ids) s else ret () s)"
    by (simp add: clean_pages_watermark_def Let_def lru.rep_oldest [OF ps])
  show ?thesis
  proof (cases "length ?ids \<ge> bp_capacity s * 3 div 4")
    case True
    then show ?thesis unfolding eq using flush_list_spec [OF inv] by (simp only: if_True) blast
  next
    case False
    then show ?thesis unfolding eq using inv by (intro exI [of _ s]) simp
  qed
qed

text \<open>
  C28: A full flush leaves no dirty page, keeps every page content, and leaves a file that
  reopens with the current header.
\<close>

lemma flush_all_pages_spec:
  assumes inv: "pool_inv D {} s" and ord: "order_ok order"
  shows "\<exists>s'. flush_all_pages order s = ret () s' \<and> pool_inv D {} s' \<and> quiet D {} s s' \<and>
    (\<forall>p. \<not> is_dirty_in s' p) \<and> disk_open (dm_file (bp_disk s')) = Ok (bp_disk s')"
proof -
  obtain ps where "lru_rep (bp_replacer s) ps" "set ps = dom (bp_table s)"
    using inv by (auto simp: pool_inv_def cache_inv_def)
  then have "finite (dom (bp_table s))" by (metis List.finite_set)
  then have o: "set (order (dom (bp_table s))) = dom (bp_table s)" using ord by (simp add: order_ok_def)
  from flush_list_spec [OF inv, of "order (dom (bp_table s))"] o obtain s1 where
    s1: "for_each flush_page (order (dom (bp_table s))) s = ret () s1" "pool_inv D {} s1" "quiet D {} s s1"
      "dom (bp_table s1) = dom (bp_table s)" "\<forall>p \<in> dom (bp_table s). \<not> is_dirty_in s1 p" by auto
  obtain d where d: "save_header (bp_disk s1) = Ok d" "disk_open (dm_file d) = Ok d" "dm_header d = dm_header (bp_disk s1)"
    using save_header_open by blast
  let ?s2 = "s1\<lparr>bp_disk := d\<rparr>"
  have al: "aligned p" if "p \<in> D" for p using that s1(2) pages_invD(3) by (auto simp: pool_inv_def)
  have keep: "read_page p d = read_page p (bp_disk s1)" if "p \<in> D" "read_page p (bp_disk s1) = Ok x" for p x
    using save_header_pages [OF d(1) al [OF that(1)] that(2)] that(2) by simp
  have pg: "page_inv {} ?s2 p \<and> page_content ?s2 p = page_content s1 p" if p: "p \<in> D" for p
  proof -
    have pi: "page_inv {} s1 p" using s1(2) p by (simp add: pool_inv_def pages_inv_def)
    have od: "on_disk d p m" if "on_disk (bp_disk s1) p m" for m
      using that keep [OF p] by (auto simp: on_disk_def res_bind_eq_Ok)
    show ?thesis
    proof (cases "bp_table s1 p")
      case None
      then obtain m where m: "on_disk (bp_disk s1) p m" "node_wf m" "reloaded m = m"
        using pi by (auto simp: page_inv_def)
      then have "page_inv {} ?s2 p" using od None by (auto simp: page_inv_def)
      moreover have "page_content ?s2 p = page_content s1 p"
        using content_uncached [OF None m(1)] content_uncached [of ?s2 p m] od [OF m(1)] None by simp
      ultimately show ?thesis by simp
    next
      case (Some m)
      then have "page_inv {} ?s2 p" using pi od by (simp add: page_inv_def)
      then show ?thesis using Some by (simp add: content_cached)
    qed
  qed
  then have "pages_inv D {} ?s2" using s1(2) al by (auto simp: pages_inv_def pool_inv_def)
  moreover have "cache_inv ?s2" using s1(2) by (simp add: pool_inv_def cache_inv_def)
  moreover have "dirty_sub ?s2 s1" by (rule dirty_sub_table) simp
  then have "quiet D {} s1 ?s2" using pg d(3) by (simp add: quiet_def)
  then have "quiet D {} s ?s2" using s1(3) quiet_trans by blast
  moreover have "\<not> is_dirty_in ?s2 p" for p
    using s1(4,5) by (cases "p \<in> dom (bp_table s)") (auto simp: is_dirty_in_iff domIff)
  moreover have "flush_all_pages order s = ret () ?s2"
    using s1(1) d(1) by (simp add: flush_all_pages_def seq_def ret_def modify_def gets_def lift_def)
  ultimately show ?thesis using d(2) by (intro exI [of _ ?s2]) (simp add: pool_inv_def)
qed

section \<open>A running transaction\<close>

text \<open>
  The states that transaction \<open>t\<close> can reach from \<open>s0\<close>, with the allocated pages \<open>D\<close> and
  the pages \<open>F\<close> that are allocated but not yet written. A page is stored only after
  \<open>begin_page_mutation\<close> on it; the failing outcomes of the calls are steps too.
\<close>

inductive txn_reach :: "u64 \<Rightarrow> page_id set \<Rightarrow> pool \<Rightarrow> page_id set \<Rightarrow> page_id set \<Rightarrow> pool \<Rightarrow> bool"
  for t :: u64 and D0 :: "page_id set" and s0 :: pool where
  start: "txn_reach t D0 s0 D0 {} s0"
| fetch: "txn_reach t D0 s0 D F s \<Longrightarrow> F \<subseteq> pins \<Longrightarrow> p \<in> D \<Longrightarrow> fetch_page pins p s = Some (r, s') \<Longrightarrow>
    txn_reach t D0 s0 D F s'"
| mutate: "txn_reach t D0 s0 D F s \<Longrightarrow> F \<subseteq> pins \<Longrightarrow> p \<in> D \<Longrightarrow> length (wal_file (bp_wal s)) < 2 ^ 64 \<Longrightarrow>
    begin_page_mutation pins p t s = Some (r, s') \<Longrightarrow> txn_reach t D0 s0 D F s'"
| store: "txn_reach t D0 s0 D F s \<Longrightarrow> p \<in> dom (bp_table s) \<Longrightarrow> p \<in> dirty_pages (txn_entry t s) \<Longrightarrow>
    node_wf n \<Longrightarrow> node_is_dirty n \<Longrightarrow> write_frame p n s = Some (r, s') \<Longrightarrow>
    txn_reach t D0 s0 D (F - {p}) s'"
| alloc: "txn_reach t D0 s0 D F s \<Longrightarrow> F \<subseteq> pins \<Longrightarrow> p \<notin> D \<Longrightarrow> aligned p \<Longrightarrow>
    next_free_offset (dm_header (bp_disk s)) = p \<Longrightarrow>
    new_page pins is_leaf s = Some (Ok p, s') \<Longrightarrow> txn_reach t D0 s0 (insert p D) (insert p F) s'"
| flush: "txn_reach t D0 s0 D F s \<Longrightarrow> flush_page p s = Some (r, s') \<Longrightarrow> txn_reach t D0 s0 D F s'"
| clean: "txn_reach t D0 s0 D F s \<Longrightarrow> clean_pages_watermark s = Some (r, s') \<Longrightarrow> txn_reach t D0 s0 D F s'"

inductive_cases txn_reachE: "txn_reach t D0 s0 D F s"

text \<open>What holds of the log and of the contents while the transaction runs: \<open>us\<close> are the
  pages it has logged, in order, with their images.\<close>

definition undo_log :: "u64 \<Rightarrow> (page_id \<times> u8 list) list \<Rightarrow> wal_record list" where
  "undo_log t us = map (\<lambda>(p, img). Undo p t img) us"

definition undone_ok :: "u64 \<Rightarrow> pool \<Rightarrow> pool \<Rightarrow> page_id \<Rightarrow> bool" where
  "undone_ok t s0 s p \<longleftrightarrow> (case undo_logged (txn_entry t s) p of
     Some off \<Rightarrow> \<exists>n. undo_at (bp_wal s) t p off n \<and> page_content s0 p = Some n
   | None \<Rightarrow> page_content s p = page_content s0 p \<and> (is_dirty_in s p \<longrightarrow> is_dirty_in s0 p))"

definition undo_log_ok :: "u64 \<Rightarrow> page_id set \<Rightarrow> pool \<Rightarrow> pool \<Rightarrow> bool" where
  "undo_log_ok t D0 s0 s \<longleftrightarrow> (\<exists>us. wal_file (bp_wal s) = wal_file (bp_wal s0) @ log_bytes (undo_log t us) \<and>
     distinct (map fst us) \<and> fst ` set us = dirty_pages (txn_entry t s) \<and>
     (\<forall>(p, img) \<in> set us. length img = PAGE_SIZE \<and>
        (p \<in> D0 \<longrightarrow> (\<exists>n. decode img = Ok n \<and> page_content s0 p = Some n))))"

definition txn_inv :: "u64 \<Rightarrow> page_id set \<Rightarrow> pool \<Rightarrow> page_id set \<Rightarrow> page_id set \<Rightarrow> pool \<Rightarrow> bool" where
  "txn_inv t D0 s0 D F s \<longleftrightarrow> pool_inv D F s \<and> txns_inv s \<and> D0 \<subseteq> D \<and> F \<inter> D0 = {} \<and>
     (\<forall>u. u \<noteq> t \<longrightarrow> bp_txns s u = bp_txns s0 u) \<and>
     dom (undo_logged (txn_entry t s)) = dirty_pages (txn_entry t s) \<and> dirty_pages (txn_entry t s) \<subseteq> D \<and>
     (\<forall>p \<in> D0. undone_ok t s0 s p) \<and> undo_log_ok t D0 s0 s"

lemma undone_ok_step:
  assumes "undone_ok t s0 s p" "undo_logged (txn_entry t s') p = undo_logged (txn_entry t s) p"
    and "\<And>off n. undo_at (bp_wal s) t p off n \<Longrightarrow> undo_at (bp_wal s') t p off n"
    and "undo_logged (txn_entry t s) p = None \<Longrightarrow>
      page_content s' p = page_content s p \<and> (is_dirty_in s' p \<longrightarrow> is_dirty_in s p)"
  shows "undone_ok t s0 s' p"
  using assms by (cases "undo_logged (txn_entry t s) p") (auto simp: undone_ok_def)

lemma undo_log_ok_same:
  "undo_log_ok t D0 s0 s \<Longrightarrow> wal_file (bp_wal s') = wal_file (bp_wal s) \<Longrightarrow>
   dirty_pages (txn_entry t s') = dirty_pages (txn_entry t s) \<Longrightarrow> undo_log_ok t D0 s0 s'"
  by (simp add: undo_log_ok_def)

lemma undo_at_same: "wal_file w' = wal_file w \<Longrightarrow> undo_at w' t p off n = undo_at w t p off n"
  by (simp add: undo_at_def)

lemma txn_inv_start:
  assumes "pool_inv D0 {} s0" "txns_inv s0" "bp_txns s0 t = None"
  shows "txn_inv t D0 s0 D0 {} s0"
  using assms unfolding txn_inv_def undone_ok_def undo_log_ok_def
  by (auto simp: txn_entry_def undo_log_def log_bytes_def intro!: exI [of _ "[]"])

text \<open>Steps that are quiet keep the invariant.\<close>

lemma txn_inv_quiet:
  assumes inv: "txn_inv t D0 s0 D F s" and s': "pool_inv D F s'" and q: "quiet D pins s s'"
  shows "txn_inv t D0 s0 D F s'"
proof -
  have w: "wal_file (bp_wal s') = wal_file (bp_wal s)" "bp_txns s' = bp_txns s" using q by (simp_all add: quiet_def)
  have te: "txn_entry t s' = txn_entry t s" using w by (simp add: txn_entry_def)
  have tx: "txns_inv s'" using inv txns_inv_quiet q by (auto simp: txn_inv_def)
  have "undone_ok t s0 s' p" if p: "p \<in> D0" for p
  proof (rule undone_ok_step [of t s0 s])
    show "undone_ok t s0 s p" using inv p by (simp add: txn_inv_def)
    show "page_content s' p = page_content s p \<and> (is_dirty_in s' p \<longrightarrow> is_dirty_in s p)"
      using p q inv by (auto simp: quiet_def dirty_sub_def txn_inv_def)
  qed (use te undo_at_same [OF w(1)] in simp_all)
  moreover have "undo_log_ok t D0 s0 s'" using inv w te undo_log_ok_same by (auto simp: txn_inv_def)
  ultimately show ?thesis using inv s' tx unfolding txn_inv_def te w by simp
qed

lemma txn_inv_mutate:
  assumes inv: "txn_inv t D0 s0 D F s" and b: "mutation_begun D F pins p t s s'" and p: "p \<in> D"
  shows "txn_inv t D0 s0 D F s'"
proof -
  let ?e = "txn_entry t s" let ?e' = "txn_entry t s'"
  have b1: "pool_inv D F s'" "txns_inv s'" "dirty_pages ?e' = insert p (dirty_pages ?e)" "dirty_sub s' s"
    "\<forall>q \<in> D. page_content s' q = page_content s q" "\<forall>u. u \<noteq> t \<longrightarrow> bp_txns s' u = bp_txns s u"
    using b by (simp_all add: mutation_begun_def)
  have i: "D0 \<subseteq> D" "F \<inter> D0 = {}" "\<forall>u. u \<noteq> t \<longrightarrow> bp_txns s u = bp_txns s0 u"
    "dom (undo_logged ?e) = dirty_pages ?e" "dirty_pages ?e \<subseteq> D" "undo_log_ok t D0 s0 s"
    and iD: "\<And>q. q \<in> D0 \<Longrightarrow> undone_ok t s0 s q"
    using inv by (simp_all add: txn_inv_def)
  have cd: "page_content s' q = page_content s q \<and> (is_dirty_in s' q \<longrightarrow> is_dirty_in s q)" if "q \<in> D0" for q
    using that b1(4,5) i(1) by (auto simp: dirty_sub_def)
  show ?thesis
  proof (cases "undo_logged ?e p")
    case (Some off)
    then have same: "wal_file (bp_wal s') = wal_file (bp_wal s)" "undo_logged ?e' = undo_logged ?e"
      using b by (simp_all add: mutation_begun_def)
    have dp: "dirty_pages ?e' = dirty_pages ?e" using b1(3) i(4) Some by (auto simp: insert_absorb)
    have "undone_ok t s0 s' q" if "q \<in> D0" for q
      by (rule undone_ok_step [OF iD [OF that]]) (use same cd [OF that] undo_at_same [OF same(1)] in simp_all)
    moreover have "undo_log_ok t D0 s0 s'" using undo_log_ok_same [OF i(6) same(1) dp] .
    ultimately show ?thesis using b1 i unfolding txn_inv_def same dp by simp
  next
    case None
    then obtain off n img where nw: "undo_logged ?e' = (undo_logged ?e)(p \<mapsto> off)" "undo_at (bp_wal s') t p off n"
      "page_content s p = Some n" "length img = PAGE_SIZE" "decode img = Ok n"
      "wal_file (bp_wal s') = wal_file (bp_wal s) @ frame_bytes (Undo p t img)"
      using b by (auto simp: mutation_begun_def)
    have pn: "p \<notin> dirty_pages ?e" using None i(4) by auto
    have c0: "page_content s0 p = Some n" if "p \<in> D0" using iD [OF that] None nw(3) by (simp add: undone_ok_def)
    have "undone_ok t s0 s' q" if q: "q \<in> D0" for q
    proof (cases "q = p")
      case True
      then show ?thesis using nw(1,2) c0 q by (auto simp: undone_ok_def)
    next
      case False
      then show ?thesis using cd [OF q] undo_at_append [OF _ nw(6)]
        by (intro undone_ok_step [OF iD [OF q]]) (simp_all add: nw(1))
    qed
    moreover have "undo_log_ok t D0 s0 s'"
    proof -
      obtain us where us: "wal_file (bp_wal s) = wal_file (bp_wal s0) @ log_bytes (undo_log t us)"
        "distinct (map fst us)" "fst ` set us = dirty_pages ?e"
        "\<forall>(p, img) \<in> set us. length img = PAGE_SIZE \<and> (p \<in> D0 \<longrightarrow> (\<exists>n. decode img = Ok n \<and> page_content s0 p = Some n))"
        using i(6) unfolding undo_log_ok_def by blast
      have "wal_file (bp_wal s') = wal_file (bp_wal s0) @ log_bytes (undo_log t (us @ [(p, img)]))"
        using nw(6) us(1) by (simp add: undo_log_def) (simp add: log_bytes_def)
      moreover have "distinct (map fst (us @ [(p, img)]))" using us(2,3) pn by (auto simp: image_iff)
      moreover have "fst ` set (us @ [(p, img)]) = dirty_pages ?e'" using us(3) b1(3) by auto
      moreover have "\<forall>(q, im) \<in> set (us @ [(p, img)]). length im = PAGE_SIZE \<and>
          (q \<in> D0 \<longrightarrow> (\<exists>n. decode im = Ok n \<and> page_content s0 q = Some n))"
        using us(4) nw(4,5) c0 by auto
      ultimately show ?thesis unfolding undo_log_ok_def by blast
    qed
    moreover have "dom (undo_logged ?e') = dirty_pages ?e'" "dirty_pages ?e' \<subseteq> D"
      using nw(1) b1(3) i(4,5) p by auto
    ultimately show ?thesis using b1(1,2,6) i(1-3) unfolding txn_inv_def by simp
  qed
qed

lemma txn_inv_store:
  assumes inv: "txn_inv t D0 s0 D F s" and p: "p \<in> dom (bp_table s)" "p \<in> dirty_pages (txn_entry t s)"
    and n: "node_wf n" "node_is_dirty n" and s': "s' = s\<lparr>bp_table := (bp_table s)(p \<mapsto> n)\<rparr>"
  shows "txn_inv t D0 s0 D (F - {p}) s'"
proof -
  have pi: "pool_inv D F s" using inv by (simp add: txn_inv_def)
  note st = store_page [OF pi p(1) n, folded s']
  have dr: "is_dirty_in s' q = is_dirty_in s q" if "q \<noteq> p" for q using that by (simp add: is_dirty_in_iff s')
  have te: "txn_entry t s' = txn_entry t s" "bp_txns s' = bp_txns s" "bp_wal s' = bp_wal s"
    by (simp_all add: txn_entry_def s')
  have up: "undo_logged (txn_entry t s) p \<noteq> None" using p(2) inv by (auto simp: txn_inv_def)
  have "undone_ok t s0 s' q" if q: "q \<in> D0" for q
  proof (rule undone_ok_step [of t s0 s])
    show "undone_ok t s0 s q" using inv q by (simp add: txn_inv_def)
    show "page_content s' q = page_content s q \<and> (is_dirty_in s' q \<longrightarrow> is_dirty_in s q)"
      if "undo_logged (txn_entry t s) q = None"
      using that up st(3) dr by (cases "q = p") simp_all
  qed (simp_all add: te)
  moreover have "txns_inv s'" using inv by (simp add: txn_inv_def txns_inv_def te)
  moreover have "(F - {p}) \<inter> D0 = {}" using inv by (auto simp: txn_inv_def)
  moreover have "undo_log_ok t D0 s0 s'" using inv by (simp add: txn_inv_def undo_log_ok_def te)
  ultimately show ?thesis using inv st(1) unfolding txn_inv_def te by simp
qed

lemma txn_inv_alloc:
  assumes inv: "txn_inv t D0 s0 D F s" and p: "p \<notin> D"
    and s': "pool_inv (insert p D) (insert p F) s'" "\<forall>q \<in> D. page_content s' q = page_content s q" "bp_txns s' = bp_txns s"
      "wal_file (bp_wal s') = wal_file (bp_wal s)" "dirty_sub s' s"
  shows "txn_inv t D0 s0 (insert p D) (insert p F) s'"
proof -
  have te: "txn_entry t s' = txn_entry t s" using s'(3) by (simp add: txn_entry_def)
  have tx: "txns_inv s'" using inv by (simp add: txn_inv_def txns_inv_def undo_at_same [OF s'(4)] s'(3))
  have "undone_ok t s0 s' q" if q: "q \<in> D0" for q
  proof (rule undone_ok_step [of t s0 s])
    show "undone_ok t s0 s q" using inv q by (simp add: txn_inv_def)
    show "page_content s' q = page_content s q \<and> (is_dirty_in s' q \<longrightarrow> is_dirty_in s q)"
      using q s' inv by (auto simp: dirty_sub_def txn_inv_def)
  qed (simp_all add: te undo_at_same [OF s'(4)])
  moreover have "insert p F \<inter> D0 = {}" using inv p by (auto simp: txn_inv_def)
  moreover have "undo_log_ok t D0 s0 s'" using inv s'(4) te undo_log_ok_same by (auto simp: txn_inv_def)
  ultimately show ?thesis using inv s'(1) tx unfolding txn_inv_def te s'(3) by auto
qed

lemma outcome_result:
  "outcome x Q E \<Longrightarrow> x = Some (r, s) \<Longrightarrow> (\<And>a. r = Ok a \<Longrightarrow> Q a s \<Longrightarrow> R) \<Longrightarrow> (\<And>e. r = Err e \<Longrightarrow> E e s \<Longrightarrow> R) \<Longrightarrow> R"
  by (auto simp: outcome_def split: res.splits)

lemma txn_reach_inv:
  assumes "txn_reach t D0 s0 D F s" and s0: "pool_inv D0 {} s0" "txns_inv s0" "bp_txns s0 t = None"
  shows "txn_inv t D0 s0 D F s"
  using assms(1)
proof (induction rule: txn_reach.induct)
  case start
  show ?case using txn_inv_start s0 by blast
next
  case (fetch D F s pins p r s')
  then have pi: "pool_inv D F s" by (simp add: txn_inv_def)
  show ?case
    by (rule outcome_result [OF fetch_page_spec [OF pi fetch.hyps(2,3)] fetch.hyps(4)])
      (use fetch.IH txn_inv_quiet in blast)+
next
  case (mutate D F s pins p r s')
  then have pi: "pool_inv D F s" "txns_inv s" by (simp_all add: txn_inv_def)
  show ?case
    by (rule outcome_result [OF begin_page_mutation_spec [OF pi(1) mutate.hyps(2,3) pi(2) mutate.hyps(4)] mutate.hyps(5)])
      (use mutate.IH mutate.hyps txn_inv_quiet txn_inv_mutate in blast)+
next
  case (store D F s p n r s')
  then have "s' = s\<lparr>bp_table := (bp_table s)(p \<mapsto> n)\<rparr>" by (simp add: write_frame_def modify_def)
  with store show ?case using txn_inv_store by blast
next
  case (alloc D F s pins p is_leaf s')
  then have pi: "pool_inv D F s" by (simp add: txn_inv_def)
  show ?case
    by (rule outcome_result [OF new_page_spec [OF pi alloc.hyps(2,5,4,3)] alloc.hyps(6)])
      (use alloc.IH alloc.hyps txn_inv_alloc in \<open>simp_all, blast?\<close>)
next
  case (flush D F s p r s')
  then have pi: "pool_inv D F s" by (simp add: txn_inv_def)
  show ?case
    by (rule outcome_result [OF flush_page_pool [OF pi] flush.hyps(2)])
      (use flush.IH txn_inv_quiet in blast)+
next
  case (clean D F s r s')
  then have pi: "pool_inv D F s" by (simp add: txn_inv_def)
  obtain s1 where "clean_pages_watermark s = ret () s1" "pool_inv D F s1" "quiet D {} s s1"
    using clean_pages_watermark_spec [OF pi] by blast
  with clean show ?case using txn_inv_quiet by (auto simp: ret_def)
qed

section \<open>Atomicity\<close>

lemma order_finite: "order_ok order \<Longrightarrow> finite S \<Longrightarrow> set (order S) = S \<and> distinct (order S)"
  by (simp add: order_ok_def)

text \<open>
  Rollback: from any state a transaction can reach through fetches, mutations, allocations,
  flushes and cleaning, the abort succeeds and gives every page of the database the content it
  had when the transaction began.
\<close>

lemma abort_restores_contents:
  assumes r: "txn_reach t D0 s0 D F s" and s0: "pool_inv D0 {} s0" "txns_inv s0" "bp_txns s0 t = None"
    and ord: "order_ok order"
  shows "outcome (abort_transaction order t s)
    (\<lambda>_ s'. bp_txns s' t = None \<and> (\<forall>p \<in> D0. page_content s' p = page_content s0 p) \<and>
       pool_inv D (F - dirty_pages (txn_entry t s)) s')
    (\<lambda>_ _. False)"
proof -
  have inv: "txn_inv t D0 s0 D F s" by (rule txn_reach_inv [OF r s0])
  have i: "pool_inv D F s" "txns_inv s" "D0 \<subseteq> D" "dom (undo_logged (txn_entry t s)) = dirty_pages (txn_entry t s)"
    "dirty_pages (txn_entry t s) \<subseteq> D" "\<And>p. p \<in> D0 \<Longrightarrow> undone_ok t s0 s p"
    using inv by (simp_all add: txn_inv_def)
  show ?thesis
  proof (cases "bp_txns s t")
    case None
    then have "undo_logged (txn_entry t s) = Map.empty" by (simp add: txn_entry_def)
    with i None show ?thesis by (auto simp: abort_transaction_def undone_ok_def)
  next
    case (Some st)
    then have te: "txn_entry t s = st" by (simp add: txn_entry_def)
    have tx: "finite (dom (undo_logged st))" "\<And>p off. undo_logged st p = Some off \<Longrightarrow> \<exists>n. undo_at (bp_wal s) t p off n"
      using i(2) Some by (auto simp: txns_inv_def)
    define old where "old p = (SOME n. undo_at (bp_wal s) t p (the (undo_logged st p)) n)" for p
    have old: "p \<in> D \<and> undo_at (bp_wal s) t p off (old p)" if "undo_logged st p = Some off" for p off
      using that tx(2) [OF that] i(4,5) te unfolding old_def by (auto intro: someI_ex)
    have uniq: "n = m" if "undo_at (bp_wal s) t p off n" "undo_at (bp_wal s) t p off m" for p off n m
      using undo_at_read [OF that(1)] undo_at_read [OF that(2)] by auto
    have o: "set (order (dom (undo_logged st))) = dom (undo_logged st)" "distinct (order (dom (undo_logged st)))"
      using order_finite [OF ord tx(1)] by simp_all
    have c0: "page_content s0 p = Some (old p)" if "p \<in> D0" "p \<in> dom (undo_logged st)" for p
      using i(6) [OF that(1)] that(2) old uniq te by (fastforce simp: undone_ok_def)
    have c1: "page_content s p = page_content s0 p" if "p \<in> D0" "p \<notin> dom (undo_logged st)" for p
      using i(6) [OF that(1)] that(2) te by (auto simp: undone_ok_def domIff split: option.splits)
    show ?thesis
    proof (rule outcome_weaken [OF abort_transaction_spec [where old = old and order = order, OF i(1,2) Some old o]])
      fix u s'
      assume a: "pool_inv D (F - dom (undo_logged st)) s' \<and> bp_txns s' = (bp_txns s)(t := None) \<and>
        (\<forall>p \<in> dom (undo_logged st). page_content s' p = Some (old p)) \<and>
        (\<forall>q \<in> D - dom (undo_logged st). page_content s' q = page_content s q)"
      have "page_content s' p = page_content s0 p" if p: "p \<in> D0" for p
      proof (cases "p \<in> dom (undo_logged st)")
        case True
        then have "page_content s' p = Some (old p)" using a by blast
        then show ?thesis using c0 [OF p True] by simp
      next
        case False
        then have "p \<in> D - dom (undo_logged st)" using p i(3) by blast
        then have "page_content s' p = page_content s p" using a by blast
        then show ?thesis using c1 [OF p False] by simp
      qed
      with a i(4) te show "bp_txns s' t = None \<and> (\<forall>p \<in> D0. page_content s' p = page_content s0 p) \<and>
        pool_inv D (F - dirty_pages (txn_entry t s)) s'" by simp
    qed auto
  qed
qed

text \<open>The log of a running transaction, replayed after a crash of the process.\<close>

lemma untouched_on_disk:
  assumes inv: "txn_inv t D0 s0 D F s" and p: "p \<in> D0" "undo_logged (txn_entry t s) p = None"
    and clean: "\<not> is_dirty_in s0 p"
  shows "\<exists>n. on_disk (bp_disk s) p n \<and> page_content s0 p = Some n"
proof -
  have u: "page_content s p = page_content s0 p" "\<not> is_dirty_in s p" "p \<in> D" "p \<notin> F" "pages_inv D F s"
    using inv p clean by (auto simp: txn_inv_def undone_ok_def pool_inv_def split: option.splits)
  show ?thesis
  proof (cases "bp_table s p")
    case None
    then obtain n where "on_disk (bp_disk s) p n" "reloaded n = n" using pages_invD(1) [OF u(5,3)] by blast
    with None u(1) show ?thesis using content_uncached [of s p n] by auto
  next
    case (Some n)
    then have "on_disk (bp_disk s) p (reloaded n)"
      using pages_invD(2) [OF u(5,3) Some] u(2,4) by (simp add: is_dirty_in_iff)
    with Some u(1) show ?thesis using content_cached [of s p n] by auto
  qed
qed

lemma committed_undo_log [simp]: "committed_ids (undo_log t us) = {}"
  by (auto simp: committed_ids_iff undo_log_def)

lemma undo_log_wf:
  assumes "\<forall>(p, img) \<in> set us. length img = PAGE_SIZE" "\<forall>p \<in> fst ` set us. aligned p" "r \<in> set (undo_log t us)"
  shows "record_wf r \<and> record_aligned r"
  using assms by (force simp: undo_log_def)


text \<open>
  A committed transaction survives a crash at any later moment at which the log is still there:
  recovery works from the log and the file alone, whatever header the file has.
\<close>

lemma committed_txn_recovered:
  assumes r: "txn_reach t D0 s0 D F s" and s0: "pool_inv D0 {} s0" "txns_inv s0" "bp_txns s0 t = None"
    and fresh: "wal_file (bp_wal s0) = []" "\<forall>p \<in> D0. \<not> is_dirty_in s0 p"
    and st: "bp_txns s t = Some st" and cached: "dirty_pages st \<subseteq> dom (bp_table s)" and ord: "order_ok order"
  shows "\<exists>s'. commit_transaction order t s = ret () s' \<and> bp_disk s' = bp_disk s \<and>
    (\<forall>d0. dm_file d0 = dm_file (bp_disk s) \<longrightarrow>
      (\<exists>w d. recovery_init (wal_file (bp_wal s')) d0 = Ok (w, d) \<and> wal_file w = [] \<and> dm_header d = dm_header d0 \<and>
        (\<forall>p \<in> D0 \<union> dirty_pages st. aligned p \<and> (\<exists>n. on_disk d p n \<and> page_content s p = Some n))))"
proof -
  have inv: "txn_inv t D0 s0 D F s" by (rule txn_reach_inv [OF r s0])
  have te: "txn_entry t s = st" using st by (simp add: txn_entry_def)
  obtain us where us: "wal_file (bp_wal s) = log_bytes (undo_log t us)" "fst ` set us = dirty_pages st"
    and img0: "\<forall>(p, img) \<in> set us. length img = PAGE_SIZE"
  proof -
    have "undo_log_ok t D0 s0 s" using inv by (simp add: txn_inv_def)
    then obtain us where "wal_file (bp_wal s) = wal_file (bp_wal s0) @ log_bytes (undo_log t us)"
      "fst ` set us = dirty_pages (txn_entry t s)"
      "\<forall>(p, img) \<in> set us. length img = PAGE_SIZE \<and> (p \<in> D0 \<longrightarrow> (\<exists>n. decode img = Ok n \<and> page_content s0 p = Some n))"
      unfolding undo_log_ok_def by blast
    then show thesis using that [of us] fresh(1) te by auto
  qed
  have D: "dirty_pages st \<subseteq> D" "dom (undo_logged st) = dirty_pages st" "pool_inv D F s" "pages_inv D F s" "D0 \<subseteq> D" "txns_inv s"
    using inv te by (simp_all add: txn_inv_def pool_inv_def)
  have al: "aligned p" if "p \<in> D" for p using pages_invD(3) [OF D(4) that] .
  have fin: "finite (dirty_pages st)" using D(2,6) st by (auto simp: txns_inv_def)
  have o: "set (order (dirty_pages st)) = dirty_pages st" using order_finite [OF ord fin] by simp
  obtain img where img: "\<forall>p \<in> dom (bp_table s). length (img p) = PAGE_SIZE \<and>
      (\<exists>n. page_content s p = Some n \<and> decode (img p) = Ok n)"
    and cs: "outcome (commit_transaction order t s)
      (\<lambda>_ s'. pool_inv D F s' \<and> bp_txns s' = (bp_txns s)(t := None) \<and> bp_table s' = bp_table s \<and> bp_disk s' = bp_disk s \<and>
         (\<forall>p. page_content s' p = page_content s p) \<and>
         wal_file (bp_wal s') = wal_file (bp_wal s) @
           log_bytes (map (\<lambda>p. Redo p t (img p)) (filter (\<lambda>p. p \<in> dom (bp_table s)) (order (dirty_pages st))) @ [Commit t]) \<and>
         wal_flushed (bp_wal s') = of_nat (length (wal_file (bp_wal s'))))
      (\<lambda>_ _. False)"
    using commit_transaction_spec [OF D(3) st, of order] by blast
  have cm: "outcome (commit_transaction order t s)
      (\<lambda>_ s'. wal_file (bp_wal s') = wal_file (bp_wal s) @
           log_bytes (map (\<lambda>p. Redo p t (img p)) (filter (\<lambda>p. p \<in> dom (bp_table s)) (order (dirty_pages st))) @ [Commit t]) \<and>
         bp_disk s' = bp_disk s) (\<lambda>_ _. False)"
    by (rule outcome_weaken [OF cs]) simp_all
  have flt: "filter (\<lambda>p. p \<in> dom (bp_table s)) (order (dirty_pages st)) = order (dirty_pages st)"
    using cached o by (intro filter_True) auto
  define rs where "rs = undo_log t us @ map (\<lambda>p. Redo p t (img p)) (order (dirty_pages st)) @ [Commit t]"
  from cm obtain s' where s': "commit_transaction order t s = ret () s'" "wal_file (bp_wal s') = log_bytes rs" "bp_disk s' = bp_disk s"
    unfolding flt us(1) rs_def
    by (elim outcome_total) auto
  have C: "committed_ids rs = {t}" by (auto simp: committed_ids_iff rs_def undo_log_def)
  have wf: "record_wf x \<and> record_aligned x" if "x \<in> set rs" for x
    using that undo_log_wf [OF img0, of x t] al us(2) D(1) img cached o by (auto simp: rs_def)
  have "\<exists>w d. recovery_init (log_bytes rs) d0 = Ok (w, d) \<and> wal_file w = [] \<and> dm_header d = dm_header d0 \<and>
      (\<forall>p \<in> D0 \<union> dirty_pages st. aligned p \<and> (\<exists>n. on_disk d p n \<and> page_content s p = Some n))"
    if d0: "dm_file d0 = dm_file (bp_disk s)" for d0
  proof -
    have rd: "read_page p d0 = read_page p (bp_disk s)" for p using d0 by (simp add: read_page_def)
    obtain w d where rc: "recovery_init (log_bytes rs) d0 = Ok (w, d)" "wal_file w = []" "dm_header d = dm_header d0"
      and pg: "\<And>p. aligned p \<Longrightarrow> case List.find (restores {t} p) (rev rs) of
          Some r \<Rightarrow> read_page p d = Ok (record_page r)
        | None \<Rightarrow> \<forall>page. read_page p (bp_disk s) = Ok page \<longrightarrow> read_page p d = Ok page"
      using recovery_init_spec [of rs d0, unfolded rd C] wf by auto
    have res: "restores {t} p x \<and> x \<in> set (rev rs) \<longleftrightarrow> p \<in> dirty_pages st \<and> x = Redo p t (img p)" for p x
    proof -
      have "set rs = (\<lambda>(q, im). Undo q t im) ` set us \<union> (\<lambda>q. Redo q t (img q)) ` dirty_pages st \<union> {Commit t}"
        using o by (simp add: rs_def undo_log_def Un_assoc)
      then show ?thesis unfolding restores_iff set_rev by auto
    qed
    have "\<exists>n. on_disk d p n \<and> page_content s p = Some n" if p: "p \<in> D0 \<union> dirty_pages st" for p
    proof (cases "p \<in> dirty_pages st")
      case True
      then have "List.find (restores {t} p) (rev rs) = Some (Redo p t (img p))"
        by (intro find_unique) (simp_all only: res)
      with pg [of p] al True D(1) have "read_page p d = Ok (img p)" by auto
      with True cached img show ?thesis by (auto simp: on_disk_def)
    next
      case False
      then have "List.find (restores {t} p) (rev rs) = None" using res unfolding find_None_iff by blast
      moreover have "aligned p" using al p False D(5) by blast
      ultimately have "\<forall>page. read_page p (bp_disk s) = Ok page \<longrightarrow> read_page p d = Ok page" using pg [of p] by simp
      then have keep: "on_disk (bp_disk s) p n \<Longrightarrow> on_disk d p n" for n
        by (auto simp: on_disk_def res_bind_eq_Ok)
      have p0: "p \<in> D0" "undo_logged (txn_entry t s) p = None" using p False D(2) te by auto
      then have "page_content s p = page_content s0 p" using inv by (auto simp: txn_inv_def undone_ok_def)
      with untouched_on_disk [OF inv p0] fresh(2) p0 keep show ?thesis by auto
    qed
    moreover have "aligned p" if "p \<in> D0 \<union> dirty_pages st" for p using al that D(1,5) by blast
    ultimately show ?thesis using rc by auto
  qed
  with s' show ?thesis by auto
qed

text \<open>
  C1: Durability: a transaction runs over a pool that starts clean with an empty log, and is
  committed while its pages are cached. Whatever the pool has written back in between, recovery
  from the log and the file left at the commit makes every page of the database and of the
  transaction decode to its content at the commit.
\<close>

lemma recovery_of_committed_txn:
  assumes r: "txn_reach t D0 s0 D F s" and s0: "pool_inv D0 {} s0" "txns_inv s0" "bp_txns s0 t = None"
    and fresh: "wal_file (bp_wal s0) = []" "\<forall>p \<in> D0. \<not> is_dirty_in s0 p"
    and st: "bp_txns s t = Some st" and cached: "dirty_pages st \<subseteq> dom (bp_table s)" and ord: "order_ok order"
  shows "\<exists>s' w d. commit_transaction order t s = ret () s' \<and>
    recovery_init (wal_file (bp_wal s')) (bp_disk s') = Ok (w, d) \<and> wal_file w = [] \<and>
    (\<forall>p \<in> D0 \<union> dirty_pages st. \<exists>n. on_disk d p n \<and> page_content s p = Some n)"
proof -
  from committed_txn_recovered [OF assms] obtain s' where s': "commit_transaction order t s = ret () s'"
    and rc: "\<exists>w d. recovery_init (wal_file (bp_wal s')) (bp_disk s') = Ok (w, d) \<and> wal_file w = [] \<and> dm_header d = dm_header (bp_disk s') \<and>
        (\<forall>p \<in> D0 \<union> dirty_pages st. aligned p \<and> (\<exists>n. on_disk d p n \<and> page_content s p = Some n))"
    by metis
  then show ?thesis by blast
qed

text \<open>
  C33: A page of a transaction that was evicted before the commit gets no redo record: when the
  log holds an older committed image of the page, recovery after the commit puts that older
  image back.
\<close>

lemma stolen_page_loses_commit:
  assumes log: "wal_file (bp_wal s) = log_bytes [Undo p 1 x, Redo p 1 a, Commit 1, Undo p 2 a]"
    and pages: "length x = PAGE_SIZE" "length a = PAGE_SIZE" "aligned p"
    and st: "bp_txns s 2 = Some st" "dirty_pages st = {p}" "bp_table s p = None" "order {p} = [p]"
  shows "\<exists>s' w d. commit_transaction order 2 s = ret () s' \<and>
    recovery_init (wal_file (bp_wal s')) (bp_disk s') = Ok (w, d) \<and> read_page p d = Ok a"
proof -
  let ?rs = "[Undo p 1 x, Redo p 1 a, Commit 1, Undo p 2 a, Commit 2]"
  obtain s' where s': "commit_transaction order 2 s = ret () s'" "wal_file (bp_wal s') = log_bytes ?rs"
    using st log by (auto simp: commit_transaction_def wal_sync_def wal_file_write_batch modify_def ret_def log_bytes_def)
  have wf: "\<forall>r \<in> set ?rs. record_wf r \<and> record_aligned r" using pages by simp
  have f: "List.find (restores (committed_ids ?rs) p) (rev ?rs) = Some (Redo p 1 a)" by simp
  from recovery_init_spec [OF wf, of "bp_disk s'"] pages(3) obtain w d where
    "recovery_init (log_bytes ?rs) (bp_disk s') = Ok (w, d)"
    "case List.find (restores (committed_ids ?rs) p) (rev ?rs) of
        Some r \<Rightarrow> read_page p d = Ok (record_page r)
      | None \<Rightarrow> \<forall>page. read_page p (bp_disk s') = Ok page \<longrightarrow> read_page p d = Ok page" by blast
  with f s' show ?thesis by auto
qed

end
