(* ===== verification/BpTree.thy ===== *)
theory BpTree
  imports Transaction
begin

text \<open>
  The B+ tree of src/src/storage/bptree.rs over the buffer pool: descents, point lookups,
  inserts with leaf, internal and root splits, updates and logical deletes.

  A descent is a loop over child pointers and is modelled as a partial function: on a cycle
  of pages it would not return. \<open>pins\<close> are the pages whose frames the caller holds; each
  call adds the frames it holds itself. A frame that is held under a write guard is written
  through to the page table at once. Where the code would lock such a frame a second time
  it deadlocks, which is the call \<open>deadlock\<close>.
\<close>

section \<open>Descents\<close>

definition deadlock :: "(pool, 'a) call" where "deadlock s = None"

partial_function (option) descend ::
    "page_id set \<Rightarrow> (internal_node \<Rightarrow> page_id res) \<Rightarrow> page_id \<Rightarrow> (pool, page_id \<times> leaf_node) call" where
  "descend pins next p s =
     seq (fetch_page pins p) (\<lambda>n s. case n of
       Internal m \<Rightarrow> seq (lift (next m)) (\<lambda>c s. descend pins next c s) s
     | Leaf l \<Rightarrow> ret (p, l) s) s"

declare descend.simps [code]

definition leftmost_child :: "internal_node \<Rightarrow> page_id res" where
  "leftmost_child m =
     (if in_slots m \<noteq> [] then
        res_bind (vec_get (in_slots m) 0) (\<lambda>s. res_bind (slot_entry m s) (\<lambda>e. Ok (ie_child e)))
      else Ok (in_rightmost m))"

definition get_max_row_id :: "page_id set \<Rightarrow> page_id \<Rightarrow> (pool, u64) call" where
  "get_max_row_id pins root =
     seq (descend pins (\<lambda>m. Ok (in_rightmost m)) root) (\<lambda>(_, l).
       if lf_slots l = [] then ret 0
       else lift (res_bind (slot_cell l (last (lf_slots l))) (\<lambda>r. Ok (row_id r))))"

definition get_leftmost_leaf :: "page_id set \<Rightarrow> page_id \<Rightarrow> (pool, page_id) call" where
  "get_leftmost_leaf pins root = seq (descend pins leftmost_child root) (\<lambda>(p, _). ret p)"

definition get_leaf_and_slot :: "page_id set \<Rightarrow> page_id \<Rightarrow> u64 \<Rightarrow> (pool, page_id \<times> nat) call" where
  "get_leaf_and_slot pins root k =
     seq (descend pins (route_key k) root) (\<lambda>(p, l).
       lift (res_bind (leaf_find k l) (\<lambda>f. Ok (p, case f of Inl i \<Rightarrow> i | Inr i \<Rightarrow> i))))"

definition find_record :: "page_id set \<Rightarrow> page_id \<Rightarrow> u64 \<Rightarrow> (pool, u8 list option) call" where
  "find_record pins root k = seq (descend pins (route_key k) root) (\<lambda>(_, l). lift (get_record k l))"

definition bt_delete_record :: "page_id set \<Rightarrow> page_id \<Rightarrow> u64 \<Rightarrow> u64 \<Rightarrow> (pool, unit) call" where
  "bt_delete_record pins root k t =
     seq (descend pins (route_key k) root) (\<lambda>(p, _).
     seq (begin_page_mutation pins p t) (\<lambda>_.
     seq (fetch_page pins p) (\<lambda>n. case n of
       Internal _ \<Rightarrow> panic
     | Leaf l \<Rightarrow> seq (lift (delete_record k l)) (\<lambda>l'. write_frame p (mark_dirty (Leaf l'))))))"

section \<open>Splits\<close>

text \<open>\<open>SplitResult\<close>: the promoted key and the new right page.\<close>

type_synonym split_result = "u64 \<times> page_id"

definition split_root :: "page_id set \<Rightarrow> page_id \<Rightarrow> u64 \<Rightarrow> page_id \<Rightarrow> u64 \<Rightarrow> (pool, unit) call" where
  "split_root pins root promoted right t =
     seq (begin_page_mutation pins root t) (\<lambda>_.
     seq (fetch_page pins root) (\<lambda>rn.
     let is_leaf = (case rn of Leaf _ \<Rightarrow> True | Internal _ \<Rightarrow> False) in
     seq (new_page (insert root pins) is_leaf) (\<lambda>left.
     seq (begin_page_mutation (insert left (insert root pins)) left t) (\<lambda>_.
     seq (write_frame left (mark_dirty (case rn of
            Leaf l \<Rightarrow> Leaf (l\<lparr>lf_page_id := left\<rparr>) | Internal m \<Rightarrow> Internal (m\<lparr>in_page_id := left\<rparr>)))) (\<lambda>_.
     seq (if is_leaf then
            (if right \<in> {root, left} then deadlock
             else seq (begin_page_mutation (insert left (insert root pins)) right t) (\<lambda>_.
                  seq (fetch_page (insert left (insert root pins)) right) (\<lambda>n. case n of
                    Leaf r \<Rightarrow> write_frame right (mark_dirty (Leaf (r\<lparr>lf_prev := left\<rparr>)))
                  | Internal _ \<Rightarrow> ret ())))
          else ret ()) (\<lambda>_.
     seq (lift (internal_compact \<lparr>in_page_id = root, in_rightmost = right, in_slots = [0],
            in_entries = [\<lparr>ie_key = promoted, ie_child = left\<rparr>], in_free = 0, in_dirty = False,
            in_wal_offset = 0\<rparr>)) (\<lambda>m.
     write_frame root (mark_dirty (Internal m)))))))))"

definition split_internal ::
    "page_id set \<Rightarrow> page_id \<Rightarrow> internal_node \<Rightarrow> u64 \<Rightarrow> page_id \<Rightarrow> u64 \<Rightarrow> (pool, split_result option) call" where
  "split_internal pins parent m promoted child t =
     seq (new_page (insert parent pins) False) (\<lambda>right.
     seq (begin_page_mutation (insert right (insert parent pins)) right t) (\<lambda>_.
     seq (read_frame right) (\<lambda>rn. case rn of
       Leaf _ \<Rightarrow> panic
     | Internal r \<Rightarrow>
         seq (lift (internal_split m r)) (\<lambda>(new_promoted, m2, r2).
         seq (write_frame parent (Internal m2)) (\<lambda>_.
         seq (write_frame right (Internal r2)) (\<lambda>_.
         seq (if promoted < new_promoted then
                seq (lift (insert_entry promoted child m2)) (\<lambda>m3. ret (m3, r2))
              else seq (lift (insert_entry promoted child r2)) (\<lambda>r3. ret (m2, r3))) (\<lambda>(m3, r3).
         seq (write_frame parent (mark_dirty (Internal m3))) (\<lambda>_.
         seq (write_frame right (mark_dirty (Internal r3))) (\<lambda>_.
         ret (Some (new_promoted, right)))))))))))"

definition insert_internal ::
    "page_id set \<Rightarrow> page_id \<Rightarrow> u64 \<Rightarrow> page_id \<Rightarrow> u64 \<Rightarrow> (pool, split_result option) call" where
  "insert_internal pins parent promoted child t =
     seq (begin_page_mutation pins parent t) (\<lambda>_.
     seq (fetch_page pins parent) (\<lambda>n. case n of
       Leaf _ \<Rightarrow> fail (CorruptPage ''expected internal node during upward key propagation'')
     | Internal m \<Rightarrow>
         (case insert_entry promoted child m of
            Ok m' \<Rightarrow> seq (write_frame parent (mark_dirty (Internal m'))) (\<lambda>_. ret None)
          | Panic \<Rightarrow> panic
          | Err e \<Rightarrow>
              if e = PageFull then
                seq (lift (internal_compact m)) (\<lambda>mc.
                seq (write_frame parent (Internal mc)) (\<lambda>_.
                case insert_entry promoted child mc of
                  Ok m' \<Rightarrow> seq (write_frame parent (mark_dirty (Internal m'))) (\<lambda>_. ret None)
                | Panic \<Rightarrow> panic
                | Err _ \<Rightarrow> split_internal pins parent mc promoted child t))
              else fail e)))"

text \<open>Connecting the old right sibling of a split leaf to the new page.\<close>

definition relink_next ::
    "page_id set \<Rightarrow> page_id \<Rightarrow> page_id \<Rightarrow> page_id \<Rightarrow> u64 \<Rightarrow> (pool, unit) call" where
  "relink_next pins leaf right old_next t =
     (if old_next \<in> {leaf, right} then deadlock
      else seq (begin_page_mutation (insert right (insert leaf pins)) old_next t) (\<lambda>_.
           seq (fetch_page (insert right (insert leaf pins)) old_next) (\<lambda>n. case n of
             Leaf nl \<Rightarrow> write_frame old_next (mark_dirty (Leaf (nl\<lparr>lf_has_prev := True, lf_prev := right\<rparr>)))
           | Internal _ \<Rightarrow> ret ())))"

definition split_leaf ::
    "page_id set \<Rightarrow> page_id \<Rightarrow> leaf_node \<Rightarrow> u64 \<Rightarrow> u8 list \<Rightarrow> u64 \<Rightarrow> (pool, split_result option) call" where
  "split_leaf pins leaf l k payload t =
     seq (new_page (insert leaf pins) True) (\<lambda>right.
     seq (begin_page_mutation (insert right (insert leaf pins)) right t) (\<lambda>_.
     seq (read_frame right) (\<lambda>rn. case rn of
       Internal _ \<Rightarrow> panic
     | Leaf r \<Rightarrow>
         seq (lift (leaf_split l r)) (\<lambda>(res, l2, r2).
         seq (write_frame leaf (Leaf l2)) (\<lambda>_.
         seq (write_frame right (Leaf r2)) (\<lambda>_.
         seq (lift res) (\<lambda>promoted.
         seq (if k < promoted then seq (lift (insert_record k payload l2)) (\<lambda>l3. ret (l3, r2))
              else seq (lift (insert_record k payload r2)) (\<lambda>r3. ret (l2, r3))) (\<lambda>(l3, r3).
         let r4 = r3\<lparr>lf_has_prev := True, lf_prev := leaf, lf_has_next := lf_has_next l3,
                    lf_next := lf_next l3\<rparr>;
             l4 = l3\<lparr>lf_has_next := True, lf_next := right\<rparr> in
         seq (write_frame leaf (Leaf l4)) (\<lambda>_.
         seq (write_frame right (Leaf r4)) (\<lambda>_.
         seq (if lf_has_next l3 then relink_next pins leaf right (lf_next l3) t else ret ()) (\<lambda>_.
         seq (write_frame leaf (mark_dirty (Leaf l4))) (\<lambda>_.
         seq (write_frame right (mark_dirty (Leaf r4))) (\<lambda>_.
         ret (Some (promoted, right)))))))))))))))"

definition insert_leaf ::
    "page_id set \<Rightarrow> page_id \<Rightarrow> u64 \<Rightarrow> u8 list \<Rightarrow> u64 \<Rightarrow> (pool, split_result option) call" where
  "insert_leaf pins leaf k payload t =
     seq (begin_page_mutation pins leaf t) (\<lambda>_.
     seq (fetch_page pins leaf) (\<lambda>n. case n of
       Internal _ \<Rightarrow> fail (CorruptPage ''attempted to insert data on a internal routing node'')
     | Leaf l \<Rightarrow>
         (case insert_record k payload l of
            Ok l' \<Rightarrow> seq (write_frame leaf (mark_dirty (Leaf l'))) (\<lambda>_. ret None)
          | Panic \<Rightarrow> panic
          | Err e \<Rightarrow>
              if e = PageFull then
                seq (lift (leaf_compact l)) (\<lambda>lc.
                seq (write_frame leaf (Leaf lc)) (\<lambda>_.
                case insert_record k payload lc of
                  Ok l' \<Rightarrow> seq (write_frame leaf (mark_dirty (Leaf l'))) (\<lambda>_. ret None)
                | Panic \<Rightarrow> panic
                | Err _ \<Rightarrow> split_leaf pins leaf lc k payload t))
              else fail e)))"

section \<open>Inserting and updating\<close>

partial_function (option) descend_path ::
    "page_id set \<Rightarrow> u64 \<Rightarrow> page_id list \<Rightarrow> page_id \<Rightarrow> (pool, page_id list \<times> page_id) call" where
  "descend_path pins k parents p s =
     seq (fetch_page pins p) (\<lambda>n s. case n of
       Internal m \<Rightarrow> seq (lift (route_key k m)) (\<lambda>c s. descend_path pins k (p # parents) c s) s
     | Leaf l \<Rightarrow> ret (parents, p) s) s"

text \<open>The loop that pops the path stack while there is a split to report.\<close>

fun propagate ::
    "page_id set \<Rightarrow> page_id \<Rightarrow> u64 \<Rightarrow> page_id list \<Rightarrow> split_result option \<Rightarrow> (pool, unit) call" where
  "propagate pins root t parents None = ret ()"
| "propagate pins root t [] (Some (promoted, right)) = split_root pins root promoted right t"
| "propagate pins root t (parent # parents) (Some (promoted, right)) =
     seq (insert_internal pins parent promoted right t) (propagate pins root t parents)"

definition bt_insert ::
    "page_id set \<Rightarrow> page_id \<Rightarrow> u64 \<Rightarrow> u8 list \<Rightarrow> u64 \<Rightarrow> (pool, unit) call" where
  "bt_insert pins root k payload t =
     seq (descend_path pins k [] root) (\<lambda>(parents, leaf).
     seq (insert_leaf pins leaf k payload t) (propagate pins root t parents))"

definition bt_update ::
    "page_id set \<Rightarrow> page_id \<Rightarrow> u64 \<Rightarrow> u8 list \<Rightarrow> u64 \<Rightarrow> (pool, unit) call" where
  "bt_update pins root k payload t =
     seq (descend pins (route_key k) root) (\<lambda>(p, _).
     seq (begin_page_mutation pins p t) (\<lambda>_.
     seq (fetch_page pins p) (\<lambda>n. case n of
       Internal _ \<Rightarrow> panic
     | Leaf l \<Rightarrow>
         (case update_record k payload l of
            Ok l' \<Rightarrow> write_frame p (mark_dirty (Leaf l'))
          | Panic \<Rightarrow> panic
          | Err e \<Rightarrow>
              if e = PageFull then
                seq (lift (delete_record k l)) (\<lambda>l'.
                seq (write_frame p (mark_dirty (Leaf l'))) (\<lambda>_.
                bt_insert (insert p pins) root k payload t))
              else fail e))))"

section \<open>What a tree stores\<close>

text \<open>
  The contents of the allocated pages, and the row that routing finds for a key in a tree of
  height \<open>h\<close>. The outer option is \<open>None\<close> when the pages do not form such a tree; the inner
  one when the key has no live row. \<open>leaf_of\<close> is the leaf the key is routed to.
\<close>

definition db :: "page_id set \<Rightarrow> pool \<Rightarrow> page_id \<Rightarrow> btree_node option" where
  "db D s p = (if p \<in> D then page_content s p else None)"

fun leaf_of :: "(page_id \<Rightarrow> btree_node option) \<Rightarrow> nat \<Rightarrow> page_id \<Rightarrow> u64 \<Rightarrow> (page_id \<times> leaf_node) option" where
  "leaf_of c 0 p k = (case c p of Some (Leaf l) \<Rightarrow> Some (p, l) | _ \<Rightarrow> None)"
| "leaf_of c (Suc h) p k = (case c p of
     Some (Internal n) \<Rightarrow> leaf_of c h (route_list (in_list n) (in_rightmost n) k) k | _ \<Rightarrow> None)"

definition tree_get :: "(page_id \<Rightarrow> btree_node option) \<Rightarrow> nat \<Rightarrow> page_id \<Rightarrow> u64 \<Rightarrow> u8 list option option" where
  "tree_get c h p k = (case leaf_of c h p k of Some (q, l) \<Rightarrow> Some (leaf_map l k) | None \<Rightarrow> None)"

lemma leaf_of_page: "leaf_of c h p k = Some (q, l) \<Longrightarrow> c q = Some (Leaf l)"
  by (induction h arbitrary: p) (auto split: option.splits btree_node.splits)

text \<open>Overwriting one leaf changes the tree only for the keys routed to that leaf.\<close>

lemma leaf_of_store:
  assumes "c q = Some (Leaf l)"
  shows "leaf_of (c(q \<mapsto> Leaf l')) h p k = (case leaf_of c h p k of
     None \<Rightarrow> None | Some (q', l'') \<Rightarrow> Some (q', if q' = q then l' else l''))"
  using assms
proof (induction h arbitrary: p)
  case 0
  then show ?case by (auto split: option.splits btree_node.splits)
next
  case (Suc h)
  show ?case
  proof (cases "p = q")
    case True
    with Suc.prems show ?thesis by simp
  next
    case False
    with Suc show ?thesis by (simp split: option.split btree_node.split)
  qed
qed

lemma tree_get_store:
  assumes q: "leaf_of c h p k = Some (q, l)" and m: "leaf_map l' = (leaf_map l)(k := x)"
  shows "tree_get (c(q \<mapsto> Leaf l')) h p k' = (if k' = k then Some x else tree_get c h p k')"
proof -
  note st = leaf_of_store [where c = c and q = q and l = l and l' = l' and h = h and p = p, OF leaf_of_page [OF q]]
  show ?thesis
  proof (cases "k' = k")
    case True
    then show ?thesis using q m by (simp add: tree_get_def st)
  next
    case False
    then show ?thesis
    proof (cases "leaf_of c h p k'")
      case None
      then show ?thesis using False by (simp add: tree_get_def st)
    next
      case (Some r)
      obtain q' l'' where r: "r = (q', l'')" by (cases r)
      have "leaf_map l' k' = leaf_map l'' k'" if "q' = q"
        using that leaf_of_page [OF q] leaf_of_page [OF Some [unfolded r]] False m by simp
      then show ?thesis using Some r False by (simp add: tree_get_def st)
    qed
  qed
qed

lemma reloaded_cases:
  "reloaded n = Internal m \<Longrightarrow> \<exists>m'. n = Internal m' \<and> in_list m' = in_list m \<and> in_rightmost m' = in_rightmost m"
  "reloaded n = Leaf l \<Longrightarrow> \<exists>l'. n = Leaf l' \<and> leaf_cells l' = leaf_cells l \<and> leaf_map l' = leaf_map l \<and> l = reloaded_leaf l'"
  by (cases n; auto simp: reloaded_internal_def in_list_def reloaded_leaf_def leaf_cells_def leaf_map_def)+

lemma route_key_wf: "internal_wf m \<Longrightarrow> route_key k m = Ok (route_list (in_list m) (in_rightmost m) k)"
  by (rule route_key_list)

text \<open>A descent by any rule for the next child ends, and ends at the leaf the rule leads to.\<close>

fun walk :: "(page_id \<Rightarrow> btree_node option) \<Rightarrow> (internal_node \<Rightarrow> page_id) \<Rightarrow> nat \<Rightarrow> page_id \<Rightarrow> (page_id \<times> leaf_node) option" where
  "walk c g 0 p = (case c p of Some (Leaf l) \<Rightarrow> Some (p, l) | _ \<Rightarrow> None)"
| "walk c g (Suc h) p = (case c p of Some (Internal n) \<Rightarrow> walk c g h (g n) | _ \<Rightarrow> None)"

lemma leaf_of_walk: "leaf_of c h p k = walk c (\<lambda>n. route_list (in_list n) (in_rightmost n) k) h p"
  by (induction h arbitrary: p) (simp_all split: option.split btree_node.split)

lemma descend_walk:
  assumes "walk (db D s) g h p = Some (q, l)" "pool_inv D F s" "F \<subseteq> pins"
    and g: "\<And>m m'. internal_wf m' \<Longrightarrow> in_list m' = in_list m \<Longrightarrow> in_rightmost m' = in_rightmost m \<Longrightarrow> next m' = Ok (g m)"
  shows "outcome (descend pins next p s)
    (\<lambda>(q', l') s'. q' = q \<and> l = reloaded_leaf l' \<and> bp_table s' q = Some (Leaf l') \<and> pool_inv D F s' \<and> quiet D pins s s')
    (\<lambda>e s'. e = LruEviction \<and> pins \<noteq> {} \<and> pool_inv D F s' \<and> quiet D pins s s')"
  using assms(1,2)
proof (induction h arbitrary: p s)
  case 0
  then have p: "p \<in> D" "page_content s p = Some (Leaf l)" "q = p"
    by (auto simp: db_def split: option.splits btree_node.splits if_splits)
  show ?case
    unfolding descend.simps [of pins _ p s]
  proof (rule outcome_seqI)
    show "outcome (fetch_page pins p s)
      (\<lambda>n s'. pool_inv D F s' \<and> quiet D pins s s' \<and> bp_table s' p = Some n)
      (\<lambda>e s'. e = LruEviction \<and> pins \<noteq> {} \<and> pool_inv D F s' \<and> quiet D pins s s')"
      using fetch_page_pins [OF 0(2) assms(3) p(1)] by (rule outcome_weaken) auto
    fix n s1 assume r: "pool_inv D F s1 \<and> quiet D pins s s1 \<and> bp_table s1 p = Some n"
    then have "reloaded n = Leaf l" using p content_cached [of s1 p n] by (auto simp: quiet_def)
    then obtain l' where "n = Leaf l'" "l = reloaded_leaf l'" using reloaded_cases(2) by blast
    then show "outcome (case n of
       Internal m \<Rightarrow> seq (lift (next m)) (\<lambda>c s. descend pins next c s) s1
     | Leaf l \<Rightarrow> ret (p, l) s1)
      (\<lambda>(q', l') s'. q' = q \<and> l = reloaded_leaf l' \<and> bp_table s' q = Some (Leaf l') \<and> pool_inv D F s' \<and> quiet D pins s s')
      (\<lambda>e s'. e = LruEviction \<and> pins \<noteq> {} \<and> pool_inv D F s' \<and> quiet D pins s s')"
      using r p by simp
  qed
next
  case (Suc h)
  then obtain m where dp: "db D s p = Some (Internal m)" and lf: "walk (db D s) g h (g m) = Some (q, l)"
    by (auto split: option.splits btree_node.splits)
  have p: "p \<in> D" "page_content s p = Some (Internal m)" using dp by (auto simp: db_def split: if_splits)
  show ?case
    unfolding descend.simps [of pins _ p s]
  proof (rule outcome_seqI)
    show "outcome (fetch_page pins p s)
      (\<lambda>n s'. pool_inv D F s' \<and> quiet D pins s s' \<and> bp_table s' p = Some n)
      (\<lambda>e s'. e = LruEviction \<and> pins \<noteq> {} \<and> pool_inv D F s' \<and> quiet D pins s s')"
      using fetch_page_pins [OF Suc.prems(2) assms(3) p(1)] by (rule outcome_weaken) auto
    fix n s1 assume r: "pool_inv D F s1 \<and> quiet D pins s s1 \<and> bp_table s1 p = Some n"
    then have "reloaded n = Internal m" using p content_cached [of s1 p n] by (auto simp: quiet_def)
    then obtain m' where m': "n = Internal m'" "in_list m' = in_list m" "in_rightmost m' = in_rightmost m"
      using reloaded_cases(1) by blast
    have "node_wf n" using r p(1) pages_invD(2) [of D F s1 p n] by (simp add: pool_inv_def)
    then have rk: "next m' = Ok (g m)" using g m' by simp
    have "db D s1 = db D s" using r by (auto simp: db_def quiet_def)
    with Suc.IH [of s1] lf r have "outcome (descend pins next (g m) s1)
      (\<lambda>(q', l') s'. q' = q \<and> l = reloaded_leaf l' \<and> bp_table s' q = Some (Leaf l') \<and> pool_inv D F s' \<and> quiet D pins s1 s')
      (\<lambda>e s'. e = LruEviction \<and> pins \<noteq> {} \<and> pool_inv D F s' \<and> quiet D pins s1 s')" by simp
    then have "outcome (descend pins next (g m) s1)
      (\<lambda>(q', l') s'. q' = q \<and> l = reloaded_leaf l' \<and> bp_table s' q = Some (Leaf l') \<and> pool_inv D F s' \<and> quiet D pins s s')
      (\<lambda>e s'. e = LruEviction \<and> pins \<noteq> {} \<and> pool_inv D F s' \<and> quiet D pins s s')"
      by (rule outcome_weaken) (use r quiet_trans in blast)+
    then show "outcome (case n of
       Internal m \<Rightarrow> seq (lift (next m)) (\<lambda>c s. descend pins next c s) s1
     | Leaf l \<Rightarrow> ret (p, l) s1)
      (\<lambda>(q', l') s'. q' = q \<and> l = reloaded_leaf l' \<and> bp_table s' q = Some (Leaf l') \<and> pool_inv D F s' \<and> quiet D pins s s')
      (\<lambda>e s'. e = LruEviction \<and> pins \<noteq> {} \<and> pool_inv D F s' \<and> quiet D pins s s')"
      using m'(1) rk by simp
  qed
qed

lemma descend_spec:
  assumes "leaf_of (db D s) h p k = Some (q, l)" "pool_inv D F s" "F \<subseteq> pins"
  shows "outcome (descend pins (route_key k) p s)
    (\<lambda>(q', l') s'. q' = q \<and> l = reloaded_leaf l' \<and> bp_table s' q = Some (Leaf l') \<and> pool_inv D F s' \<and> quiet D pins s s')
    (\<lambda>e s'. e = LruEviction \<and> pool_inv D F s' \<and> quiet D pins s s')"
  by (rule outcome_weaken, rule descend_walk [OF assms(1) [unfolded leaf_of_walk] assms(2,3)])
    (auto simp: route_key_wf)

text \<open>The leftmost and the rightmost leaf.\<close>

definition first_child :: "internal_node \<Rightarrow> page_id" where
  "first_child m = (case in_list m of [] \<Rightarrow> in_rightmost m | e # _ \<Rightarrow> ie_child e)"

lemma leftmost_child_wf:
  assumes "internal_wf m'" "in_list m' = in_list m" "in_rightmost m' = in_rightmost m"
  shows "leftmost_child m' = Ok (first_child m)"
proof (cases "in_slots m'")
  case Nil
  then have "in_list m = []" using assms(2) by (simp add: in_list_def flip: assms(2))
  then show ?thesis using Nil assms(3) by (simp add: leftmost_child_def first_child_def)
next
  case (Cons a as)
  then have "unat a < length (in_entries m')" using assms(1) by (simp add: internal_wf_def)
  moreover have "in_list m = (in_entries m' ! unat a) # map (\<lambda>s. in_entries m' ! unat s) as"
    using Cons assms(2) by (simp add: in_list_def flip: assms(2))
  ultimately show ?thesis using Cons by (simp add: leftmost_child_def first_child_def slot_entry_def)
qed

lemma get_leftmost_leaf_spec:
  assumes "walk (db D s) first_child h root = Some (q, l)" "pool_inv D F s" "F \<subseteq> pins"
  shows "outcome (get_leftmost_leaf pins root s)
    (\<lambda>p s'. p = q \<and> pool_inv D F s' \<and> quiet D pins s s')
    (\<lambda>e s'. e = LruEviction \<and> pins \<noteq> {} \<and> pool_inv D F s' \<and> quiet D pins s s')"
  unfolding get_leftmost_leaf_def
  by (rule outcome_seqI, rule descend_walk [OF assms], erule (2) leftmost_child_wf) auto

text \<open>The row id in the last slot of the rightmost leaf.\<close>

fun last_id :: "cell list \<Rightarrow> u64" where
  "last_id [] = 0" | "last_id (c # cs) = row_id (last (c # cs))"

lemma get_max_row_id_spec:
  assumes "walk (db D s) in_rightmost h root = Some (q, l)" "pool_inv D F s" "F \<subseteq> pins"
  shows "outcome (get_max_row_id pins root s)
    (\<lambda>m s'. m = last_id (leaf_cells l) \<and> pool_inv D F s' \<and> quiet D pins s s')
    (\<lambda>e s'. e = LruEviction \<and> pins \<noteq> {} \<and> pool_inv D F s' \<and> quiet D pins s s')"
  unfolding get_max_row_id_def
proof (rule outcome_seqI, rule descend_walk [OF assms])
  fix r s1
  assume "(case r of (q', l') \<Rightarrow> \<lambda>s'. q' = q \<and> l = reloaded_leaf l' \<and> bp_table s' q = Some (Leaf l') \<and> pool_inv D F s' \<and> quiet D pins s s') s1"
  then obtain l' where r: "r = (q, l')" "l = reloaded_leaf l'" "bp_table s1 q = Some (Leaf l')" "pool_inv D F s1"
    "quiet D pins s s1" by (cases r) auto
  have wf: "leaf_wf l'" using r(3,4) pages_invD(2) [of D F s1 q "Leaf l'"] by (auto simp: pool_inv_def pages_inv_def)
  have c: "leaf_cells l = leaf_cells l'" using r(2) by (simp add: reloaded_leaf_def leaf_cells_def)
  have ln: "length (leaf_cells l') = length (lf_slots l')" by (simp add: leaf_cells_def)
  show "outcome ((case r of (uu_, l) \<Rightarrow>
      if lf_slots l = [] then ret 0
      else lift (res_bind (slot_cell l (last (lf_slots l))) (\<lambda>r. Ok (row_id r)))) s1)
    (\<lambda>m s'. m = last_id (leaf_cells l) \<and> pool_inv D F s' \<and> quiet D pins s s')
    (\<lambda>e s'. e = LruEviction \<and> pins \<noteq> {} \<and> pool_inv D F s' \<and> quiet D pins s s')"
  proof (cases "lf_slots l' = []")
    case True
    then have "leaf_cells l' = []" by (simp add: leaf_cells_def)
    with True r c show ?thesis by simp
  next
    case False
    have ne: "leaf_cells l' \<noteq> []" using False by (simp add: leaf_cells_def)
    have "length (lf_slots l') - 1 < length (lf_slots l')" using False by simp
    from slot_cell_nth [OF wf this] have "slot_cell l' (last (lf_slots l')) = Ok (last (leaf_cells l'))"
      unfolding last_conv_nth [OF False] last_conv_nth [OF ne] ln .
    moreover have "last_id (leaf_cells l') = row_id (last (leaf_cells l'))" using ne by (cases "leaf_cells l'") auto
    ultimately show ?thesis using False r c by simp
  qed
qed simp

lemma get_leaf_and_slot_spec:
  assumes t: "leaf_of (db D s) h root k = Some (q, l)" and inv: "pool_inv D F s" and F: "F \<subseteq> pins"
  shows "outcome (get_leaf_and_slot pins root k s)
    (\<lambda>(p, i) s'. p = q \<and> i = length (takeWhile (\<lambda>r. row_id r < k) (leaf_cells l)) \<and> pool_inv D F s' \<and> quiet D pins s s')
    (\<lambda>e s'. e = LruEviction \<and> pool_inv D F s' \<and> quiet D pins s s')"
  unfolding get_leaf_and_slot_def
proof (rule outcome_seqI, rule descend_spec [OF t inv F])
  fix a s1
  assume "(case a of (q', l') \<Rightarrow> \<lambda>s'. q' = q \<and> l = reloaded_leaf l' \<and> bp_table s' q = Some (Leaf l') \<and> pool_inv D F s' \<and> quiet D pins s s') s1"
  then obtain l' where a: "a = (q, l')" "l = reloaded_leaf l'" "bp_table s1 q = Some (Leaf l')" "pool_inv D F s1"
    "quiet D pins s s1" by (cases a) auto
  have wf: "leaf_wf l'" using a(3,4) pages_invD(2) [of D F s1 q "Leaf l'"] by (auto simp: pool_inv_def pages_inv_def)
  have c: "leaf_cells l = leaf_cells l'" using a(2) by (simp add: reloaded_leaf_def leaf_cells_def)
  show "outcome ((case a of (p, l) \<Rightarrow>
       lift (res_bind (leaf_find k l) (\<lambda>f. Ok (p, case f of Inl i \<Rightarrow> i | Inr i \<Rightarrow> i)))) s1)
    (\<lambda>(p, i) s'. p = q \<and> i = length (takeWhile (\<lambda>r. row_id r < k) (leaf_cells l)) \<and> pool_inv D F s' \<and> quiet D pins s s')
    (\<lambda>e s'. e = LruEviction \<and> pool_inv D F s' \<and> quiet D pins s s')"
    using a leaf_find_position [OF wf, of k] unfolding c by auto
qed

lemma find_record_tree:
  assumes t: "tree_get (db D s) h root k = Some v" and inv: "pool_inv D F s" and F: "F \<subseteq> pins"
  shows "outcome (find_record pins root k s)
    (\<lambda>r s'. r = v \<and> pool_inv D F s' \<and> quiet D pins s s')
    (\<lambda>e s'. e = LruEviction \<and> pool_inv D F s' \<and> quiet D pins s s')"
proof -
  obtain q l where l: "leaf_of (db D s) h root k = Some (q, l)" "v = leaf_map l k"
    using t by (auto simp: tree_get_def split: option.splits)
  show ?thesis unfolding find_record_def
  proof (rule outcome_seqI, rule descend_spec [OF l(1) inv F])
    fix a s1
    assume "(case a of (q', l') \<Rightarrow> \<lambda>s'. q' = q \<and> l = reloaded_leaf l' \<and> bp_table s' q = Some (Leaf l') \<and> pool_inv D F s' \<and> quiet D pins s s') s1"
    then obtain l' where a: "a = (q, l')" "l = reloaded_leaf l'" "bp_table s1 q = Some (Leaf l')" "pool_inv D F s1"
      "quiet D pins s s1" by (cases a) auto
    have "leaf_wf l'" using a(3,4) pages_invD(2) [of D F s1 q "Leaf l'"] by (auto simp: pool_inv_def pages_inv_def)
    then have "get_record k l' = Ok v" using get_record_map a(2) l(2) by simp
    with a show "outcome ((case a of (_, l) \<Rightarrow> lift (get_record k l)) s1)
      (\<lambda>r s'. r = v \<and> pool_inv D F s' \<and> quiet D pins s s')
      (\<lambda>e s'. e = LruEviction \<and> pool_inv D F s' \<and> quiet D pins s s')" by simp
  qed
qed

text \<open>
  C7: A point lookup ends and returns the live payload that the tree of pages holds for the key,
  or none; it changes no page. The only error is that all frames are pinned.
\<close>

lemma find_record_spec:
  assumes t: "tree_get (db D s) h root k = Some v" and inv: "pool_inv D F s" and F: "F \<subseteq> pins"
  shows "outcome (find_record pins root k s)
    (\<lambda>r s'. r = v \<and> pool_inv D F s' \<and> quiet D pins s s')
    (\<lambda>e s'. e = LruEviction \<and> pool_inv D F s' \<and> quiet D pins s s')"
  by (rule find_record_tree [OF assms])

section \<open>Mutating one leaf\<close>

text \<open>The tree after a change of the row of key \<open>k\<close> to \<open>x\<close>.\<close>

definition tree_upd :: "page_id set \<Rightarrow> nat \<Rightarrow> page_id \<Rightarrow> u64 \<Rightarrow> u8 list option \<Rightarrow> pool \<Rightarrow> pool \<Rightarrow> bool" where
  "tree_upd D h root k x s s' \<longleftrightarrow>
     (\<forall>k'. tree_get (db D s') h root k' = (if k' = k then Some x else tree_get (db D s) h root k'))"

lemma db_quiet: "quiet D pins s s' \<Longrightarrow> db D s' = db D s"
  by (auto simp: db_def quiet_def)

lemma open_leaf:
  assumes l: "db D s q = Some (Leaf l)" and inv: "pool_inv D {} s" and tx: "txns_inv s"
    and small: "length (wal_file (bp_wal s)) < 2 ^ 64"
  shows "outcome (seq (begin_page_mutation pins q t) (\<lambda>_. fetch_page pins q) s)
    (\<lambda>n s'. \<exists>l'. n = Leaf l' \<and> l = reloaded_leaf l' \<and> bp_table s' q = Some (Leaf l') \<and> leaf_wf l' \<and>
       pool_inv D {} s' \<and> txns_inv s' \<and> db D s' = db D s)
    (\<lambda>e s'. e = LruEviction \<and> pool_inv D {} s' \<and> db D s' = db D s)"
proof (rule outcome_seqI)
  have q: "q \<in> D" "page_content s q = Some (Leaf l)" using l by (auto simp: db_def split: if_splits)
  show "outcome (begin_page_mutation pins q t s) (\<lambda>_. mutation_begun D {} pins q t s)
    (\<lambda>e s'. e = LruEviction \<and> pool_inv D {} s' \<and> db D s' = db D s)"
    using begin_page_mutation_spec [OF inv empty_subsetI q(1) tx small]
    by (rule outcome_weaken) (auto simp: db_quiet)
  fix u s1 assume b: "mutation_begun D {} pins q t s s1"
  then have s1: "pool_inv D {} s1" "txns_inv s1" "db D s1 = db D s" by (auto simp: mutation_begun_def db_def)
  show "outcome (fetch_page pins q s1)
    (\<lambda>n s'. \<exists>l'. n = Leaf l' \<and> l = reloaded_leaf l' \<and> bp_table s' q = Some (Leaf l') \<and> leaf_wf l' \<and>
       pool_inv D {} s' \<and> txns_inv s' \<and> db D s' = db D s)
    (\<lambda>e s'. e = LruEviction \<and> pool_inv D {} s' \<and> db D s' = db D s)"
  proof (rule outcome_weaken [OF fetch_page_spec [OF s1(1) empty_subsetI q(1)]])
    fix n s' assume f: "pool_inv D {} s' \<and> quiet D pins s1 s' \<and> bp_table s' q = Some n"
    then have d: "db D s' = db D s" using s1(3) db_quiet by metis
    have "db D s' q = Some (Leaf l)" using d l by simp
    then have "reloaded n = Leaf l" using f content_cached [of s' q n] by (simp add: db_def split: if_splits)
    then obtain l' where "n = Leaf l'" "l = reloaded_leaf l'" using reloaded_cases(2) by blast
    moreover have "node_wf n" using f q(1) pages_invD(2) [of D "{}" s' q n] by (simp add: pool_inv_def)
    ultimately show "\<exists>l'. n = Leaf l' \<and> l = reloaded_leaf l' \<and> bp_table s' q = Some (Leaf l') \<and> leaf_wf l' \<and>
       pool_inv D {} s' \<and> txns_inv s' \<and> db D s' = db D s"
      using f d txns_inv_quiet s1(2) by auto
  qed (use s1(3) db_quiet in auto)
qed

lemma store_leaf:
  assumes inv: "pool_inv D {} s" and q: "bp_table s q = Some n" and wf: "leaf_wf l"
  shows "outcome (write_frame q (mark_dirty (Leaf l)) s)
    (\<lambda>_ s'. pool_inv D {} s' \<and> db D s' = (db D s)(q \<mapsto> Leaf (reloaded_leaf l)) \<and> bp_txns s' = bp_txns s \<and>
       bp_wal s' = bp_wal s \<and> bp_table s' q = Some (mark_dirty (Leaf l)))
    (\<lambda>_ _. False)"
proof -
  have qD: "q \<in> D" "q \<in> dom (bp_table s)" using inv q by (auto simp: pool_inv_def pages_inv_def)
  have w: "node_wf (mark_dirty (Leaf l))" "node_is_dirty (mark_dirty (Leaf l))" using wf by (simp_all only: node_wf_flags node_wf.simps dirty_flags)
  note st = store_page [OF inv qD(2) w]
  have "reloaded (mark_dirty (Leaf l)) = Leaf (reloaded_leaf l)" by (simp only: reloaded_mark_dirty reloaded.simps)
  then have "db D (s\<lparr>bp_table := (bp_table s)(q \<mapsto> mark_dirty (Leaf l))\<rparr>) = (db D s)(q \<mapsto> Leaf (reloaded_leaf l))"
    using st(2,3) qD(1) by (auto simp only: db_def fun_eq_iff fun_upd_apply split: if_splits)
  with st(1) show ?thesis by (simp add: write_frame_def del: mark_dirty.simps)
qed

lemma txns_inv_store: "txns_inv s \<Longrightarrow> bp_txns s' = bp_txns s \<Longrightarrow> bp_wal s' = bp_wal s \<Longrightarrow> txns_inv s'"
  by (simp add: txns_inv_def)

text \<open>Descend to the leaf, open it and store a new version of it.\<close>

lemma tree_upd_store:
  assumes "leaf_of (db D s) h root k = Some (q, l)" "db D s' = (db D s)(q \<mapsto> Leaf (reloaded_leaf l'))"
    "leaf_map l' = (leaf_map l)(k := x)"
  shows "tree_upd D h root k x s s'"
  using tree_get_store [OF assms(1), of "reloaded_leaf l'" x] assms(2,3) by (simp add: tree_upd_def)

lemma tree_getD:
  assumes "tree_get (db D s) h root k = Some v"
  obtains q l where "leaf_of (db D s) h root k = Some (q, l)" "leaf_map l k = v" "db D s q = Some (Leaf l)"
  using assms leaf_of_page by (fastforce simp: tree_get_def split: option.splits prod.splits)

text \<open>A mutation of the leaf of a key: the descent, the undo record, then \<open>f\<close> on the leaf.\<close>

lemma on_leaf:
  assumes lf: "leaf_of (db D s) h root k = Some (q, l)" and inv: "pool_inv D {} s" and tx: "txns_inv s"
    and small: "length (wal_file (bp_wal s)) < 2 ^ 64"
    and f: "\<And>l' s1. l = reloaded_leaf l' \<Longrightarrow> leaf_wf l' \<Longrightarrow> bp_table s1 q = Some (Leaf l') \<Longrightarrow>
      pool_inv D {} s1 \<Longrightarrow> txns_inv s1 \<Longrightarrow> db D s1 = db D s \<Longrightarrow> outcome (f q (Leaf l') s1) Q E"
    and e: "\<And>s1. pool_inv D {} s1 \<Longrightarrow> db D s1 = db D s \<Longrightarrow> E LruEviction s1"
  shows "outcome (seq (descend pins (route_key k) root) (\<lambda>(p, _).
     seq (begin_page_mutation pins p t) (\<lambda>_. seq (fetch_page pins p) (\<lambda>n. f p n))) s) Q E"
proof (rule outcome_seqI)
  show "outcome (descend pins (route_key k) root s)
    (\<lambda>(q', l') s'. q' = q \<and> pool_inv D {} s' \<and> quiet D pins s s') E"
    using descend_spec [OF lf inv empty_subsetI]
    by (rule outcome_weaken) (auto intro: e simp: db_quiet)
  fix a s1 assume "(case a of (q', l') \<Rightarrow> \<lambda>s'. q' = q \<and> pool_inv D {} s' \<and> quiet D pins s s') s1"
  then obtain l1 where a: "a = (q, l1)" "pool_inv D {} s1" "quiet D pins s s1" by (cases a) auto
  have d: "db D s1 = db D s" using a(3) by (rule db_quiet)
  have t1: "txns_inv s1" "length (wal_file (bp_wal s1)) < 2 ^ 64"
    using tx a(3) small txns_inv_quiet by (auto simp: quiet_def)
  have lq: "db D s1 q = Some (Leaf l)" using leaf_of_page [OF lf] d by simp
  have "outcome (seq (seq (begin_page_mutation pins q t) (\<lambda>_. fetch_page pins q)) (f q) s1) Q E"
  proof (rule outcome_seqI)
    show "outcome (seq (begin_page_mutation pins q t) (\<lambda>_. fetch_page pins q) s1)
      (\<lambda>n s'. \<exists>l'. n = Leaf l' \<and> l = reloaded_leaf l' \<and> bp_table s' q = Some (Leaf l') \<and> leaf_wf l' \<and>
       pool_inv D {} s' \<and> txns_inv s' \<and> db D s' = db D s1) E"
      by (rule outcome_weaken [OF open_leaf [OF lq a(2) t1]]) (auto intro: e simp: d)
    fix n s2 assume "\<exists>l'. n = Leaf l' \<and> l = reloaded_leaf l' \<and> bp_table s2 q = Some (Leaf l') \<and> leaf_wf l' \<and>
       pool_inv D {} s2 \<and> txns_inv s2 \<and> db D s2 = db D s1"
    then show "outcome (f q n s2) Q E" using f d by auto
  qed
  then show "outcome ((case a of (p, _) \<Rightarrow>
     seq (begin_page_mutation pins p t) (\<lambda>_. seq (fetch_page pins p) (\<lambda>n. f p n))) s1) Q E"
    using a(1) by (simp add: seq_assoc)
qed

lemma bt_delete_tree:
  assumes g: "tree_get (db D s) h root k = Some v" and inv: "pool_inv D {} s" and tx: "txns_inv s"
    and small: "length (wal_file (bp_wal s)) < 2 ^ 64"
  shows "outcome (bt_delete_record pins root k t s)
    (\<lambda>_ s'. pool_inv D {} s' \<and> txns_inv s' \<and> tree_upd D h root k None s s')
    (\<lambda>e s'. pool_inv D {} s' \<and> db D s' = db D s \<and> (e = LruEviction \<or> e = KeyNotFound k \<and> v = None))"
proof -
  obtain q l where l: "leaf_of (db D s) h root k = Some (q, l)" "leaf_map l k = v" using g by (rule tree_getD)
  show ?thesis unfolding bt_delete_record_def
  proof (rule on_leaf [OF l(1) inv tx small])
    fix l' s1 assume a: "l = reloaded_leaf l'" "leaf_wf l'" "bp_table s1 q = Some (Leaf l')" "pool_inv D {} s1"
      "txns_inv s1" "db D s1 = db D s"
    show "outcome ((case Leaf l' of Internal _ \<Rightarrow> panic
       | Leaf l \<Rightarrow> seq (lift (delete_record k l)) (\<lambda>l'. write_frame q (mark_dirty (Leaf l')))) s1)
      (\<lambda>_ s'. pool_inv D {} s' \<and> txns_inv s' \<and> tree_upd D h root k None s s')
      (\<lambda>e s'. pool_inv D {} s' \<and> db D s' = db D s \<and> (e = LruEviction \<or> e = KeyNotFound k \<and> v = None))"
    proof (cases "delete_record k l'")
      case (Ok l2)
      with delete_record_spec [OF a(2), of k] have d: "leaf_wf l2" "leaf_map l2 = (leaf_map l')(k := None)" by simp_all
      have "outcome (write_frame q (mark_dirty (Leaf l2)) s1)
        (\<lambda>_ s'. pool_inv D {} s' \<and> txns_inv s' \<and> tree_upd D h root k None s s') (\<lambda>_ _. False)"
        by (rule outcome_weaken [OF store_leaf [OF a(4,3) d(1)]])
          (use a d txns_inv_store tree_upd_store [OF l(1), where l' = l2] in auto)
      then show ?thesis using Ok by (auto elim: outcome_weaken)
    next
      case (Err e)
      with delete_record_spec [OF a(2), of k] have "e = KeyNotFound k" "k \<notin> row_id ` set (leaf_cells l')" by simp_all
      moreover from this have "leaf_map l' k = None" by (simp add: leaf_map_def cells_map_absent)
      ultimately show ?thesis using Err a l(2) by simp
    next
      case Panic
      with delete_record_spec [OF a(2), of k] show ?thesis by simp
    qed
  qed simp
qed

text \<open>
  C9: A delete removes the row of the key and nothing else; it fails with KeyNotFound only for a
  key without a live row, and then changes nothing.
\<close>

lemma bt_delete_spec:
  assumes g: "tree_get (db D s) h root k = Some v" and inv: "pool_inv D {} s" and tx: "txns_inv s"
    and small: "length (wal_file (bp_wal s)) < 2 ^ 64"
  shows "outcome (bt_delete_record pins root k t s)
    (\<lambda>_ s'. pool_inv D {} s' \<and> txns_inv s' \<and> tree_upd D h root k None s s')
    (\<lambda>e s'. pool_inv D {} s' \<and> db D s' = db D s \<and> (e = LruEviction \<or> e = KeyNotFound k \<and> v = None))"
  by (rule bt_delete_tree [OF assms])

lemma unoverflowed_update:
  assumes wf: "leaf_wf l" and m: "leaf_map l k = Some old" "length payload \<le> length old" "length payload < MAX_VALUE_SIZE"
  shows "\<exists>l2. update_record k payload l = Ok l2 \<and> leaf_wf l2 \<and> leaf_map l2 = (leaf_map l)(k \<mapsto> payload)"
proof (cases rule: leaf_find_cases [OF wf, of k])
  case (1 i)
  have ops: "slot_cell l (lf_slots l ! i) = Ok (leaf_cells l ! i)" by (rule slot_cell_nth [OF wf 1(2)])
  have c: "cell_data (leaf_cells l ! i) = old" using 1(5) m(1) by (auto split: if_splits)
  have "\<exists>l2. update_record k payload l = Ok l2"
    using 1(1,2) ops c m(2,3) by (simp add: update_record_def Let_def)
  then obtain l2 where "update_record k payload l = Ok l2" by blast
  with update_record_spec [OF wf, of k payload] m(1) show ?thesis by auto
next
  case (2 i)
  then show ?thesis using m(1) by simp
qed

lemma bt_update_tree:
  assumes g: "tree_get (db D s) h root k = Some (Some old)" and inv: "pool_inv D {} s" and tx: "txns_inv s"
    and small: "length (wal_file (bp_wal s)) < 2 ^ 64"
    and len: "length payload \<le> length old" "length payload < MAX_VALUE_SIZE"
  shows "outcome (bt_update pins root k payload t s)
    (\<lambda>_ s'. pool_inv D {} s' \<and> txns_inv s' \<and> tree_upd D h root k (Some payload) s s')
    (\<lambda>e s'. pool_inv D {} s' \<and> db D s' = db D s \<and> e = LruEviction)"
proof -
  obtain q l where l: "leaf_of (db D s) h root k = Some (q, l)" "leaf_map l k = Some old" using g by (rule tree_getD)
  show ?thesis unfolding bt_update_def
  proof (rule on_leaf [OF l(1) inv tx small])
    fix l' s1 assume a: "l = reloaded_leaf l'" "leaf_wf l'" "bp_table s1 q = Some (Leaf l')" "pool_inv D {} s1"
      "txns_inv s1" "db D s1 = db D s"
    have "leaf_map l' k = Some old" using a(1) l(2) by simp
    from unoverflowed_update [OF a(2) this len] obtain l2 where
      l2: "update_record k payload l' = Ok l2" "leaf_wf l2" "leaf_map l2 = (leaf_map l')(k \<mapsto> payload)" by blast
    have "outcome (write_frame q (mark_dirty (Leaf l2)) s1)
        (\<lambda>_ s'. pool_inv D {} s' \<and> txns_inv s' \<and> tree_upd D h root k (Some payload) s s') (\<lambda>_ _. False)"
      by (rule outcome_weaken [OF store_leaf [OF a(4,3) l2(2)]])
        (use a l2 txns_inv_store tree_upd_store [OF l(1), where l' = l2] in auto)
    then show "outcome ((case Leaf l' of Internal _ \<Rightarrow> panic
     | Leaf l \<Rightarrow>
         (case update_record k payload l of
            Ok l' \<Rightarrow> write_frame q (mark_dirty (Leaf l'))
          | Panic \<Rightarrow> panic
          | Err e \<Rightarrow>
              if e = PageFull then
                seq (lift (delete_record k l)) (\<lambda>l'.
                seq (write_frame q (mark_dirty (Leaf l'))) (\<lambda>_.
                bt_insert (insert q pins) root k payload t))
              else fail e)) s1)
      (\<lambda>_ s'. pool_inv D {} s' \<and> txns_inv s' \<and> tree_upd D h root k (Some payload) s s')
      (\<lambda>e s'. pool_inv D {} s' \<and> db D s' = db D s \<and> e = LruEviction)"
      using l2(1) by (auto elim: outcome_weaken)
  qed simp
qed

text \<open>A payload of MAX_VALUE_SIZE bytes or more is refused, although an insertion takes one of
  exactly that size.\<close>

lemma bt_update_too_large:
  assumes g: "tree_get (db D s) h root k = Some (Some old)" and inv: "pool_inv D {} s" and tx: "txns_inv s"
    and small: "length (wal_file (bp_wal s)) < 2 ^ 64"
    and len: "MAX_VALUE_SIZE \<le> length payload"
  shows "outcome (bt_update pins root k payload t s) (\<lambda>_ _. False)
    (\<lambda>e s'. pool_inv D {} s' \<and> db D s' = db D s \<and> (e = LruEviction \<or> e = TupleTooLarge (length payload)))"
proof -
  obtain q l where l: "leaf_of (db D s) h root k = Some (q, l)" "leaf_map l k = Some old" using g by (rule tree_getD)
  show ?thesis unfolding bt_update_def
    by (rule on_leaf [OF l(1) inv tx small]) (use len in \<open>auto simp: update_record_def\<close>)
qed

text \<open>
  C8: An update of a live row by a payload that is shorter than MAX_VALUE_SIZE and not longer
  than the row replaces that row and changes nothing else; a payload of MAX_VALUE_SIZE bytes or
  more is refused with TupleTooLarge, also where the row has that size. The only other error is
  that every frame is pinned, and an error changes no page content.
\<close>

lemma bt_update_spec:
  assumes g: "tree_get (db D s) h root k = Some (Some old)" and inv: "pool_inv D {} s" and tx: "txns_inv s"
    and small: "length (wal_file (bp_wal s)) < 2 ^ 64"
    and len: "length payload \<le> length old \<or> MAX_VALUE_SIZE \<le> length payload"
  shows "outcome (bt_update pins root k payload t s)
    (\<lambda>_ s'. length payload < MAX_VALUE_SIZE \<and> pool_inv D {} s' \<and> txns_inv s' \<and> tree_upd D h root k (Some payload) s s')
    (\<lambda>e s'. pool_inv D {} s' \<and> db D s' = db D s \<and>
       (e = LruEviction \<or> e = TupleTooLarge (length payload) \<and> MAX_VALUE_SIZE \<le> length payload))"
proof (cases "MAX_VALUE_SIZE \<le> length payload")
  case True
  then show ?thesis by (intro outcome_weaken [OF bt_update_too_large [OF g inv tx small]]) auto
next
  case False
  with len have "length payload \<le> length old" "length payload < MAX_VALUE_SIZE" by auto
  then show ?thesis by (intro outcome_weaken [OF bt_update_tree [OF g inv tx small]]) auto
qed

section \<open>Inserting into a leaf with room\<close>

text \<open>The descent that collects the path is the plain descent with the path beside it.\<close>

definition with_path :: "page_id list \<Rightarrow> ((page_id \<times> leaf_node) res \<times> pool) option \<Rightarrow>
    ((page_id list \<times> page_id) res \<times> pool) option" where
  "with_path ps x = (case x of None \<Rightarrow> None
     | Some (Ok (q, _), s) \<Rightarrow> Some (Ok (ps, q), s) | Some (Err e, s) \<Rightarrow> Some (Err e, s)
     | Some (Panic, s) \<Rightarrow> Some (Panic, s))"

lemma descend_path_eq:
  assumes "leaf_of (db D s) h p k = Some (q, l)" "pool_inv D F s" "F \<subseteq> pins"
  shows "\<exists>ps. descend_path pins k parents p s = with_path ps (descend pins (route_key k) p s)"
  using assms(1,2)
proof (induction h arbitrary: p s parents)
  case 0
  then have p: "p \<in> D" "page_content s p = Some (Leaf l)"
    by (auto simp: db_def split: option.splits btree_node.splits if_splits)
  from fetch_page_spec [OF 0(2) assms(3) p(1)] show ?case
  proof (cases "fetch_page pins p s")
    case (Some y)
    obtain r s1 where y: "y = (r, s1)" by (cases y)
    note sp = fetch_page_spec [OF 0(2) assms(3) p(1), unfolded Some y outcome_def]
    show ?thesis
    proof (cases r)
      case (Ok n)
      with sp have "bp_table s1 p = Some n" "quiet D pins s s1" by simp_all
      then have "reloaded n = Leaf l" using p content_cached [of s1 p n] by (auto simp: quiet_def)
      then obtain l' where "n = Leaf l'" using reloaded_cases(2) by blast
      then show ?thesis using Some y Ok
        by (intro exI [of _ parents]) (simp add: descend.simps [of pins _ p s] descend_path.simps [of pins k parents p s]
          seq_def with_path_def ret_def)
    qed (use Some y sp in \<open>simp_all add: descend.simps [of pins _ p s] descend_path.simps [of pins k parents p s]
          seq_def with_path_def\<close>)
  qed (simp add: outcome_def)
next
  case (Suc h)
  then obtain m where dp: "db D s p = Some (Internal m)"
    and lf: "leaf_of (db D s) h (route_list (in_list m) (in_rightmost m) k) k = Some (q, l)"
    by (auto split: option.splits btree_node.splits)
  have p: "p \<in> D" "page_content s p = Some (Internal m)" using dp by (auto simp: db_def split: if_splits)
  from fetch_page_spec [OF Suc.prems(2) assms(3) p(1)] show ?case
  proof (cases "fetch_page pins p s")
    case (Some y)
    obtain r s1 where y: "y = (r, s1)" by (cases y)
    note sp = fetch_page_spec [OF Suc.prems(2) assms(3) p(1), unfolded Some y outcome_def]
    show ?thesis
    proof (cases r)
      case (Ok n)
      with sp have s1: "pool_inv D F s1" "quiet D pins s s1" "bp_table s1 p = Some n" by simp_all
      then have "reloaded n = Internal m" using p content_cached [of s1 p n] by (auto simp: quiet_def)
      then obtain m' where m': "n = Internal m'" "in_list m' = in_list m" "in_rightmost m' = in_rightmost m"
        using reloaded_cases(1) by blast
      have "node_wf n" using s1 p(1) pages_invD(2) [of D F s1 p n] by (simp add: pool_inv_def)
      then have rk: "route_key k m' = Ok (route_list (in_list m) (in_rightmost m) k)"
        using route_key_wf [of m' k] m' by simp
      have "leaf_of (db D s1) h (route_list (in_list m) (in_rightmost m) k) k = Some (q, l)"
        using lf db_quiet [OF s1(2)] by simp
      from Suc.IH [OF this s1(1), of "p # parents"] obtain ps where
        "descend_path pins k (p # parents) (route_list (in_list m) (in_rightmost m) k) s1 =
         with_path ps (descend pins (route_key k) (route_list (in_list m) (in_rightmost m) k) s1)" by blast
      then show ?thesis using Some y Ok m'(1) rk
        by (intro exI [of _ ps]) (simp add: descend.simps [of pins _ p s] descend_path.simps [of pins k parents p s] seq_Some)
    qed (use Some y sp in \<open>simp_all add: descend.simps [of pins _ p s] descend_path.simps [of pins k parents p s]
          seq_def with_path_def\<close>)
  qed (simp add: outcome_def)
qed

lemma outcome_with_path:
  "outcome (with_path ps x) Q E \<longleftrightarrow> outcome x (\<lambda>(q, _). Q (ps, q)) E"
  by (auto simp: outcome_def with_path_def split: option.splits res.splits prod.splits)

text \<open>After compaction the row and one spare slot fit into the leaf.\<close>

definition fits_compacted :: "leaf_node \<Rightarrow> u8 list \<Rightarrow> bool" where
  "fits_compacted l payload \<longleftrightarrow> cells_size (filter live (leaf_cells l)) + SLOT_ELEM_SIZE +
     (RECORD_META_SIZE + length payload + SLOT_ELEM_SIZE) \<le> PAGE_SIZE"

lemma insert_leaf_step:
  assumes wf: "leaf_wf l" and len: "length payload \<le> MAX_VALUE_SIZE" and fit: "fits_compacted l payload"
    and v: "leaf_map l k = None"
  obtains (direct) l2 where "insert_record k payload l = Ok l2" "leaf_wf l2" "leaf_map l2 = (leaf_map l)(k \<mapsto> payload)"
  | (compacted) lc l2 where "insert_record k payload l = Err PageFull" "leaf_compact l = Ok lc" "leaf_wf lc"
      "leaf_map lc = leaf_map l" "insert_record k payload lc = Ok l2" "leaf_wf l2" "leaf_map l2 = (leaf_map l)(k \<mapsto> payload)"
proof (cases "insert_record k payload l")
  case (Ok l2)
  with insert_record_spec [OF wf len, of k] show thesis by (intro direct) auto
next
  case Panic
  with insert_record_spec [OF wf len, of k] show thesis by simp
next
  case (Err e)
  with insert_record_spec [OF wf len, of k] v have e: "insert_record k payload l = Err PageFull" by auto
  from leaf_compact_spec [OF wf] obtain lc where lc: "leaf_compact l = Ok lc" "leaf_wf lc" "leaf_map lc = leaf_map l"
    "leaf_cells lc = filter live (leaf_cells l)" by blast
  have nk: "k \<notin> row_id ` set (leaf_cells lc)"
  proof
    assume "k \<in> row_id ` set (leaf_cells lc)"
    then obtain r where r: "r \<in> set (leaf_cells l)" "\<not> is_deleted r" "row_id r = k" using lc(4) by auto
    have "distinct (map row_id (leaf_cells l))" by (rule sorted_distinct) (use wf in \<open>simp add: leaf_wf_def\<close>)
    then have "leaf_map l k = Some (cell_data r)" using r cells_map_iff by (auto simp: leaf_map_def)
    with v show False by simp
  qed
  have "insert_fits lc payload" using fit lc(4) by (simp add: insert_fits_def fits_compacted_def)
  with insert_record_absent [OF lc(2) len nk] lc(3) obtain l2 where
    "insert_record k payload lc = Ok l2" "leaf_wf l2" "leaf_map l2 = (leaf_map l)(k \<mapsto> payload)" by auto
  with e lc show thesis by (intro compacted)
qed

text \<open>The errors of an insertion under \<open>k\<close>, where \<open>v\<close> is stored.\<close>

definition insert_refused :: "u64 \<Rightarrow> u8 list \<Rightarrow> u8 list option \<Rightarrow> error \<Rightarrow> bool" where
  "insert_refused k payload v e \<longleftrightarrow>
     (if MAX_VALUE_SIZE < length payload then e = TupleTooLarge (length payload) else e = DuplicateKey k \<and> v \<noteq> None)"

lemma bt_insert_tree:
  assumes g: "tree_get (db D s) h root k = Some v" and inv: "pool_inv D {} s" and tx: "txns_inv s"
    and small: "length (wal_file (bp_wal s)) < 2 ^ 64"
    and fit: "v = None \<longrightarrow> length payload \<le> MAX_VALUE_SIZE \<longrightarrow> (\<exists>q l. leaf_of (db D s) h root k = Some (q, l) \<and> fits_compacted l payload)"
  shows "outcome (bt_insert pins root k payload t s)
    (\<lambda>_ s'. v = None \<and> length payload \<le> MAX_VALUE_SIZE \<and> pool_inv D {} s' \<and> txns_inv s' \<and> tree_upd D h root k (Some payload) s s')
    (\<lambda>e s'. pool_inv D {} s' \<and> db D s' = db D s \<and> (e = LruEviction \<or> insert_refused k payload v e))"
proof -
  let ?Q = "\<lambda>_ s'. v = None \<and> length payload \<le> MAX_VALUE_SIZE \<and> pool_inv D {} s' \<and> txns_inv s' \<and> tree_upd D h root k (Some payload) s s'"
  let ?E = "\<lambda>e s'. pool_inv D {} s' \<and> db D s' = db D s \<and> (e = LruEviction \<or> insert_refused k payload v e)"
  let ?ins = "\<lambda>p n. case n of
       Internal _ \<Rightarrow> fail (CorruptPage ''attempted to insert data on a internal routing node'')
     | Leaf l \<Rightarrow>
         (case insert_record k payload l of
            Ok l' \<Rightarrow> seq (write_frame p (mark_dirty (Leaf l'))) (\<lambda>_. ret None)
          | Panic \<Rightarrow> panic
          | Err e \<Rightarrow>
              if e = PageFull then
                seq (lift (leaf_compact l)) (\<lambda>lc.
                seq (write_frame p (Leaf lc)) (\<lambda>_.
                case insert_record k payload lc of
                  Ok l' \<Rightarrow> seq (write_frame p (mark_dirty (Leaf l'))) (\<lambda>_. ret None)
                | Panic \<Rightarrow> panic
                | Err _ \<Rightarrow> split_leaf pins p lc k payload t))
              else fail e)"
  obtain q l where l: "leaf_of (db D s) h root k = Some (q, l)" "leaf_map l k = v" using g by (rule tree_getD)
  have core: "outcome (seq (descend pins (route_key k) root) (\<lambda>(p, _).
     seq (begin_page_mutation pins p t) (\<lambda>_. seq (fetch_page pins p) (\<lambda>n. ?ins p n))) s) (\<lambda>r s'. r = None \<and> ?Q r s') ?E"
  proof (rule on_leaf [OF l(1) inv tx small])
    fix l' s1 assume a: "l = reloaded_leaf l'" "leaf_wf l'" "bp_table s1 q = Some (Leaf l')" "pool_inv D {} s1"
      "txns_inv s1" "db D s1 = db D s"
    show "outcome (?ins q (Leaf l') s1) (\<lambda>r s'. r = None \<and> ?Q r s') ?E"
    proof (cases "length payload \<le> MAX_VALUE_SIZE")
      case False
      then have "insert_record k payload l' = Err (TupleTooLarge (length payload))" by (simp add: insert_record_def)
      then show ?thesis using a False by (simp add: insert_refused_def)
    next
      case len: True
      show ?thesis
      proof (cases v)
        case (Some old)
        then have "leaf_map l' k \<noteq> None" using a(1) l(2) by simp
        with insert_record_spec [OF a(2) len, of k] have "insert_record k payload l' = Err (DuplicateKey k)"
          by (auto split: res.splits)
        then show ?thesis using a Some len by (simp add: insert_refused_def)
      next
        case None
        then have lk: "leaf_map l' k = None" using a(1) l(2) by simp
        have ft: "fits_compacted l' payload" using fit None len l(1) a(1) by (auto simp: fits_compacted_def)
        have fin: "outcome (write_frame q (mark_dirty (Leaf l2)) s1) (\<lambda>_ s'. ?Q None s') (\<lambda>_ _. False)"
          if "leaf_wf l2" "leaf_map l2 = (leaf_map l')(k \<mapsto> payload)" for l2
          by (rule outcome_weaken [OF store_leaf [OF a(4,3) that(1)]])
            (use a that None len txns_inv_store tree_upd_store [OF l(1), where l' = l2] in auto)
        have twice: "write_frame q x (s1\<lparr>bp_table := (bp_table s1)(q \<mapsto> y)\<rparr>) = write_frame q x s1" for x y
          by (simp add: write_frame_def modify_def)
        have wr: "seq (write_frame q x) g s2 = g () (s2\<lparr>bp_table := (bp_table s2)(q \<mapsto> x)\<rparr>)"
          for x s2 and g :: "unit \<Rightarrow> (pool, split_result option) call"
          by (simp add: write_frame_def)
        have fin2: "outcome (seq (write_frame q (mark_dirty (Leaf l2))) (\<lambda>_. ret (None :: split_result option)) s1) (\<lambda>r s'. r = None \<and> ?Q r s') ?E"
          if "leaf_wf l2" "leaf_map l2 = (leaf_map l')(k \<mapsto> payload)" for l2
          unfolding outcome_seq by (rule outcome_weaken [OF fin [OF that]]) simp_all
        from insert_leaf_step [OF a(2) len ft lk] show ?thesis
        proof cases
          case (1 l2)
          then show ?thesis using fin2 [OF 1(2,3)] 1(1) by simp
        next
          case (2 lc l2)
          have "outcome (seq (write_frame q (mark_dirty (Leaf l2))) (\<lambda>_. ret (None :: split_result option))
            (s1\<lparr>bp_table := (bp_table s1)(q \<mapsto> Leaf lc)\<rparr>)) (\<lambda>r s'. r = None \<and> ?Q r s') ?E"
            using fin2 [OF 2(6,7)] unfolding outcome_seq twice .
          then show ?thesis using 2(1,2,5) by (simp add: wr del: mark_dirty.simps)
    
      qed
    qed
    qed
  qed simp
  obtain ps where ps: "descend_path pins k [] root s = with_path ps (descend pins (route_key k) root s)"
    using descend_path_eq [OF l(1) inv empty_subsetI] by blast
  have "outcome (descend pins (route_key k) root s)
    (\<lambda>(p, _) s'. outcome (insert_leaf pins p k payload t s') (\<lambda>r s'. r = None \<and> ?Q r s') ?E) ?E"
    using core unfolding outcome_seq [of "descend pins (route_key k) root"]
    by (rule outcome_weaken) (auto simp: insert_leaf_def)
  then have "outcome (descend pins (route_key k) root s)
    (\<lambda>(p, _) s'. outcome (seq (insert_leaf pins p k payload t) (propagate pins root t ps) s') ?Q ?E) ?E"
  proof (rule outcome_weaken)
    fix a s'
    assume o: "(case a of (p, _) \<Rightarrow> \<lambda>s'. outcome (insert_leaf pins p k payload t s') (\<lambda>r s'. r = None \<and> ?Q r s') ?E) s'"
    obtain p x where a: "a = (p, x)" by (cases a)
    have "outcome (seq (insert_leaf pins p k payload t) (propagate pins root t ps) s') ?Q ?E"
      unfolding outcome_seq
    proof (rule outcome_weaken)
      show "outcome (insert_leaf pins p k payload t s') (\<lambda>r s'. r = None \<and> ?Q r s') ?E" using o a by simp
      fix r :: "split_result option" and s1 assume "r = None \<and> ?Q r s1"
      then show "outcome (propagate pins root t ps r s1) ?Q ?E" by simp
    qed
    with a show "(case a of (p, _) \<Rightarrow> \<lambda>s'. outcome (seq (insert_leaf pins p k payload t) (propagate pins root t ps) s') ?Q ?E) s'"
      by simp
  qed
  then show ?thesis
    unfolding bt_insert_def outcome_seq [of "descend_path pins k [] root"] ps outcome_with_path
    by (rule outcome_weaken) auto
qed

text \<open>
  C6: Insertion into a tree whose target leaf has room for the row after compaction: the row is
  added and no other key changes. A payload above MAX_VALUE_SIZE is refused with TupleTooLarge
  and a live key with DuplicateKey; the only other error is that every frame is pinned. An error
  leaves the contents of all pages as they were.
\<close>

lemma bt_insert_spec:
  assumes g: "tree_get (db D s) h root k = Some v" and inv: "pool_inv D {} s" and tx: "txns_inv s"
    and small: "length (wal_file (bp_wal s)) < 2 ^ 64"
    and fit: "v = None \<longrightarrow> length payload \<le> MAX_VALUE_SIZE \<longrightarrow>
      (\<exists>q l. leaf_of (db D s) h root k = Some (q, l) \<and> fits_compacted l payload)"
  shows "outcome (bt_insert pins root k payload t s)
    (\<lambda>_ s'. v = None \<and> length payload \<le> MAX_VALUE_SIZE \<and> pool_inv D {} s' \<and> txns_inv s' \<and>
       tree_upd D h root k (Some payload) s s')
    (\<lambda>e s'. pool_inv D {} s' \<and> db D s' = db D s \<and> (e = LruEviction \<or>
       (if MAX_VALUE_SIZE < length payload then e = TupleTooLarge (length payload) else e = DuplicateKey k \<and> v \<noteq> None)))"
  using bt_insert_tree [OF assms] unfolding insert_refused_def .

end
