(* ===== verification/Tuples.thy ===== *)
theory Tuples
  imports Bytes "HOL-Library.Char_ord" "HOL-Library.List_Lexorder"
begin

text \<open>
  Values, schemas and tuples: src/src/relation/types.rs, schema.rs and tuple.rs.

  A Rust \<open>String\<close> is a \<open>string\<close> whose characters are its UTF-8 bytes; \<open>utf8\<close> is the
  check of \<open>String::from_utf8\<close>. \<open>i64\<close> and \<open>i32\<close> are words read by \<open>sint\<close>. The hash of a
  string (\<open>DefaultHasher\<close>, whose algorithm the standard library leaves unspecified) is the
  parameter \<open>hash\<close> of \<open>to_index_key\<close>.
\<close>

unbundle bit_operations_syntax

type_synonym i64 = "64 word"
type_synonym i32 = "32 word"

section \<open>Types and values\<close>

datatype data_type = TBigInt | TInt | TBoolean | TVarchar

definition data_type_from_u8 :: "u8 \<Rightarrow> data_type res" where
  "data_type_from_u8 v =
     (if v = 0 then Ok TBigInt else if v = 1 then Ok TInt else if v = 2 then Ok TBoolean
      else if v = 3 then Ok TVarchar else Err (CorruptPage ''invalid DataType discriminant''))"

fun data_type_to_u8 :: "data_type \<Rightarrow> u8" where
  "data_type_to_u8 TBigInt = 0" | "data_type_to_u8 TInt = 1"
| "data_type_to_u8 TBoolean = 2" | "data_type_to_u8 TVarchar = 3"

lemma data_type_roundtrip: "data_type_from_u8 (data_type_to_u8 d) = Ok d"
  by (cases d) (simp_all add: data_type_from_u8_def)

datatype val = VBigInt i64 | VInt i32 | VNull | VBoolean bool | VVarchar string

fun varchar_to_str :: "val \<Rightarrow> string option" where
  "varchar_to_str (VVarchar s) = Some s" | "varchar_to_str _ = None"
fun bigint_to_i64 :: "val \<Rightarrow> i64 option" where
  "bigint_to_i64 (VBigInt v) = Some v" | "bigint_to_i64 _ = None"
fun int_to_i32 :: "val \<Rightarrow> i32 option" where
  "int_to_i32 (VInt v) = Some v" | "int_to_i32 _ = None"
fun boolean_to_bool :: "val \<Rightarrow> bool option" where
  "boolean_to_bool (VBoolean b) = Some b" | "boolean_to_bool _ = None"

text \<open>The derived order: by constructor, then by content.\<close>

fun val_rank :: "val \<Rightarrow> nat" where
  "val_rank (VBigInt _) = 0" | "val_rank (VInt _) = 1" | "val_rank VNull = 2"
| "val_rank (VBoolean _) = 3" | "val_rank (VVarchar _) = 4"

fun val_le :: "val \<Rightarrow> val \<Rightarrow> bool" where
  "val_le (VBigInt a) (VBigInt b) = (sint a \<le> sint b)"
| "val_le (VInt a) (VInt b) = (sint a \<le> sint b)"
| "val_le (VBoolean a) (VBoolean b) = (a \<le> b)"
| "val_le (VVarchar a) (VVarchar b) = (a \<le> b)"
| "val_le a b = (val_rank a \<le> val_rank b)"

lemma sint_inj: "sint a = sint b \<Longrightarrow> a = b"
  by (rule signed_word_eqI)

instantiation val :: linorder
begin

definition less_eq_val :: "val \<Rightarrow> val \<Rightarrow> bool" where "less_eq_val = val_le"
definition less_val :: "val \<Rightarrow> val \<Rightarrow> bool" where "less_val a b = (val_le a b \<and> \<not> val_le b a)"

instance
proof
  fix a b c :: val
  show "(a < b) = (a \<le> b \<and> \<not> b \<le> a)" by (simp add: less_eq_val_def less_val_def)
  show "a \<le> a" by (cases a) (simp_all add: less_eq_val_def)
  show "a \<le> b \<Longrightarrow> b \<le> c \<Longrightarrow> a \<le> c"
    by (cases a; cases b; cases c) (auto simp: less_eq_val_def)
  show "a \<le> b \<Longrightarrow> b \<le> a \<Longrightarrow> a = b"
    by (cases a; cases b) (auto simp: less_eq_val_def intro: sint_inj)
  show "a \<le> b \<or> b \<le> a"
    by (cases a; cases b) (auto simp: less_eq_val_def)
qed

end

definition to_index_key :: "(string \<Rightarrow> u64) \<Rightarrow> val \<Rightarrow> u64" where
  "to_index_key hash v = (case v of
     VBigInt i \<Rightarrow> i XOR push_bit 63 1
   | VInt i \<Rightarrow> scast i XOR push_bit 63 1
   | VNull \<Rightarrow> 0
   | VBoolean b \<Rightarrow> (if b then 1 else 0)
   | VVarchar s \<Rightarrow> hash s)"

lemma xor_top_add: "(a :: 64 word) XOR push_bit 63 1 = a + 2 ^ 63"
proof -
  define p :: "64 word" where "p = push_bit 63 1"
  have pe: "p = 2 ^ 63" unfolding p_def by (simp add: push_bit_eq_mult)
  have bp: "bit p n \<longleftrightarrow> n = 63" for n unfolding p_def bit_push_bit_iff by auto
  have dis: "x + p = x XOR p" if "\<not> bit x 63" for x
  proof -
    have "x + p = x OR p" using that by (intro disjunctive_add) (auto simp: bp)
    also have "\<dots> = x XOR p" using that by (intro bit_word_eqI) (auto simp: bit_or_iff bit_xor_iff bp)
    finally show ?thesis .
  qed
  show ?thesis
  proof (cases "bit a 63")
    case False
    then show ?thesis unfolding p_def [symmetric] pe [symmetric] by (rule dis [symmetric])
  next
    case True
    let ?b = "a XOR p"
    have "\<not> bit ?b 63" using True by (simp add: bit_xor_iff bp)
    then have "?b + p = ?b XOR p" by (rule dis)
    also have "\<dots> = a" by (intro bit_word_eqI) (auto simp: bit_xor_iff)
    finally have "a + p = ?b + (p + p)" by (metis add.assoc)
    also have "p + p = 0" by (simp add: pe)
    finally show ?thesis by (simp only: p_def [symmetric] pe [symmetric] add_0_right)
  qed
qed

lemma unat_sign_flip: "int (unat ((a :: 64 word) + 2 ^ 63)) = sint a + 2 ^ 63"
proof -
  have s: "- (2 ^ 63) \<le> sint a" "sint a < 2 ^ 63"
    using sint_range_size [of a] by (simp_all add: word_size)
  have "(a + 2 ^ 63 :: 64 word) = word_of_int (sint a + 2 ^ 63)" by simp
  then have "uint (a + 2 ^ 63) = (sint a + 2 ^ 63) mod 2 ^ 64"
    by (simp only: uint_word_of_int) simp
  with s show ?thesis by (simp add: unat_eq_nat_uint)
qed

text \<open>The keys of a numeric column are ordered as its values.\<close>

lemma index_key_bigint_order: "to_index_key hash (VBigInt a) < to_index_key hash (VBigInt b) \<longleftrightarrow> VBigInt a < VBigInt b"
proof -
  have "a XOR push_bit 63 1 < b XOR push_bit 63 1 \<longleftrightarrow> int (unat (a + 2 ^ 63)) < int (unat (b + 2 ^ 63))"
    by (simp only: xor_top_add word_less_nat_alt of_nat_less_iff)
  also have "\<dots> \<longleftrightarrow> sint a < sint b" by (simp only: unat_sign_flip) simp
  finally show ?thesis by (auto simp: to_index_key_def less_val_def)
qed

lemma sint_scast_i32: "sint (scast (a :: 32 word) :: 64 word) = sint a"
  by (rule sint_up_scast) (simp add: is_up)

text \<open>Index keys of an INT column are ordered as unsigned words exactly as the signed values
  are.\<close>

lemma index_key_int_order: "to_index_key hash (VInt a) < to_index_key hash (VInt b) \<longleftrightarrow> VInt a < VInt b"
  using index_key_bigint_order [of hash "scast a" "scast b"]
  by (simp add: to_index_key_def less_val_def sint_scast_i32)

lemma index_key_collisions:
  "to_index_key hash VNull = to_index_key hash (VBoolean False)"
  "to_index_key hash VNull = to_index_key hash (VBigInt (push_bit 63 1))"
  by (simp_all add: to_index_key_def)

section \<open>Schemas\<close>

record column =
  col_table :: "string option"
  col_name :: string
  col_type :: data_type
  col_length :: "u32 option"
  col_is_pk :: bool

record schema =
  sc_columns :: "column list"
  sc_pk_idx :: "nat option"

fun position :: "('a \<Rightarrow> bool) \<Rightarrow> 'a list \<Rightarrow> nat option" where
  "position P [] = None"
| "position P (x # xs) = (if P x then Some 0 else map_option Suc (position P xs))"

definition schema_new :: "column list \<Rightarrow> schema" where
  "schema_new cols = \<lparr>sc_columns = cols, sc_pk_idx = position col_is_pk cols\<rparr>"

fun find_col ::
    "string option \<Rightarrow> string \<Rightarrow> nat \<Rightarrow> nat option \<Rightarrow> column list \<Rightarrow> nat res" where
  "find_col q name idx found [] =
     (case found of Some i \<Rightarrow> Ok i | None \<Rightarrow> Err (ColumnNotFound name))"
| "find_col q name idx found (c # cs) =
     (if col_name c \<noteq> name then find_col q name (Suc idx) found cs
      else if (case q of None \<Rightarrow> True | Some t \<Rightarrow> col_table c = Some t) then
        (if found \<noteq> None then Err (SyntaxErr ''column reference is ambiguous, add a table name qualifier'')
         else find_col q name (Suc idx) (Some idx) cs)
      else find_col q name (Suc idx) found cs)"

definition get_col_idx_with_qualifier :: "string option \<Rightarrow> string \<Rightarrow> schema \<Rightarrow> nat res" where
  "get_col_idx_with_qualifier q name sc = find_col q name 0 None (sc_columns sc)"

definition get_col_idx :: "string \<Rightarrow> schema \<Rightarrow> nat res" where
  "get_col_idx name sc = get_col_idx_with_qualifier None name sc"

definition col_matches :: "string option \<Rightarrow> string \<Rightarrow> column \<Rightarrow> bool" where
  "col_matches q name c \<longleftrightarrow> col_name c = name \<and> (case q of None \<Rightarrow> True | Some t \<Rightarrow> col_table c = Some t)"

definition matching :: "string option \<Rightarrow> string \<Rightarrow> column list \<Rightarrow> nat list" where
  "matching q name cs = filter (\<lambda>i. col_matches q name (cs ! i)) [0..<length cs]"

lemma matching_Cons:
  "matching q name (c # cs) = (if col_matches q name c then [0] else []) @ map Suc (matching q name cs)"
proof -
  have "[0..<length (c # cs)] = 0 # map Suc [0..<length cs]" by (simp del: upt_Suc add: upt_conv_Cons map_Suc_upt)
  then show ?thesis by (simp del: upt_Suc add: matching_def filter_map comp_def)
qed

lemma find_col_step:
  "find_col q name idx found (c # cs) =
     (if col_matches q name c then
        (if found \<noteq> None then Err (SyntaxErr ''column reference is ambiguous, add a table name qualifier'')
         else find_col q name (Suc idx) (Some idx) cs)
      else find_col q name (Suc idx) found cs)"
  by (cases q) (simp_all add: col_matches_def)

lemma find_col_matching:
  "find_col q name idx found cs =
    (case (case found of None \<Rightarrow> [] | Some i \<Rightarrow> [i]) @ map ((+) idx) (matching q name cs) of
       [] \<Rightarrow> Err (ColumnNotFound name) | [i] \<Rightarrow> Ok i
     | _ \<Rightarrow> Err (SyntaxErr ''column reference is ambiguous, add a table name qualifier''))"
proof (induction cs arbitrary: idx found)
  case Nil
  then show ?case by (simp add: matching_def split: option.split)
next
  case (Cons c cs)
  have m: "map ((+) idx) (map Suc xs) = map ((+) (Suc idx)) xs" for xs by simp
  show ?case
    unfolding matching_Cons map_append m find_col_step Cons.IH
    by (cases found; cases "map ((+) (Suc idx)) (matching q name cs)")
      (auto split: list.splits)
qed

text \<open>
  C35: A column name resolves to the one column that matches it and its optional qualifier; none
  is ColumnNotFound and several are an ambiguity error.\<close>

lemma get_col_idx_spec:
  "get_col_idx_with_qualifier q name sc =
    (case matching q name (sc_columns sc) of
       [] \<Rightarrow> Err (ColumnNotFound name) | [i] \<Rightarrow> Ok i
     | _ \<Rightarrow> Err (SyntaxErr ''column reference is ambiguous, add a table name qualifier''))"
proof -
  have "map ((+) (0::nat)) xs = xs" for xs by (simp add: map_idI)
  then show ?thesis unfolding get_col_idx_with_qualifier_def find_col_matching by simp
qed

section \<open>Tuples\<close>

record tuple =
  tp_values :: "val list"
  tp_row_id :: "u64 option"

definition tuple_new :: "val list \<Rightarrow> tuple" where
  "tuple_new vs = \<lparr>tp_values = vs, tp_row_id = None\<rparr>"

definition get_value :: "schema \<Rightarrow> string \<Rightarrow> tuple \<Rightarrow> val res" where
  "get_value sc name t = res_bind (get_col_idx name sc) (vec_get (tp_values t))"

definition string_bytes :: "string \<Rightarrow> u8 list" where "string_bytes s = map (\<lambda>c. of_nat (of_char c)) s"
definition bytes_string :: "u8 list \<Rightarrow> string" where "bytes_string bs = map (\<lambda>b. char_of (unat b)) bs"

text \<open>Well-formed UTF-8, as \<open>String::from_utf8\<close> checks it.\<close>

definition cont :: "u8 \<Rightarrow> bool" where "cont b \<longleftrightarrow> 128 \<le> b \<and> b \<le> 191"

fun utf8 :: "u8 list \<Rightarrow> bool" where
  "utf8 [] = True"
| "utf8 (a # r) =
     (if a \<le> 127 then utf8 r
      else if 194 \<le> a \<and> a \<le> 223 then (case r of b # r \<Rightarrow> cont b \<and> utf8 r | _ \<Rightarrow> False)
      else if 224 \<le> a \<and> a \<le> 239 then
        (case r of b # c # r \<Rightarrow> cont b \<and> cont c \<and> (a = 224 \<longrightarrow> 160 \<le> b) \<and> (a = 237 \<longrightarrow> b \<le> 159) \<and> utf8 r | _ \<Rightarrow> False)
      else if 240 \<le> a \<and> a \<le> 244 then
        (case r of b # c # d # r \<Rightarrow> cont b \<and> cont c \<and> cont d \<and> (a = 240 \<longrightarrow> 144 \<le> b) \<and> (a = 244 \<longrightarrow> b \<le> 143) \<and> utf8 r
         | _ \<Rightarrow> False)
      else False)"

text \<open>The bytes written for one column.\<close>

fun encode_value :: "data_type \<Rightarrow> val \<Rightarrow> u8 list res" where
  "encode_value _ VNull = Ok [1]"
| "encode_value TBigInt (VBigInt v) = Ok (0 # u64_to_le v)"
| "encode_value TInt (VInt v) = Ok (0 # u32_to_le v)"
| "encode_value TBoolean (VBoolean b) = Ok [0, if b then 1 else 0]"
| "encode_value TVarchar (VVarchar s) =
     Ok (0 # u32_to_le (of_nat (length s)) @ string_bytes s)"
| "encode_value _ _ = Err (CorruptPage ''value type does not match schema type definition'')"

fun encode_values :: "column list \<Rightarrow> val list \<Rightarrow> u8 list res" where
  "encode_values (c # cs) (v # vs) =
     res_bind (encode_value (col_type c) v) (\<lambda>bs.
     res_bind (encode_values cs vs) (\<lambda>rest. Ok (bs @ rest)))"
| "encode_values _ _ = Ok []"

definition tuple_encode :: "schema \<Rightarrow> tuple \<Rightarrow> u8 list res" where
  "tuple_encode sc t =
     (if length (tp_values t) \<noteq> length (sc_columns sc) then
        Err (CorruptPage ''tuple value count does not match schema column count'')
      else encode_values (sc_columns sc) (tp_values t))"

text \<open>\<open>read_exact\<close> on the remaining input.\<close>

definition read_exact :: "nat \<Rightarrow> u8 list \<Rightarrow> (u8 list \<times> u8 list) res" where
  "read_exact n inp =
     (if n \<le> length inp then Ok (take n inp, drop n inp) else Err (Io ''failed to fill whole buffer''))"

definition decode_value :: "data_type \<Rightarrow> u8 list \<Rightarrow> (val \<times> u8 list) res" where
  "decode_value ty inp =
     res_bind (read_exact 1 inp) (\<lambda>(is_null, inp).
       if hd is_null = 0 then
         (case ty of
            TBigInt \<Rightarrow> res_bind (read_exact 8 inp) (\<lambda>(b, inp). Ok (VBigInt (u64_of_le b), inp))
          | TInt \<Rightarrow> res_bind (read_exact 4 inp) (\<lambda>(b, inp). Ok (VInt (u32_of_le b), inp))
          | TBoolean \<Rightarrow> res_bind (read_exact 1 inp) (\<lambda>(b, inp). Ok (VBoolean (hd b = 1), inp))
          | TVarchar \<Rightarrow> res_bind (read_exact 4 inp) (\<lambda>(l, inp).
              res_bind (read_exact (unat (u32_of_le l)) inp) (\<lambda>(b, inp).
                if utf8 b then Ok (VVarchar (bytes_string b), inp)
                else Err (CorruptPage ''invalid utf-8''))))
       else Ok (VNull, inp))"

fun decode_values :: "column list \<Rightarrow> u8 list \<Rightarrow> val list res" where
  "decode_values [] inp = Ok []"
| "decode_values (c # cs) inp =
     res_bind (decode_value (col_type c) inp) (\<lambda>(v, inp).
     res_bind (decode_values cs inp) (\<lambda>vs. Ok (v # vs)))"

definition tuple_decode :: "schema \<Rightarrow> u8 list \<Rightarrow> tuple res" where
  "tuple_decode sc inp = res_bind (decode_values (sc_columns sc) inp) (\<lambda>vs. Ok (tuple_new vs))"

section \<open>The round trip of a row\<close>

text \<open>A value of a column: null or of the column's type; a string is valid UTF-8 and its length
  fits the four bytes of its prefix.\<close>

fun val_ok :: "data_type \<Rightarrow> val \<Rightarrow> bool" where
  "val_ok _ VNull = True"
| "val_ok TBigInt (VBigInt _) = True"
| "val_ok TInt (VInt _) = True"
| "val_ok TBoolean (VBoolean _) = True"
| "val_ok TVarchar (VVarchar s) = (utf8 (string_bytes s) \<and> length s < 2 ^ 32)"
| "val_ok _ _ = False"

lemma bytes_string_bytes [simp]: "bytes_string (string_bytes s) = s"
proof -
  have "char_of (unat (of_nat (of_char c) :: u8)) = c" for c :: char
  proof -
    have "(of_char c :: nat) < 256" by (rule nat_of_char_less_256)
    then have "unat (of_nat (of_char c) :: u8) = (of_char c :: nat)" by (simp add: unat_of_nat)
    then show ?thesis by simp
  qed
  then show ?thesis by (simp add: bytes_string_def string_bytes_def comp_def)
qed

lemma length_string_bytes [simp]: "length (string_bytes s) = length s"
  by (simp add: string_bytes_def)

lemma read_exact_append [simp]: "length bs = n \<Longrightarrow> read_exact n (bs @ rest) = Ok (bs, rest)"
  by (simp add: read_exact_def)

lemma read_exact_1 [simp]: "read_exact (Suc 0) (b # rest) = Ok ([b], rest)"
  by (simp add: read_exact_def)

lemma value_roundtrip:
  assumes "val_ok ty v"
  shows "\<exists>bs. encode_value ty v = Ok bs \<and> (\<forall>rest. decode_value ty (bs @ rest) = Ok (v, rest))"
proof (cases v)
  case (VVarchar s)
  with assms have s: "ty = TVarchar" "utf8 (string_bytes s)" "length s < 2 ^ 32" by (cases ty; simp)+
  then have "unat (of_nat (length s) :: u32) = length s" by (simp add: unat_of_nat)
  then show ?thesis using VVarchar s by (simp add: decode_value_def)
qed (use assms in \<open>(cases ty; simp add: decode_value_def)+\<close>)

lemma values_roundtrip:
  "list_all2 (\<lambda>c v. val_ok (col_type c) v) cs vs \<Longrightarrow>
   \<exists>bs. encode_values cs vs = Ok bs \<and> (\<forall>rest. decode_values cs (bs @ rest) = Ok vs)"
proof (induction rule: list_all2_induct)
  case (Cons c cs v vs)
  from value_roundtrip [OF Cons.hyps(1)] Cons.IH show ?case by auto
qed simp

text \<open>
  C37: A row whose values fit the columns of the schema (nulls included) is encoded, and decodes
  to the same values.
\<close>

lemma tuple_roundtrip:
  assumes "list_all2 (\<lambda>c v. val_ok (col_type c) v) (sc_columns sc) (tp_values t)"
  shows "\<exists>bs. tuple_encode sc t = Ok bs \<and> tuple_decode sc bs = Ok (tuple_new (tp_values t))"
proof -
  obtain bs where b: "encode_values (sc_columns sc) (tp_values t) = Ok bs"
    "\<forall>rest. decode_values (sc_columns sc) (bs @ rest) = Ok (tp_values t)"
    using values_roundtrip [OF assms] by blast
  have "decode_values (sc_columns sc) bs = Ok (tp_values t)" using b(2) [THEN spec, of "[]"] by simp
  then show ?thesis using b(1) list_all2_lengthD [OF assms] by (simp add: tuple_encode_def tuple_decode_def)
qed

text \<open>A value of the wrong type is refused.\<close>

lemma encode_value_mismatch:
  "v \<noteq> VNull \<Longrightarrow> (\<forall>s. v \<noteq> VVarchar s) \<Longrightarrow> \<not> val_ok ty v \<Longrightarrow>
   encode_value ty v = Err (CorruptPage ''value type does not match schema type definition'')"
  by (cases ty; cases v) simp_all

definition ex_schema :: schema where
  "ex_schema = schema_new
     [\<lparr>col_table = Some ''t'', col_name = ''id'', col_type = TBigInt, col_length = None, col_is_pk = True\<rparr>,
      \<lparr>col_table = Some ''t'', col_name = ''name'', col_type = TVarchar, col_length = Some 10, col_is_pk = False\<rparr>]"

lemma tuple_roundtrip_witness:
  "\<exists>bs. tuple_encode ex_schema (tuple_new [VBigInt 7, VVarchar ''ab'']) = Ok bs \<and>
    tuple_decode ex_schema bs = Ok (tuple_new [VBigInt 7, VVarchar ''ab''])"
  using tuple_roundtrip [of ex_schema "tuple_new [VBigInt 7, VVarchar ''ab'']"]
  by (simp add: ex_schema_def schema_new_def tuple_new_def string_bytes_def of_char_def)

end
