(* ===== verification/Catalog.thy ===== *)
theory Catalog
  imports BpTree Tuples
begin

text \<open>
  The system tables and the in-memory catalog: src/src/catalog.rs and src/src/manager.rs.

  The catalog is a record with a map for each \<open>HashMap\<close>; the order in which the code
  iterates over a hash map is the parameter \<open>order\<close>. An operation that writes the system
  tables works on the catalog and the pool together, and keeps what it did to either when it
  fails. The atomic counters are words that wrap around, as \<open>fetch_add\<close> does.
\<close>

section \<open>The system tables\<close>

definition sys_roots_schema :: schema where
  "sys_roots_schema = schema_new
     [\<lparr>col_table = Some ''sys_pages'', col_name = ''table_name'', col_type = TVarchar, col_length = Some 255, col_is_pk = False\<rparr>,
      \<lparr>col_table = Some ''sys_pages'', col_name = ''root_page_id'', col_type = TBigInt, col_length = None, col_is_pk = False\<rparr>]"

definition sys_tables_schema :: schema where
  "sys_tables_schema = schema_new
     [\<lparr>col_table = Some ''sys_schema'', col_name = ''table_name'', col_type = TVarchar, col_length = Some 255, col_is_pk = False\<rparr>,
      \<lparr>col_table = Some ''sys_schema'', col_name = ''field_name'', col_type = TVarchar, col_length = Some 255, col_is_pk = False\<rparr>,
      \<lparr>col_table = Some ''sys_schema'', col_name = ''field_type'', col_type = TInt, col_length = None, col_is_pk = False\<rparr>,
      \<lparr>col_table = Some ''sys_schema'', col_name = ''field_length'', col_type = TInt, col_length = None, col_is_pk = False\<rparr>,
      \<lparr>col_table = Some ''sys_schema'', col_name = ''is_primary_key'', col_type = TBoolean, col_length = None, col_is_pk = False\<rparr>]"

definition sys_index_schema :: schema where
  "sys_index_schema = schema_new
     [\<lparr>col_table = Some ''sys_index'', col_name = ''index_name'', col_type = TVarchar, col_length = Some 255, col_is_pk = False\<rparr>,
      \<lparr>col_table = Some ''sys_index'', col_name = ''table_name'', col_type = TVarchar, col_length = Some 255, col_is_pk = False\<rparr>,
      \<lparr>col_table = Some ''sys_index'', col_name = ''column_name'', col_type = TVarchar, col_length = Some 255, col_is_pk = False\<rparr>,
      \<lparr>col_table = Some ''sys_index'', col_name = ''is_unique'', col_type = TBoolean, col_length = None, col_is_pk = False\<rparr>,
      \<lparr>col_table = Some ''sys_index'', col_name = ''root_page_id'', col_type = TBigInt, col_length = None, col_is_pk = False\<rparr>]"

definition SYS_TABLE_ROOTS_ROOT_ID :: page_id where "SYS_TABLE_ROOTS_ROOT_ID = 8192"
definition SYS_SCHEMAS_ROOT_ID :: page_id where "SYS_SCHEMAS_ROOT_ID = 16384"
definition SYS_INDEXES_ROOT_ID :: page_id where "SYS_INDEXES_ROOT_ID = 24576"

section \<open>The in-memory catalog\<close>

record index_meta =
  im_root :: page_id
  im_name :: string
  im_unique :: bool
  im_column :: string

record catalog =
  ct_row_ids :: "string \<rightharpoonup> u64"
  ct_sys_id :: u64
  ct_roots :: "string \<rightharpoonup> page_id"
  ct_schemas :: "string \<rightharpoonup> schema"
  ct_indexes :: "string \<rightharpoonup> (string \<rightharpoonup> index_meta)"

definition catalog_new :: catalog where
  "catalog_new = \<lparr>ct_row_ids = Map.empty, ct_sys_id = 1, ct_roots = Map.empty,
     ct_schemas = Map.empty, ct_indexes = Map.empty\<rparr>"

fun known :: "string \<Rightarrow> 'a option \<Rightarrow> 'a res" where
  "known name (Some x) = Ok x"
| "known name None = Err (TableNotFound name)"

definition update_high_watermark :: "string \<Rightarrow> u64 \<Rightarrow> (catalog, unit) call" where
  "update_high_watermark t row =
     seq (gets (\<lambda>c. known t (ct_row_ids c t))) (\<lambda>r.
     seq (lift r) (\<lambda>n.
     modify (\<lambda>c. c\<lparr>ct_row_ids := (ct_row_ids c)(t \<mapsto> max n (row + 1))\<rparr>)))"

definition generate_next_row_id :: "string \<Rightarrow> (catalog, u64) call" where
  "generate_next_row_id t =
     seq (gets (\<lambda>c. known t (ct_row_ids c t))) (\<lambda>r.
     seq (lift r) (\<lambda>n.
     seq (modify (\<lambda>c. c\<lparr>ct_row_ids := (ct_row_ids c)(t \<mapsto> n + 1)\<rparr>)) (\<lambda>_.
     ret n)))"

definition get_table_root :: "string \<Rightarrow> catalog \<Rightarrow> page_id res" where
  "get_table_root t c = known t (ct_roots c t)"

definition table_schema :: "string \<Rightarrow> catalog \<Rightarrow> schema res" where
  "table_schema t c = known t (ct_schemas c t)"

definition table_indexes :: "string \<Rightarrow> catalog \<Rightarrow> (string \<rightharpoonup> index_meta) option" where
  "table_indexes t c = ct_indexes c t"

text \<open>\<open>next_sys_row_id.fetch_add(1)\<close>.\<close>

definition next_sys_row_id :: "(catalog, u64) call" where
  "next_sys_row_id =
     seq (gets ct_sys_id) (\<lambda>n. seq (modify (\<lambda>c. c\<lparr>ct_sys_id := n + 1\<rparr>)) (\<lambda>_. ret n))"

section \<open>Scanning a system table\<close>

text \<open>Calls on one of two components.\<close>

abbreviation on_fst :: "('a, 'r) call \<Rightarrow> ('a \<times> 'b, 'r) call" where
  "on_fst \<equiv> focus fst (\<lambda>a. apfst (\<lambda>_. a))"
abbreviation on_snd :: "('b, 'r) call \<Rightarrow> ('a \<times> 'b, 'r) call" where
  "on_snd \<equiv> focus snd (\<lambda>b. apsnd (\<lambda>_. b))"

text \<open>\<open>process\<close> is the closure, a call on the variables it captures.\<close>

definition scan_cell ::
    "schema \<Rightarrow> (u64 \<Rightarrow> tuple \<Rightarrow> ('a, unit) call) \<Rightarrow> leaf_node \<Rightarrow> u16 \<Rightarrow> ('a \<times> pool, unit) call" where
  "scan_cell sc process l slot =
     seq (lift (slot_cell l slot)) (\<lambda>r.
       if is_deleted r then ret ()
       else seq (lift (tuple_decode sc (cell_data r))) (\<lambda>t. on_fst (process (row_id r) t)))"

partial_function (option) scan_leaves ::
    "page_id set \<Rightarrow> schema \<Rightarrow> (u64 \<Rightarrow> tuple \<Rightarrow> ('a, unit) call) \<Rightarrow> page_id \<Rightarrow> ('a \<times> pool, unit) call" where
  "scan_leaves pins sc process p x =
     seq (on_snd (fetch_page pins p)) (\<lambda>n x. case n of
       Internal _ \<Rightarrow> fail (CorruptPage ''expected a leaf node during horizontal scan'') x
     | Leaf l \<Rightarrow>
         seq (for_each (scan_cell sc process l) (lf_slots l)) (\<lambda>_ x.
           if \<not> lf_has_next l then ret () x
           else scan_leaves pins sc process (lf_next l) x) x) x"

declare scan_leaves.simps [code]

definition scan_system_table ::
    "page_id set \<Rightarrow> page_id \<Rightarrow> schema \<Rightarrow> (u64 \<Rightarrow> tuple \<Rightarrow> ('a, unit) call) \<Rightarrow> ('a \<times> pool, unit) call" where
  "scan_system_table pins root sc process =
     seq (on_snd (get_leftmost_leaf pins root)) (scan_leaves pins sc process)"

section \<open>Bootstrapping\<close>

definition column_value :: "(val \<Rightarrow> 'b option) \<Rightarrow> string \<Rightarrow> nat \<Rightarrow> tuple \<Rightarrow> ('a, 'b) call" where
  "column_value get msg i t =
     seq (lift (vec_get (tp_values t) i)) (\<lambda>v.
     lift (case get v of Some x \<Rightarrow> Ok x | None \<Rightarrow> Err (CorruptPage msg)))"

definition process_table_tuple :: "u64 \<Rightarrow> tuple \<Rightarrow> (catalog, unit) call" where
  "process_table_tuple row t =
     seq (column_value varchar_to_str ''sys_pages table_name is not Varchar'' 0 t) (\<lambda>table.
     seq (column_value bigint_to_i64 ''sys_pages root_page_id is not BigInt'' 1 t) (\<lambda>root.
     modify (\<lambda>c. c\<lparr>ct_roots := (ct_roots c)(table \<mapsto> root)\<rparr>)))"

text \<open>The columns of each table in the order they are found.\<close>

type_synonym raw_columns = "string \<rightharpoonup> column list"

definition push_column :: "string \<Rightarrow> column \<Rightarrow> raw_columns \<Rightarrow> raw_columns" where
  "push_column table col m = m(table \<mapsto> (case m table of Some cs \<Rightarrow> cs | None \<Rightarrow> []) @ [col])"

definition process_schema_tuple :: "u64 \<Rightarrow> tuple \<Rightarrow> (raw_columns, unit) call" where
  "process_schema_tuple row t =
     seq (column_value varchar_to_str ''sys_schema table_name is not Varchar'' 0 t) (\<lambda>table.
     seq (column_value varchar_to_str ''sys_schema field_name is not Varchar'' 1 t) (\<lambda>field.
     seq (column_value int_to_i32 ''sys_schema field_type is not Int'' 2 t) (\<lambda>ty.
     seq (column_value int_to_i32 ''sys_schema field_length is not Int'' 3 t) (\<lambda>len.
     seq (column_value boolean_to_bool ''sys_schema is_primary_key is not a Boolean'' 4 t) (\<lambda>pk.
     seq (lift (data_type_from_u8 (ucast ty))) (\<lambda>data_type.
     modify (push_column table
       \<lparr>col_table = Some table, col_name = field, col_type = data_type,
        col_length = (if 0 < sint len then Some len else None), col_is_pk = pk\<rparr>)))))))"

definition process_index_tuple :: "u64 \<Rightarrow> tuple \<Rightarrow> (catalog, unit) call" where
  "process_index_tuple row t =
     seq (column_value varchar_to_str ''sys_index index_name is not Varchar'' 0 t) (\<lambda>index.
     seq (column_value varchar_to_str ''sys_index table_name is not varchar'' 1 t) (\<lambda>table.
     seq (column_value varchar_to_str ''sys_index col_name is not Varchar'' 2 t) (\<lambda>col.
     seq (column_value boolean_to_bool ''sys_index is_unique is not Boolean'' 3 t) (\<lambda>unique.
     seq (column_value bigint_to_i64 ''sys_index root_page_id is not BigInt'' 4 t) (\<lambda>root.
     modify (\<lambda>c. c\<lparr>ct_indexes := (ct_indexes c)(table \<mapsto>
         (case ct_indexes c table of Some m \<Rightarrow> m | None \<Rightarrow> Map.empty)
           (index \<mapsto> \<lparr>im_root = root, im_name = index, im_unique = unique, im_column = col\<rparr>))\<rparr>))))))"

definition mark_page_dirty :: "page_id \<Rightarrow> (pool, unit) call" where
  "mark_page_dirty p = seq (read_frame p) (\<lambda>n. write_frame p (mark_dirty n))"

definition initialize_new_database :: "page_id set \<Rightarrow> (page_id set \<Rightarrow> page_id list) \<Rightarrow> (pool, unit) call" where
  "initialize_new_database pins order =
     seq (new_page pins True) (\<lambda>p1.
     seq (begin_page_mutation (insert p1 pins) p1 0) (\<lambda>_.
     seq (mark_page_dirty p1) (\<lambda>_.
     seq (new_page (insert p1 pins) True) (\<lambda>p2.
     seq (begin_page_mutation (insert p2 (insert p1 pins)) p2 0) (\<lambda>_.
     seq (mark_page_dirty p2) (\<lambda>_.
     seq (new_page (insert p2 (insert p1 pins)) True) (\<lambda>p3.
     seq (begin_page_mutation (insert p3 (insert p2 (insert p1 pins))) p3 0) (\<lambda>_.
     seq (mark_page_dirty p3) (\<lambda>_.
       if p1 \<noteq> SYS_TABLE_ROOTS_ROOT_ID \<or> p2 \<noteq> SYS_SCHEMAS_ROOT_ID \<or> p3 \<noteq> SYS_INDEXES_ROOT_ID
       then fail (CorruptPage ''failed to allocate system pages sequentially'')
       else seq (commit_transaction order 0) (\<lambda>_. flush_all_pages order))))))))))"

text \<open>The counter that is ready after the row ids of the tree at \<open>root\<close>.\<close>

definition max_sys_row_id :: "page_id set \<Rightarrow> (pool, u64) call" where
  "max_sys_row_id pins =
     seq (get_max_row_id pins SYS_TABLE_ROOTS_ROOT_ID) (\<lambda>a.
     seq (get_max_row_id pins SYS_SCHEMAS_ROOT_ID) (\<lambda>b.
     seq (get_max_row_id pins SYS_INDEXES_ROOT_ID) (\<lambda>c.
     ret (max (max (max 0 a) b) c))))"

definition load_row_counter :: "page_id set \<Rightarrow> string \<Rightarrow> (catalog \<times> pool, unit) call" where
  "load_row_counter pins table =
     seq (gets (\<lambda>(c, _). the (ct_roots c table))) (\<lambda>root.
     seq (on_snd (get_max_row_id pins root)) (\<lambda>m.
     on_fst (modify (\<lambda>c. c\<lparr>ct_row_ids := (ct_row_ids c)(table \<mapsto> m + 1)\<rparr>))))"

text \<open>A call with a local variable of its own.\<close>

definition with_local :: "'l \<Rightarrow> ('l \<times> 's, 'a) call \<Rightarrow> ('s, 'a \<times> 'l) call" where
  "with_local l m s = Option.bind (m (l, s)) (\<lambda>(r, l', s'). Some (case r of
     Ok a \<Rightarrow> (Ok (a, l'), s') | Err e \<Rightarrow> (Err e, s') | Panic \<Rightarrow> (Panic, s')))"

text \<open>The closure over \<open>raw_columns\<close> works on a local of the call.\<close>

definition load_schemas :: "page_id set \<Rightarrow> (catalog \<times> pool, unit) call" where
  "load_schemas pins =
     seq (on_snd (with_local Map.empty
            (scan_system_table pins SYS_SCHEMAS_ROOT_ID sys_tables_schema process_schema_tuple))) (\<lambda>(_, raw).
     on_fst (modify (\<lambda>c. c\<lparr>ct_schemas := ct_schemas c ++ (\<lambda>t. map_option schema_new (raw t))\<rparr>)))"

definition bootstrap ::
    "page_id set \<Rightarrow> (page_id set \<Rightarrow> page_id list) \<Rightarrow> (string set \<Rightarrow> string list) \<Rightarrow> (catalog \<times> pool, unit) call" where
  "bootstrap pins order keys =
     seq (gets (\<lambda>(_, s). pool_is_empty s)) (\<lambda>empty.
     seq (if empty then on_snd (initialize_new_database pins order) else ret ()) (\<lambda>_.
     seq (scan_system_table pins SYS_TABLE_ROOTS_ROOT_ID sys_roots_schema process_table_tuple) (\<lambda>_.
     seq (load_schemas pins) (\<lambda>_.
     seq (scan_system_table pins SYS_INDEXES_ROOT_ID sys_index_schema process_index_tuple) (\<lambda>_.
     seq (on_snd (max_sys_row_id pins)) (\<lambda>m.
     seq (on_fst (modify (\<lambda>c. c\<lparr>ct_sys_id := m + 1\<rparr>))) (\<lambda>_.
     seq (gets (\<lambda>(c, _). keys (dom (ct_roots c)))) (\<lambda>tables.
     for_each (load_row_counter pins) tables))))))))"

section \<open>Tables and indexes\<close>

text \<open>A row of a system table, under the next system row id.\<close>

definition insert_sys_row :: "page_id set \<Rightarrow> page_id \<Rightarrow> schema \<Rightarrow> tuple \<Rightarrow> u64 \<Rightarrow> (catalog \<times> pool, unit) call" where
  "insert_sys_row pins root sc t txn =
     seq (lift (tuple_encode sc t)) (\<lambda>data.
     seq (on_fst next_sys_row_id) (\<lambda>row.
     on_snd (bt_insert pins root row data txn)))"

definition i64_of_page :: "page_id \<Rightarrow> i64 res" where
  "i64_of_page p = (if p < 2 ^ 63 then Ok p else Panic)"

definition roots_tuple :: "string \<Rightarrow> i64 \<Rightarrow> tuple" where
  "roots_tuple table root = tuple_new [VVarchar table, VBigInt root]"

definition schema_tuple :: "string \<Rightarrow> column \<Rightarrow> tuple" where
  "schema_tuple table col = tuple_new [VVarchar table, VVarchar (col_name col),
     VInt (ucast (data_type_to_u8 (col_type col))),
     VInt (case col_length col of Some n \<Rightarrow> n | None \<Rightarrow> 0), VBoolean (col_is_pk col)]"

definition index_tuple :: "index_meta \<Rightarrow> string \<Rightarrow> i64 \<Rightarrow> tuple" where
  "index_tuple m table root = tuple_new [VVarchar (im_name m), VVarchar table, VVarchar (im_column m),
     VBoolean (im_unique m), VBigInt root]"

definition tag_column :: "string \<Rightarrow> column \<Rightarrow> column" where
  "tag_column table col = (if col_table col = None then col\<lparr>col_table := Some table\<rparr> else col)"

definition create_table ::
    "page_id set \<Rightarrow> string \<Rightarrow> schema \<Rightarrow> u64 \<Rightarrow> (catalog \<times> pool, unit) call" where
  "create_table pins table sc txn =
     (let sc = sc\<lparr>sc_columns := map (tag_column table) (sc_columns sc)\<rparr> in
     seq (gets (\<lambda>(c, _). table \<in> dom (ct_roots c))) (\<lambda>exists.
       if exists then fail (Duplicate ''table already exists'')
       else
         seq (on_snd (new_page pins True)) (\<lambda>root.
         seq (on_snd (begin_page_mutation (insert root pins) root txn)) (\<lambda>_.
         seq (on_snd (mark_page_dirty root)) (\<lambda>_.
         seq (lift (i64_of_page root)) (\<lambda>n.
         seq (insert_sys_row (insert root pins) SYS_TABLE_ROOTS_ROOT_ID sys_roots_schema (roots_tuple table n) txn) (\<lambda>_.
         seq (for_each (\<lambda>col. insert_sys_row (insert root pins) SYS_SCHEMAS_ROOT_ID sys_tables_schema
                (schema_tuple table col) txn) (sc_columns sc)) (\<lambda>_.
         on_fst (modify (\<lambda>c. c\<lparr>ct_roots := (ct_roots c)(table \<mapsto> root),
           ct_schemas := (ct_schemas c)(table \<mapsto> sc), ct_row_ids := (ct_row_ids c)(table \<mapsto> 1)\<rparr>))))))))))"

text \<open>The rows of a system table that name \<open>table\<close> in column \<open>i\<close>.\<close>

definition process_deletion ::
    "page_id \<Rightarrow> nat \<Rightarrow> string \<Rightarrow> u64 \<Rightarrow> tuple \<Rightarrow> ((page_id \<times> u64) list, unit) call" where
  "process_deletion root i table row t =
     seq (lift (vec_get (tp_values t) i)) (\<lambda>v.
       if varchar_to_str v = Some table then modify (\<lambda>ds. ds @ [(root, row)]) else ret ())"

definition sys_deletions :: "page_id set \<Rightarrow> string \<Rightarrow> ((page_id \<times> u64) list \<times> pool, unit) call" where
  "sys_deletions pins table =
     seq (scan_system_table pins SYS_TABLE_ROOTS_ROOT_ID sys_roots_schema
            (process_deletion SYS_TABLE_ROOTS_ROOT_ID 0 table)) (\<lambda>_.
     seq (scan_system_table pins SYS_SCHEMAS_ROOT_ID sys_tables_schema
            (process_deletion SYS_SCHEMAS_ROOT_ID 0 table)) (\<lambda>_.
     scan_system_table pins SYS_INDEXES_ROOT_ID sys_index_schema
            (process_deletion SYS_INDEXES_ROOT_ID 1 table)))"

definition drop_table :: "page_id set \<Rightarrow> string \<Rightarrow> u64 \<Rightarrow> (catalog \<times> pool, unit) call" where
  "drop_table pins table txn =
     seq (gets (\<lambda>(c, _). table \<in> dom (ct_roots c))) (\<lambda>exists.
       if \<not> exists then fail (TableNotFound ''table does not exists in database'')
       else
         seq (on_snd (with_local [] (sys_deletions pins table))) (\<lambda>(_, deletions).
         seq (on_fst (modify (\<lambda>c. c\<lparr>ct_roots := (ct_roots c)(table := None),
                ct_schemas := (ct_schemas c)(table := None), ct_indexes := (ct_indexes c)(table := None)\<rparr>))) (\<lambda>_.
         for_each (\<lambda>(root, row). on_snd (bt_delete_record pins root row txn)) deletions)))"

definition index_conflict :: "(string set \<Rightarrow> string list) \<Rightarrow> string \<Rightarrow> (string \<rightharpoonup> index_meta) \<Rightarrow> index_meta option" where
  "index_conflict keys col m = List.find (\<lambda>x. im_column x = col) (map (\<lambda>k. the (m k)) (keys (dom m)))"

definition create_index ::
    "page_id set \<Rightarrow> (string set \<Rightarrow> string list) \<Rightarrow> string \<Rightarrow> string \<Rightarrow> bool \<Rightarrow> string \<Rightarrow> u64 \<Rightarrow>
      (catalog \<times> pool, unit) call" where
  "create_index pins keys index table unique col txn =
     seq (gets (\<lambda>(c, _). table_schema table c)) (\<lambda>r.
     seq (lift r) (\<lambda>sc.
     seq (lift (case get_col_idx col sc of Err _ \<Rightarrow> Err (ColumnNotFound ''column does not exist in table'')
          | r \<Rightarrow> res_bind r (\<lambda>_. Ok ()))) (\<lambda>_.
     seq (gets (\<lambda>(c, _). case table_indexes table c of Some m \<Rightarrow> m | None \<Rightarrow> Map.empty)) (\<lambda>m.
     seq (on_fst (modify (\<lambda>c. c\<lparr>ct_indexes := (ct_indexes c)(table \<mapsto> m)\<rparr>))) (\<lambda>_.
       if index \<in> dom m then fail (Duplicate ''index already exists in table'')
       else if index_conflict keys col m \<noteq> None then fail (Duplicate ''column is already indexed'')
       else
         seq (on_snd (new_page pins True)) (\<lambda>root.
         seq (on_snd (begin_page_mutation (insert root pins) root txn)) (\<lambda>_.
         seq (on_snd (mark_page_dirty root)) (\<lambda>_.
         seq (lift (i64_of_page root)) (\<lambda>n.
         let meta = \<lparr>im_root = root, im_name = index, im_unique = unique, im_column = col\<rparr> in
         seq (insert_sys_row (insert root pins) SYS_INDEXES_ROOT_ID sys_index_schema (index_tuple meta table n) txn) (\<lambda>_.
         on_fst (modify (\<lambda>c. c\<lparr>ct_indexes := (ct_indexes c)(table \<mapsto> m(index \<mapsto> meta))\<rparr>))))))))))))"

end
