(* ===== verification/Evaluator.thy ===== *)
theory Evaluator
  imports Tuples
begin

text \<open>
  Bound expressions (src/src/planner/bound_expr.rs) and their evaluation on a tuple
  (src/src/execution/evaluator.rs), with the three-valued logic of SQL: a comparison with
  null is null, and AND and OR are those of Kleene's logic. The two \<open>unreachable!\<close> arms
  are \<open>Panic\<close>.
\<close>

datatype binary_operator = OpEq | OpNeq | OpGt | OpLt | OpGte | OpLte | OpAnd | OpOr

datatype bound_expr =
    ColumnRef nat data_type
  | Constant val
  | BinaryOp bound_expr binary_operator bound_expr

fun logic_operand :: "string \<Rightarrow> val \<Rightarrow> bool option res" where
  "logic_operand msg (VBoolean b) = Ok (Some b)"
| "logic_operand msg VNull = Ok None"
| "logic_operand msg _ = Err (SyntaxErr msg)"

fun and_3vl :: "bool option \<Rightarrow> bool option \<Rightarrow> val" where
  "and_3vl (Some False) _ = VBoolean False"
| "and_3vl _ (Some False) = VBoolean False"
| "and_3vl (Some True) (Some True) = VBoolean True"
| "and_3vl _ _ = VNull"

fun or_3vl :: "bool option \<Rightarrow> bool option \<Rightarrow> val" where
  "or_3vl (Some True) _ = VBoolean True"
| "or_3vl _ (Some True) = VBoolean True"
| "or_3vl (Some False) (Some False) = VBoolean False"
| "or_3vl _ _ = VNull"

definition eval_logical_op :: "val \<Rightarrow> binary_operator \<Rightarrow> val \<Rightarrow> val res" where
  "eval_logical_op l op r =
     res_bind (logic_operand ''left operand of logical operator must be boolean'' l) (\<lambda>lb.
     res_bind (logic_operand ''right operand of logical operator must be boolean'' r) (\<lambda>rb.
       if op = OpAnd then Ok (and_3vl lb rb)
       else if op = OpOr then Ok (or_3vl lb rb)
       else Panic))"

fun compare_vals :: "binary_operator \<Rightarrow> val \<Rightarrow> val \<Rightarrow> bool res" where
  "compare_vals OpNeq l r = Ok (l \<noteq> r)"
| "compare_vals OpEq l r = Ok (l = r)"
| "compare_vals OpGt l r = Ok (l > r)"
| "compare_vals OpLt l r = Ok (l < r)"
| "compare_vals OpGte l r = Ok (l \<ge> r)"
| "compare_vals OpLte l r = Ok (l \<le> r)"
| "compare_vals _ l r = Panic"

definition eval_binary_op :: "val \<Rightarrow> binary_operator \<Rightarrow> val \<Rightarrow> val res" where
  "eval_binary_op l op r =
     (if op = OpAnd \<or> op = OpOr then eval_logical_op l op r
      else if l = VNull \<or> r = VNull then Ok VNull
      else res_bind (compare_vals op l r) (\<lambda>b. Ok (VBoolean b)))"

fun evaluate :: "bound_expr \<Rightarrow> val list \<Rightarrow> val res" where
  "evaluate (ColumnRef i ty) vs =
     (if i < length vs then Ok (vs ! i)
      else Err (CorruptPage ''tuple index out of bounds during evaluation''))"
| "evaluate (BinaryOp l op r) vs =
     res_bind (evaluate l vs) (\<lambda>lv. res_bind (evaluate r vs) (\<lambda>rv. eval_binary_op lv op rv))"
| "evaluate (Constant v) vs = Ok v"

section \<open>Kleene's logic\<close>

text \<open>The truth values in Kleene's order: false, unknown, true.\<close>

fun kleene :: "val \<Rightarrow> nat option" where
  "kleene (VBoolean False) = Some 0"
| "kleene VNull = Some 1"
| "kleene (VBoolean True) = Some 2"
| "kleene _ = None"

lemma kleene_cases:
  assumes "kleene v = Some n"
  obtains "v = VBoolean False" "n = 0" | "v = VNull" "n = 1" | "v = VBoolean True" "n = 2"
  using assms by (cases v rule: kleene.cases) auto

lemma eval_logical_kleene:
  assumes "kleene l = Some a" "kleene r = Some b"
  shows "\<exists>v. eval_binary_op l OpAnd r = Ok v \<and> kleene v = Some (min a b)"
    and "\<exists>v. eval_binary_op l OpOr r = Ok v \<and> kleene v = Some (max a b)"
  by (rule kleene_cases [OF assms(1)]; rule kleene_cases [OF assms(2)];
      simp add: eval_binary_op_def eval_logical_op_def)+

lemma eval_logical_error:
  assumes "kleene l = None \<or> kleene r = None" "op = OpAnd \<or> op = OpOr"
  shows "\<exists>m. eval_binary_op l op r = Err (SyntaxErr m)"
  using assms
  by (cases l rule: kleene.cases; cases r rule: kleene.cases)
    (auto simp: eval_binary_op_def eval_logical_op_def)

section \<open>Typing\<close>

fun val_type :: "val \<Rightarrow> data_type option" where
  "val_type (VBigInt _) = Some TBigInt" | "val_type (VInt _) = Some TInt"
| "val_type (VBoolean _) = Some TBoolean" | "val_type (VVarchar _) = Some TVarchar"
| "val_type VNull = None"

definition has_type :: "val \<Rightarrow> data_type \<Rightarrow> bool" where
  "has_type v ty \<longleftrightarrow> v = VNull \<or> val_type v = Some ty"

text \<open>Well-typed expressions over a row of given column types.\<close>

fun expr_ok :: "data_type list \<Rightarrow> bound_expr \<Rightarrow> data_type \<Rightarrow> bool" where
  "expr_ok cols (ColumnRef i t) ty \<longleftrightarrow> i < length cols \<and> cols ! i = t \<and> t = ty"
| "expr_ok cols (Constant v) ty \<longleftrightarrow> has_type v ty"
| "expr_ok cols (BinaryOp l op r) ty \<longleftrightarrow> ty = TBoolean \<and>
     (if op = OpAnd \<or> op = OpOr then expr_ok cols l TBoolean \<and> expr_ok cols r TBoolean
      else (\<exists>t \<in> {TBigInt, TInt, TBoolean, TVarchar}. expr_ok cols l t \<and> expr_ok cols r t))"

lemma has_type_boolean: "has_type v TBoolean \<longleftrightarrow> kleene v \<noteq> None"
  by (cases v rule: kleene.cases) (auto simp: has_type_def)

lemma kleene_has_type: "kleene v = Some n \<Longrightarrow> has_type v TBoolean"
  by (simp add: has_type_boolean)

lemma evaluate_has_type:
  assumes "list_all2 has_type vs cols" "expr_ok cols e ty"
  shows "\<exists>v. evaluate e vs = Ok v \<and> has_type v ty"
  using assms(2)
proof (induction e arbitrary: ty)
  case (ColumnRef i t)
  then show ?case using assms(1) list_all2_lengthD [OF assms(1)] list_all2_nthD2 [OF assms(1), of i] by auto
next
  case (Constant v)
  then show ?case by simp
next
  case (BinaryOp l op r)
  show ?case
  proof (cases "op = OpAnd \<or> op = OpOr")
    case True
    with BinaryOp obtain lv rv where v: "evaluate l vs = Ok lv" "has_type lv TBoolean"
      "evaluate r vs = Ok rv" "has_type rv TBoolean" by (metis expr_ok.simps(3))
    then obtain a b where "kleene lv = Some a" "kleene rv = Some b" by (auto simp: has_type_boolean)
    with eval_logical_kleene [of lv a rv b] True v BinaryOp.prems show ?thesis
      using kleene_has_type by auto
  next
    case False
    with BinaryOp.prems obtain t where "expr_ok cols l t" "expr_ok cols r t" by auto
    with BinaryOp.IH obtain lv rv where v: "evaluate l vs = Ok lv" "evaluate r vs = Ok rv" by blast
    have "\<exists>w. eval_binary_op lv op rv = Ok w \<and> has_type w TBoolean"
      using False by (cases op) (simp_all add: eval_binary_op_def has_type_def)
    with v BinaryOp.prems show ?thesis by auto
  qed
qed

text \<open>A comparison with a null operand is null.\<close>

lemma compare_null:
  "op \<noteq> OpAnd \<Longrightarrow> op \<noteq> OpOr \<Longrightarrow> l = VNull \<or> r = VNull \<Longrightarrow> eval_binary_op l op r = Ok VNull"
  by (simp add: eval_binary_op_def)

end
