(* ===== verification/Executor.thy ===== *)
theory Executor
  imports StateErr Evaluator
begin

text \<open>
  The Volcano operators of src/src/execution: the interface \<open>Executor\<close> (execution.rs) as the
  locale \<open>row_source\<close>, and the streaming operators filter.rs, limit.rs, emit.rs and value.rs.

  An operator is a call on its own state and on the execution context \<open>'s\<close>, so that both
  keep what was done to them when a call fails. The child of an operator is a field of its
  state and the child's \<open>next\<close> and \<open>reset\<close>, which the code calls through a trait object,
  are parameters of the operator's definitions.
\<close>

section \<open>The interface\<close>

type_synonym ('c, 's) row_call = "('c \<times> 's, tuple option) call"
type_synonym 'c reset = "('c, unit) call"

text \<open>The call \<open>self.child.next(ctx)\<close>.\<close>

definition child_next ::
    "('x \<Rightarrow> 'c) \<Rightarrow> ('c \<Rightarrow> 'x \<Rightarrow> 'x) \<Rightarrow> ('c, 's) row_call \<Rightarrow> ('x, 's) row_call" where
  "child_next get put nxt = focus (\<lambda>(x, s). (get x, s)) (\<lambda>(c, s) (x, _). (put c x, s)) nxt"

lemma outcome_focus:
  "outcome (focus get put m x) Q E \<longleftrightarrow>
   outcome (m (get x)) (\<lambda>a t. Q a (put t x)) (\<lambda>e t. E e (put t x))"
  by (auto simp: outcome_def focus_def split: option.splits res.splits prod.splits bind_split)

lemma outcome_child_next:
  "outcome (child_next get put nxt (x, s)) Q E \<longleftrightarrow>
   outcome (nxt (get x, s)) (\<lambda>r (c, s'). Q r (put c x, s')) (\<lambda>e (c, s'). E e (put c x, s'))"
  unfolding child_next_def outcome_focus by (simp add: case_prod_unfold)

lemma outcome_weaken_pair:
  assumes "outcome x (\<lambda>r (c, s). Q r c s) (\<lambda>e (c, s). E e c s)"
    "\<And>r c s. Q r c s \<Longrightarrow> Q' r (c, s)" "\<And>e c s. E e c s \<Longrightarrow> E' e (c, s)"
  shows "outcome x Q' E'"
  using assms(1) by (rule outcome_weaken) (auto intro: assms)

lemma outcome_pairI:
  assumes "outcome (m x) (\<lambda>r (c, s). R r c s) E" "\<And>r c s. R r c s \<Longrightarrow> outcome (f r (c, s)) Q E"
  shows "outcome (seq m f x) Q E"
  using assms(1) by (rule outcome_seqI) (auto intro: assms(2))

definition first :: "'a list \<Rightarrow> 'a option" where
  "first ts = (case ts of [] \<Rightarrow> None | t # _ \<Rightarrow> Some t)"

lemma first_simps [simp]: "first [] = None" "first (t # ts) = Some t"
  by (simp_all add: first_def)

text \<open>
  The contract of an operator that reads: \<open>stream R c s ts\<close> says that an operator in the
  state \<open>c\<close> over the rows \<open>R\<close> has yet to yield \<open>ts\<close>. Every \<open>next\<close> returns the next of these
  rows and then \<open>None\<close> for ever, or fails with an error of the store (\<open>fails\<close>); it changes
  the context only in ways other operators do not notice (\<open>evolves\<close>). A \<open>reset\<close> starts over.
\<close>

locale row_source =
  fixes nxt :: "('c, 's) row_call"
    and rst :: "'c reset"
    and stream :: "tuple list \<Rightarrow> 'c \<Rightarrow> 's \<Rightarrow> tuple list \<Rightarrow> bool"
    and evolves :: "'s \<Rightarrow> 's \<Rightarrow> bool"
    and fails :: "error \<Rightarrow> bool"
  assumes next_stream: "stream R c s ts \<Longrightarrow> outcome (nxt (c, s))
        (\<lambda>r (c', s'). r = first ts \<and> stream R c' s' (tl ts) \<and> evolves s s')
        (\<lambda>e (c', s'). fails e \<and> evolves s s')"
    and reset_stream: "stream R c s ts \<Longrightarrow> \<exists>c'. rst c = ret () c' \<and> stream R c' s R"
    and evolves_stream: "stream R c s ts \<Longrightarrow> evolves s s' \<Longrightarrow> stream R c s' ts"
    and evolves_refl: "evolves s s"
    and evolves_trans: "evolves s s' \<Longrightarrow> evolves s' s'' \<Longrightarrow> evolves s s''"

text \<open>The loop that pulls every row, as \<open>execute_statement\<close>, sort, aggregate and others do.\<close>

partial_function (option) drain :: "('c, 's) row_call \<Rightarrow> ('c \<times> 's, tuple list) call" where
  "drain nxt x = seq nxt (\<lambda>r x. case r of
     None \<Rightarrow> ret [] x
   | Some t \<Rightarrow> seq (drain nxt) (\<lambda>ts. ret (t # ts)) x) x"

declare drain.simps [code]

section \<open>Filter\<close>

record 'c filter_exec =
  fl_predicate :: bound_expr
  fl_child :: 'c

definition filter_child :: "('c, 's) row_call \<Rightarrow> ('c filter_exec, 's) row_call" where
  "filter_child = child_next fl_child (\<lambda>c. fl_child_update (\<lambda>_. c))"

partial_function (option) filter_next :: "('c, 's) row_call \<Rightarrow> ('c filter_exec, 's) row_call" where
  "filter_next nxt x = seq (filter_child nxt) (\<lambda>r x. case r of
     None \<Rightarrow> ret None x
   | Some t \<Rightarrow> seq (lift (evaluate (fl_predicate (fst x)) (tp_values t))) (\<lambda>v x.
       if v = VBoolean False \<or> v = VNull then filter_next nxt x
       else if v = VBoolean True then ret (Some t) x
       else fail (SyntaxErr ''WHERE clause predicate must evaluate to a boolean'') x) x) x"

declare filter_next.simps [code]

definition filter_reset :: "'c reset \<Rightarrow> 'c filter_exec reset" where
  "filter_reset rst = focus fl_child (\<lambda>c. fl_child_update (\<lambda>_. c)) rst"

section \<open>Limit and offset\<close>

record 'c limit_exec =
  le_child :: 'c
  le_limit :: "nat option"
  le_offset :: "nat option"
  le_skipped :: nat
  le_yielded :: nat

definition limit_new :: "'c \<Rightarrow> nat option \<Rightarrow> nat option \<Rightarrow> 'c limit_exec" where
  "limit_new c lim off =
     \<lparr>le_child = c, le_limit = lim, le_offset = off, le_skipped = 0, le_yielded = 0\<rparr>"

definition limit_child :: "('c, 's) row_call \<Rightarrow> ('c limit_exec, 's) row_call" where
  "limit_child = child_next le_child (\<lambda>c. le_child_update (\<lambda>_. c))"

text \<open>The loop that skips rows; the result is false when the child ended first.\<close>

partial_function (option) limit_skip ::
    "('c, 's) row_call \<Rightarrow> nat \<Rightarrow> ('c limit_exec \<times> 's, bool) call" where
  "limit_skip nxt offset x =
     (if le_skipped (fst x) < offset then
        seq (limit_child nxt) (\<lambda>r x. case r of
          None \<Rightarrow> ret False x
        | Some _ \<Rightarrow> limit_skip nxt offset (apfst (le_skipped_update Suc) x)) x
      else ret True x)"

declare limit_skip.simps [code]

definition limit_next :: "('c, 's) row_call \<Rightarrow> ('c limit_exec, 's) row_call" where
  "limit_next nxt x =
     (if (case le_limit (fst x) of Some lim \<Rightarrow> lim \<le> le_yielded (fst x) | None \<Rightarrow> False) then ret None x
      else seq (case le_offset (fst x) of Some off \<Rightarrow> limit_skip nxt off | None \<Rightarrow> ret True) (\<lambda>met.
        if \<not> met then ret None
        else seq (limit_child nxt) (\<lambda>r. case r of
          Some t \<Rightarrow> seq (modify (apfst (le_yielded_update Suc))) (\<lambda>_. ret (Some t))
        | None \<Rightarrow> ret None)) x)"

definition limit_reset :: "'c reset \<Rightarrow> 'c limit_exec reset" where
  "limit_reset rst =
     seq (focus le_child (\<lambda>c. le_child_update (\<lambda>_. c)) rst) (\<lambda>_.
     modify (\<lambda>x. x\<lparr>le_yielded := 0, le_skipped := 0\<rparr>))"

section \<open>Projection\<close>

record 'c emit_exec =
  em_child :: 'c
  em_exprs :: "bound_expr list"

definition emit_next :: "('c, 's) row_call \<Rightarrow> ('c emit_exec, 's) row_call" where
  "emit_next nxt x =
     seq (child_next em_child (\<lambda>c. em_child_update (\<lambda>_. c)) nxt) (\<lambda>r x. case r of
       None \<Rightarrow> ret None x
     | Some t \<Rightarrow>
         seq (lift (res_map (\<lambda>e. evaluate e (tp_values t)) (em_exprs (fst x)))) (\<lambda>vs.
         ret (Some (tuple_new vs))) x) x"

definition emit_reset :: "'c reset \<Rightarrow> 'c emit_exec reset" where
  "emit_reset rst = focus em_child (\<lambda>c. em_child_update (\<lambda>_. c)) rst"

section \<open>Literal rows\<close>

record values_exec =
  vx_values :: "bound_expr list list"
  vx_cursor :: nat

definition values_next :: "(values_exec, 's) row_call" where
  "values_next x =
     (if length (vx_values (fst x)) \<le> vx_cursor (fst x) then ret None x
      else seq (modify (apfst (vx_cursor_update Suc))) (\<lambda>_.
           seq (lift (res_map (\<lambda>e. evaluate e []) (vx_values (fst x) ! vx_cursor (fst x)))) (\<lambda>vs.
           ret (Some (tuple_new vs)))) x)"

definition values_reset :: "values_exec reset" where
  "values_reset = modify (\<lambda>x. x\<lparr>vx_cursor := 0\<rparr>)"

section \<open>What the operators yield\<close>

text \<open>A predicate selects the rows on which it is true, and rejects false and null.\<close>

definition selects :: "bound_expr \<Rightarrow> tuple \<Rightarrow> bool" where
  "selects p t \<longleftrightarrow> evaluate p (tp_values t) = Ok (VBoolean True)"

definition decides :: "bound_expr \<Rightarrow> tuple \<Rightarrow> bool" where
  "decides p t \<longleftrightarrow>
     selects p t \<or> evaluate p (tp_values t) = Ok (VBoolean False) \<or> evaluate p (tp_values t) = Ok VNull"

definition filter_stream :: "bound_expr \<Rightarrow> (tuple list \<Rightarrow> 'c \<Rightarrow> 's \<Rightarrow> tuple list \<Rightarrow> bool) \<Rightarrow> tuple list \<Rightarrow>
     'c filter_exec \<Rightarrow> 's \<Rightarrow> tuple list \<Rightarrow> bool" where
  "filter_stream p stream R x s ts \<longleftrightarrow>
     fl_predicate x = p \<and> (\<exists>R0 ts0. stream R0 (fl_child x) s ts0 \<and>
     (\<forall>t \<in> set R0 \<union> set ts0. decides p t) \<and> R = filter (selects p) R0 \<and> ts = filter (selects p) ts0)"

lemma filter_streamI:
  "stream R0 (fl_child x) s ts0 \<Longrightarrow> fl_predicate x = p \<Longrightarrow> \<forall>t \<in> set R0 \<union> set ts0. decides p t \<Longrightarrow>
   filter_stream p stream (filter (selects p) R0) x s (filter (selects p) ts0)"
  unfolding filter_stream_def by blast

definition page_rows :: "nat option \<Rightarrow> nat option \<Rightarrow> 'a list \<Rightarrow> 'a list" where
  "page_rows lim off ts =
     (let rs = drop (case off of None \<Rightarrow> 0 | Some n \<Rightarrow> n) ts in case lim of None \<Rightarrow> rs | Some n \<Rightarrow> take n rs)"

definition limit_stream :: "(tuple list \<Rightarrow> 'c \<Rightarrow> 's \<Rightarrow> tuple list \<Rightarrow> bool) \<Rightarrow> tuple list \<Rightarrow>
     'c limit_exec \<Rightarrow> 's \<Rightarrow> tuple list \<Rightarrow> bool" where
  "limit_stream stream R x s ts \<longleftrightarrow> (\<exists>R0 ts0. stream R0 (le_child x) s ts0 \<and>
     R = page_rows (le_limit x) (le_offset x) R0 \<and>
     ts = page_rows (map_option (\<lambda>n. n - le_yielded x) (le_limit x))
            (map_option (\<lambda>n. n - le_skipped x) (le_offset x)) ts0)"

definition project :: "bound_expr list \<Rightarrow> tuple \<Rightarrow> tuple res" where
  "project es t = res_bind (res_map (\<lambda>e. evaluate e (tp_values t)) es) (\<lambda>vs. Ok (tuple_new vs))"

definition emit_stream :: "bound_expr list \<Rightarrow> (tuple list \<Rightarrow> 'c \<Rightarrow> 's \<Rightarrow> tuple list \<Rightarrow> bool) \<Rightarrow> tuple list \<Rightarrow>
     'c emit_exec \<Rightarrow> 's \<Rightarrow> tuple list \<Rightarrow> bool" where
  "emit_stream es stream R x s ts \<longleftrightarrow> em_exprs x = es \<and> (\<exists>R0 ts0. stream R0 (em_child x) s ts0 \<and>
     res_map (project es) R0 = Ok R \<and> res_map (project es) ts0 = Ok ts)"

definition values_stream :: "tuple list \<Rightarrow> values_exec \<Rightarrow> 's \<Rightarrow> tuple list \<Rightarrow> bool" where
  "values_stream R x s ts \<longleftrightarrow> res_map (\<lambda>es. project es (tuple_new [])) (vx_values x) = Ok R \<and>
     ts = drop (vx_cursor x) R"

lemma res_map_nth:
  "res_map f xs = Ok ys \<Longrightarrow> length ys = length xs \<and> (\<forall>i < length xs. f (xs ! i) = Ok (ys ! i))"
proof (induction xs arbitrary: ys)
  case (Cons x xs)
  then obtain y ys' where "f x = Ok y" "res_map f xs = Ok ys'" "ys = y # ys'"
    by (auto simp: res_bind_eq_Ok)
  with Cons.IH show ?case by (auto simp: nth_Cons split: nat.split)
qed simp

lemma evolves_values: "row_source values_next values_reset values_stream (=) (\<lambda>_. False)"
proof
  fix R x and s :: 's and ts assume st: "values_stream R x s ts"
  then have r: "length R = length (vx_values x)"
    "\<And>i. i < length (vx_values x) \<Longrightarrow> project (vx_values x ! i) (tuple_new []) = Ok (R ! i)"
    using res_map_nth unfolding values_stream_def by blast+
  show "outcome (values_next (x, s))
        (\<lambda>r (c', s'). r = first ts \<and> values_stream R c' s' (tl ts) \<and> s = s') (\<lambda>e (c', s'). False \<and> s = s')"
  proof (cases "vx_cursor x < length (vx_values x)")
    case True
    then obtain vs where vs: "res_map (\<lambda>e. evaluate e []) (vx_values x ! vx_cursor x) = Ok vs"
      "R ! vx_cursor x = tuple_new vs"
      using r(2) by (fastforce simp: project_def res_bind_eq_Ok tuple_new_def)
    have "drop (vx_cursor x) R = tuple_new vs # drop (Suc (vx_cursor x)) R"
      using Cons_nth_drop_Suc [of "vx_cursor x" R] vs(2) True r(1) by simp
    then show ?thesis using True st vs
      by (simp add: values_next_def values_stream_def)
  qed (use st r in \<open>simp add: values_next_def values_stream_def\<close>)
next
  fix R x and s :: 's and ts assume "values_stream R x s ts"
  then show "\<exists>c'. values_reset x = ret () c' \<and> values_stream R c' s R"
    by (simp add: values_reset_def modify_def ret_def values_stream_def)
qed (simp_all add: values_stream_def)

interpretation vals: row_source values_next values_reset values_stream "(=)" "\<lambda>_. False"
  by (rule evolves_values)

context row_source
begin

lemma drain_stream:
  "stream R c s ts \<Longrightarrow> outcome (drain nxt (c, s))
     (\<lambda>r (c', s'). r = ts \<and> stream R c' s' [] \<and> evolves s s') (\<lambda>e (c', s'). fails e \<and> evolves s s')"
proof (induction ts arbitrary: c s)
  case Nil
  show ?case
    unfolding drain.simps [of nxt "(c, s)"]
    by (rule outcome_seqI, rule next_stream [OF Nil]) auto
next
  case (Cons t ts)
  show ?case
    unfolding drain.simps [of nxt "(c, s)"]
  proof (rule outcome_pairI, rule next_stream [OF Cons.prems])
    fix r c1 s1 assume c1: "r = first (t # ts) \<and> stream R c1 s1 (tl (t # ts)) \<and> evolves s s1"
    have "outcome (drain nxt (c1, s1))
       (\<lambda>r (c', s'). t # r = t # ts \<and> stream R c' s' [] \<and> evolves s s') (\<lambda>e (c', s'). fails e \<and> evolves s s')"
      by (rule outcome_weaken_pair, rule Cons.IH [of c1 s1]) (use c1 evolves_trans in auto)
    then show "outcome (case r of None \<Rightarrow> ret [] (c1, s1) | Some t \<Rightarrow> seq (drain nxt) (\<lambda>ts. ret (t # ts)) (c1, s1))
       (\<lambda>r (c', s'). r = t # ts \<and> stream R c' s' [] \<and> evolves s s') (\<lambda>e (c', s'). fails e \<and> evolves s s')"
      using c1 by (simp add: outcome_seq)
  qed
qed

lemma filter_source:
  "row_source (filter_next nxt) (filter_reset rst) (filter_stream p stream) evolves fails"
proof
  fix R x s ts assume "filter_stream p stream R x s ts"
  then obtain R0 ts0 where x: "fl_predicate x = p" "\<forall>t \<in> set R0 \<union> set ts0. decides p t"
    "R = filter (selects p) R0" "ts = filter (selects p) ts0" and st: "stream R0 (fl_child x) s ts0"
    unfolding filter_stream_def by blast
  show "outcome (filter_next nxt (x, s))
    (\<lambda>r (c', s'). r = first ts \<and> filter_stream p stream R c' s' (tl ts) \<and> evolves s s')
    (\<lambda>e (c', s'). fails e \<and> evolves s s')"
    unfolding x(4) using st x(1,2)
  proof (induction ts0 arbitrary: x s)
    case Nil
    show ?case
      unfolding filter_next.simps [of nxt "(x, s)"] filter_child_def
      by (rule outcome_seqI, unfold outcome_child_next, rule outcome_weaken_pair, rule next_stream [OF Nil(1)])
        (use Nil x(3) filter_streamI [of stream R0 _ _ "[]"] in auto)
  next
    case (Cons t ts0)
    show ?case
      unfolding filter_next.simps [of nxt "(x, s)"]
    proof (rule outcome_pairI [where R = "\<lambda>r x' s'. r = Some t \<and> fl_predicate x' = p \<and>
          stream R0 (fl_child x') s' ts0 \<and> evolves s s'"])
      show "outcome (filter_child nxt (x, s)) (\<lambda>r (x', s'). r = Some t \<and> fl_predicate x' = p \<and>
          stream R0 (fl_child x') s' ts0 \<and> evolves s s') (\<lambda>e (c', s'). fails e \<and> evolves s s')"
        unfolding filter_child_def outcome_child_next
        by (rule outcome_weaken_pair, rule next_stream [OF Cons.prems(1)]) (use Cons.prems(2) in auto)
      fix r and x1 :: "'c filter_exec" and s1
      assume b: "r = Some t \<and> fl_predicate x1 = p \<and> stream R0 (fl_child x1) s1 ts0 \<and> evolves s s1"
      have IH: "outcome (filter_next nxt (x1, s1))
        (\<lambda>r (c', s'). r = first (filter (selects p) ts0) \<and>
           filter_stream p stream R c' s' (tl (filter (selects p) ts0)) \<and> evolves s s')
        (\<lambda>e (c', s'). fails e \<and> evolves s s')"
        by (rule outcome_weaken_pair, rule Cons.IH [of x1 s1])
          (use Cons.prems(3) b evolves_trans in auto)
      have "decides p t" using Cons.prems(3) by simp
      then show "outcome (case r of
     None \<Rightarrow> ret None (x1, s1)
   | Some t \<Rightarrow> seq (lift (evaluate (fl_predicate (fst (x1, s1))) (tp_values t))) (\<lambda>v x.
       if v = VBoolean False \<or> v = VNull then filter_next nxt x
       else if v = VBoolean True then ret (Some t) x
       else fail (SyntaxErr ''WHERE clause predicate must evaluate to a boolean'') x) (x1, s1))
        (\<lambda>r (c', s'). r = first (filter (selects p) (t # ts0)) \<and>
           filter_stream p stream R c' s' (tl (filter (selects p) (t # ts0))) \<and> evolves s s')
        (\<lambda>e (c', s'). fails e \<and> evolves s s')"
        unfolding decides_def
      proof (elim disjE)
        assume s: "selects p t"
        have "filter_stream p stream R x1 s1 (filter (selects p) ts0)"
          using b Cons.prems(3) unfolding x(3) by (intro filter_streamI) auto
        then show ?thesis using s b by (simp add: selects_def)
      qed (use IH b in \<open>simp_all add: selects_def\<close>)
    qed
  qed
next
  fix R x s ts assume "filter_stream p stream R x s ts"
  then obtain R0 ts0 where x: "fl_predicate x = p" "\<forall>t \<in> set R0 \<union> set ts0. decides p t"
    "R = filter (selects p) R0" and st: "stream R0 (fl_child x) s ts0"
    unfolding filter_stream_def by blast
  from reset_stream [OF st] obtain c' where "rst (fl_child x) = ret () c'" "stream R0 c' s R0" by blast
  with x show "\<exists>c'. filter_reset rst x = ret () c' \<and> filter_stream p stream R c' s R"
    by (intro exI [of _ "x\<lparr>fl_child := c'\<rparr>"])
      (auto simp: filter_reset_def focus_def ret_def intro!: filter_streamI)
next
  fix R x s ts s' assume "filter_stream p stream R x s ts" "evolves s s'"
  then show "filter_stream p stream R x s' ts"
    using evolves_stream unfolding filter_stream_def by blast
qed (use evolves_refl evolves_trans in blast)+

end

lemma page_rows_simps [simp]:
  "page_rows lim off [] = []" "page_rows (Some 0) off ts = []" "page_rows lim (Some 0) ts = page_rows lim None ts"
  "page_rows None None ts = ts" "page_rows (Some (Suc n)) None (t # ts) = t # page_rows (Some n) None ts"
  by (simp_all add: page_rows_def Let_def split: option.split)

lemma page_rows_drop: "page_rows lim (Some n) ts = page_rows lim None (drop n ts)"
  by (simp add: page_rows_def)

lemma limit_streamI:
  "stream R0 (le_child x) s ts0 \<Longrightarrow>
   limit_stream stream (page_rows (le_limit x) (le_offset x) R0) x s
     (page_rows (map_option (\<lambda>n. n - le_yielded x) (le_limit x))
       (map_option (\<lambda>n. n - le_skipped x) (le_offset x)) ts0)"
  unfolding limit_stream_def by blast

context row_source
begin

lemma limit_skip_spec:
  "stream R0 (le_child x) s ts0 \<Longrightarrow> outcome (limit_skip nxt off (x, s))
    (\<lambda>met (x', s'). le_limit x' = le_limit x \<and> le_offset x' = le_offset x \<and> le_yielded x' = le_yielded x \<and>
       stream R0 (le_child x') s' (drop (off - le_skipped x) ts0) \<and> evolves s s' \<and>
       (if met then off \<le> le_skipped x' else drop (off - le_skipped x) ts0 = []))
    (\<lambda>e (x', s'). fails e \<and> evolves s s')"
proof (induction ts0 arbitrary: x s)
  case Nil
  show ?case
  proof (cases "le_skipped x < off")
    case True
    show ?thesis
      unfolding limit_skip.simps [of nxt off "(x, s)"] fst_conv if_P [OF True]
      by (rule outcome_pairI [where R = "\<lambda>r x' s'. r = None \<and> le_limit x' = le_limit x \<and>
            le_offset x' = le_offset x \<and> le_yielded x' = le_yielded x \<and>
            stream R0 (le_child x') s' [] \<and> evolves s s'"],
          unfold limit_child_def outcome_child_next, rule outcome_weaken_pair, rule next_stream [OF Nil])
        auto
  next
    case False
    then show ?thesis using Nil evolves_refl by (simp add: limit_skip.simps)
  qed
next
  case (Cons t ts0)
  show ?case
  proof (cases "le_skipped x < off")
    case True
    show ?thesis
      unfolding limit_skip.simps [of nxt off "(x, s)"] fst_conv if_P [OF True]
    proof (rule outcome_pairI [where R = "\<lambda>r x' s'. r = Some t \<and> le_limit x' = le_limit x \<and>
            le_offset x' = le_offset x \<and> le_yielded x' = le_yielded x \<and> le_skipped x' = le_skipped x \<and>
            stream R0 (le_child x') s' ts0 \<and> evolves s s'"])
      show "outcome (limit_child nxt (x, s)) (\<lambda>r (x', s'). r = Some t \<and> le_limit x' = le_limit x \<and>
            le_offset x' = le_offset x \<and> le_yielded x' = le_yielded x \<and> le_skipped x' = le_skipped x \<and>
            stream R0 (le_child x') s' ts0 \<and> evolves s s') (\<lambda>e (x', s'). fails e \<and> evolves s s')"
        unfolding limit_child_def outcome_child_next
        by (rule outcome_weaken_pair, rule next_stream [OF Cons.prems]) auto
      fix r and x1 :: "'c limit_exec" and s1
      assume b: "r = Some t \<and> le_limit x1 = le_limit x \<and>
            le_offset x1 = le_offset x \<and> le_yielded x1 = le_yielded x \<and> le_skipped x1 = le_skipped x \<and>
            stream R0 (le_child x1) s1 ts0 \<and> evolves s s1"
      let ?x = "x1\<lparr>le_skipped := Suc (le_skipped x)\<rparr>"
      have d: "drop (off - le_skipped x) (t # ts0) = drop (off - le_skipped ?x) ts0"
        using True by (cases "off - le_skipped x") (simp_all add: Suc_diff_Suc [symmetric])
      have u: "le_skipped_update Suc x1 = ?x" using b by simp
      have "outcome (limit_skip nxt off (?x, s1))
        (\<lambda>met (x', s'). le_limit x' = le_limit x \<and> le_offset x' = le_offset x \<and> le_yielded x' = le_yielded x \<and>
           stream R0 (le_child x') s' (drop (off - le_skipped ?x) ts0) \<and> evolves s s' \<and>
           (if met then off \<le> le_skipped x' else drop (off - le_skipped ?x) ts0 = []))
        (\<lambda>e (x', s'). fails e \<and> evolves s s')"
        by (rule outcome_weaken_pair, rule Cons.IH [of ?x s1]) (use b in \<open>auto intro: evolves_trans\<close>)
      then show "outcome (case r of None \<Rightarrow> ret False (x1, s1)
        | Some _ \<Rightarrow> limit_skip nxt off (apfst (le_skipped_update Suc) (x1, s1)))
        (\<lambda>met (x', s'). le_limit x' = le_limit x \<and> le_offset x' = le_offset x \<and> le_yielded x' = le_yielded x \<and>
           stream R0 (le_child x') s' (drop (off - le_skipped x) (t # ts0)) \<and> evolves s s' \<and>
           (if met then off \<le> le_skipped x' else drop (off - le_skipped x) (t # ts0) = []))
        (\<lambda>e (x', s'). fails e \<and> evolves s s')"
        unfolding d apfst_conv u using b by simp
    qed
  next
    case False
    then show ?thesis using Cons.prems evolves_refl by (simp add: limit_skip.simps)
  qed
qed

lemma limit_source:
  "row_source (limit_next nxt) (limit_reset rst) (limit_stream stream) evolves fails"
proof
  fix R and x :: "'c limit_exec" and s ts assume "limit_stream stream R x s ts"
  then obtain R0 ts0 where st: "stream R0 (le_child x) s ts0"
    and R: "R = page_rows (le_limit x) (le_offset x) R0"
    and ts: "ts = page_rows (map_option (\<lambda>n. n - le_yielded x) (le_limit x))
            (map_option (\<lambda>n. n - le_skipped x) (le_offset x)) ts0"
    unfolding limit_stream_def by blast
  let ?full = "case le_limit x of Some lim \<Rightarrow> lim \<le> le_yielded x | None \<Rightarrow> False"
  define rest where "rest = page_rows None (map_option (\<lambda>n. n - le_skipped x) (le_offset x)) ts0"
  define lim where "lim = map_option (\<lambda>n. n - le_yielded x) (le_limit x)"
  have ts': "ts = page_rows lim None rest"
    by (simp add: ts rest_def lim_def page_rows_def split: option.split)
  have skip: "outcome ((case le_offset x of Some off \<Rightarrow> limit_skip nxt off | None \<Rightarrow> ret True) (x, s))
    (\<lambda>met (x', s'). le_limit x' = le_limit x \<and> le_offset x' = le_offset x \<and> le_yielded x' = le_yielded x \<and>
       stream R0 (le_child x') s' rest \<and> evolves s s' \<and>
       (if met then \<forall>off. le_offset x = Some off \<longrightarrow> off \<le> le_skipped x' else rest = []))
    (\<lambda>e (x', s'). fails e \<and> evolves s s')"
  proof (cases "le_offset x")
    case None
    then show ?thesis using st evolves_refl by (simp add: rest_def)
  next
    case (Some off)
    then have "rest = drop (off - le_skipped x) ts0" by (simp add: rest_def page_rows_drop)
    then show ?thesis unfolding Some option.case
      by (intro outcome_weaken_pair [OF limit_skip_spec [OF st, of off]]) (use Some in \<open>auto split: if_splits\<close>)
  qed
  show "outcome (limit_next nxt (x, s))
    (\<lambda>r (c', s'). r = first ts \<and> limit_stream stream R c' s' (tl ts) \<and> evolves s s')
    (\<lambda>e (c', s'). fails e \<and> evolves s s')"
  proof (cases ?full)
    case True
    then have "lim = Some 0" by (simp add: lim_def split: option.splits)
    then have "ts = []" by (simp add: ts')
    moreover have "limit_stream stream R x s ts" unfolding R ts using st by (rule limit_streamI)
    ultimately show ?thesis unfolding limit_next_def fst_conv if_P [OF True] using evolves_refl by simp
  next
    case False
    have Rs: "limit_stream stream R x' s' (page_rows lim' None ts')"
      if "stream R0 (le_child x') s' ts'" "le_limit x' = le_limit x" "le_offset x' = le_offset x"
        "ts' = [] \<or> (\<forall>off. le_offset x = Some off \<longrightarrow> off \<le> le_skipped x')"
        "lim' = map_option (\<lambda>n. n - le_yielded x') (le_limit x)" for x' s' ts' lim'
    proof -
      have "page_rows lim' None ts' = page_rows (map_option (\<lambda>n. n - le_yielded x') (le_limit x'))
            (map_option (\<lambda>n. n - le_skipped x') (le_offset x')) ts'"
        using that by (cases "le_offset x") auto
      then show ?thesis using limit_streamI [of stream R0 x' s' ts'] that(1-3) by (simp add: R)
    qed
    show ?thesis
      unfolding limit_next_def fst_conv if_not_P [OF False]
    proof (rule outcome_pairI, rule skip)
      fix met and x1 :: "'c limit_exec" and s1
      assume a: "le_limit x1 = le_limit x \<and> le_offset x1 = le_offset x \<and> le_yielded x1 = le_yielded x \<and>
       stream R0 (le_child x1) s1 rest \<and> evolves s s1 \<and>
       (if met then \<forall>off. le_offset x = Some off \<longrightarrow> off \<le> le_skipped x1 else rest = [])"
      show "outcome ((if \<not> met then ret None
        else seq (limit_child nxt) (\<lambda>r. case r of
          Some t \<Rightarrow> seq (modify (apfst (le_yielded_update Suc))) (\<lambda>_. ret (Some t))
        | None \<Rightarrow> ret None)) (x1, s1))
        (\<lambda>r (c', s'). r = first ts \<and> limit_stream stream R c' s' (tl ts) \<and> evolves s s')
        (\<lambda>e (c', s'). fails e \<and> evolves s s')"
      proof (cases met)
        case False
        then have "rest = []" using a by simp
        then have "limit_stream stream R x1 s1 ts" "ts = []"
          using a Rs [of x1 s1 "[]" lim] by (auto simp: ts' lim_def)
        then show ?thesis using False a by simp
      next
        case True
        then have nn: "\<not> \<not> met" by simp
        have "outcome (limit_child nxt (x1, s1))
          (\<lambda>r (x', s'). r = first rest \<and> le_limit x' = le_limit x \<and> le_offset x' = le_offset x \<and>
             le_yielded x' = le_yielded x \<and> le_skipped x' = le_skipped x1 \<and>
             stream R0 (le_child x') s' (tl rest) \<and> evolves s s')
          (\<lambda>e (c', s'). fails e \<and> evolves s s')"
          unfolding limit_child_def outcome_child_next
          by (rule outcome_weaken_pair, rule next_stream [of R0 _ s1 rest])
            (use a in \<open>auto intro: evolves_trans\<close>)
        then show ?thesis
          unfolding if_not_P [OF nn]
        proof (rule outcome_pairI)
          fix r and x2 :: "'c limit_exec" and s2
          assume b: "r = first rest \<and> le_limit x2 = le_limit x \<and> le_offset x2 = le_offset x \<and>
             le_yielded x2 = le_yielded x \<and> le_skipped x2 = le_skipped x1 \<and>
             stream R0 (le_child x2) s2 (tl rest) \<and> evolves s s2"
          show "outcome ((case r of Some t \<Rightarrow> seq (modify (apfst (le_yielded_update Suc))) (\<lambda>_. ret (Some t))
              | None \<Rightarrow> ret None) (x2, s2))
            (\<lambda>r (c', s'). r = first ts \<and> limit_stream stream R c' s' (tl ts) \<and> evolves s s')
            (\<lambda>e (c', s'). fails e \<and> evolves s s')"
          proof (cases rest)
            case Nil
            then have "limit_stream stream R x2 s2 []" "ts = []"
              using b Rs [of x2 s2 "[]" lim] by (auto simp: ts' lim_def)
            then show ?thesis using Nil b by simp
          next
            case (Cons t rs)
            let ?x = "le_yielded_update Suc x2"
            define lim' where "lim' = map_option (\<lambda>n. n - le_yielded ?x) (le_limit x)"
            have "ts = t # page_rows lim' None rs"
              using False b by (cases "le_limit x")
                (auto simp: ts' Cons lim_def lim'_def page_rows_def take_Cons' diff_Suc split: nat.split)
            moreover have "limit_stream stream R ?x s2 (page_rows lim' None rs)"
              by (rule Rs) (use a b True Cons in \<open>auto simp: lim'_def\<close>)
            ultimately show ?thesis using b Cons by simp
          qed
        qed
      qed
    qed
  qed
next
  fix R and x :: "'c limit_exec" and s ts assume "limit_stream stream R x s ts"
  then obtain R0 ts0 where st: "stream R0 (le_child x) s ts0"
    and R: "R = page_rows (le_limit x) (le_offset x) R0"
    unfolding limit_stream_def by blast
  from reset_stream [OF st] obtain c' where c': "rst (le_child x) = ret () c'" "stream R0 c' s R0" by blast
  let ?x = "x\<lparr>le_child := c', le_yielded := 0, le_skipped := 0\<rparr>"
  have "limit_stream stream R ?x s R"
    using limit_streamI [where stream = stream and x = ?x, of R0 s R0] c' by (simp add: R option.map_ident)
  moreover have "limit_reset rst x = ret () ?x"
    using c'(1) by (simp add: limit_reset_def seq_def focus_def ret_def modify_def)
  ultimately show "\<exists>c'. limit_reset rst x = ret () c' \<and> limit_stream stream R c' s R" by blast
next
  fix R and x :: "'c limit_exec" and s ts s' assume "limit_stream stream R x s ts" "evolves s s'"
  then show "limit_stream stream R x s' ts"
    using evolves_stream unfolding limit_stream_def by blast
qed (use evolves_refl evolves_trans in blast)+

lemma emit_source:
  "row_source (emit_next nxt) (emit_reset rst) (emit_stream es stream) evolves fails"
proof
  fix R and x :: "'c emit_exec" and s ts assume "emit_stream es stream R x s ts"
  then obtain R0 ts0 where st: "stream R0 (em_child x) s ts0" and e: "em_exprs x = es"
    "res_map (project es) R0 = Ok R" "res_map (project es) ts0 = Ok ts"
    unfolding emit_stream_def by blast
  show "outcome (emit_next nxt (x, s))
    (\<lambda>r (c', s'). r = first ts \<and> emit_stream es stream R c' s' (tl ts) \<and> evolves s s')
    (\<lambda>e (c', s'). fails e \<and> evolves s s')"
    unfolding emit_next_def
  proof (rule outcome_pairI [where R = "\<lambda>r x' s'. r = first ts0 \<and> em_exprs x' = es \<and>
      stream R0 (em_child x') s' (tl ts0) \<and> evolves s s'"])
    show "outcome (child_next em_child (\<lambda>c. em_child_update (\<lambda>_. c)) nxt (x, s))
      (\<lambda>r (x', s'). r = first ts0 \<and> em_exprs x' = es \<and> stream R0 (em_child x') s' (tl ts0) \<and> evolves s s')
      (\<lambda>e (c', s'). fails e \<and> evolves s s')"
      unfolding outcome_child_next
      by (rule outcome_weaken_pair, rule next_stream [OF st]) (use e in auto)
    fix r and x1 :: "'c emit_exec" and s1
    assume a: "r = first ts0 \<and> em_exprs x1 = es \<and> stream R0 (em_child x1) s1 (tl ts0) \<and> evolves s s1"
    then have st1: "emit_stream es stream R x1 s1 ts'" if "res_map (project es) (tl ts0) = Ok ts'" for ts'
      using that e unfolding emit_stream_def by blast
    show "outcome (case r of
       None \<Rightarrow> ret None (x1, s1)
     | Some t \<Rightarrow>
         seq (lift (res_map (\<lambda>e. evaluate e (tp_values t)) (em_exprs (fst (x1, s1))))) (\<lambda>vs.
         ret (Some (tuple_new vs))) (x1, s1))
      (\<lambda>r (c', s'). r = first ts \<and> emit_stream es stream R c' s' (tl ts) \<and> evolves s s')
      (\<lambda>e (c', s'). fails e \<and> evolves s s')"
    proof (cases ts0)
      case Nil
      then show ?thesis using a e(3) st1 [of "[]"] by simp
    next
      case (Cons t ts1)
      then obtain vs ts' where "res_map (\<lambda>e. evaluate e (tp_values t)) es = Ok vs"
        "res_map (project es) ts1 = Ok ts'" "ts = tuple_new vs # ts'"
        using e(3) by (auto simp: res_bind_eq_Ok project_def)
      then show ?thesis using a Cons st1 [of ts'] by simp
    qed
  qed
next
  fix R and x :: "'c emit_exec" and s ts assume "emit_stream es stream R x s ts"
  then obtain R0 ts0 where st: "stream R0 (em_child x) s ts0" and e: "em_exprs x = es"
    "res_map (project es) R0 = Ok R"
    unfolding emit_stream_def by blast
  from reset_stream [OF st] obtain c' where "rst (em_child x) = ret () c'" "stream R0 c' s R0" by blast
  with e show "\<exists>c'. emit_reset rst x = ret () c' \<and> emit_stream es stream R c' s R"
    by (intro exI [of _ "x\<lparr>em_child := c'\<rparr>"])
      (auto simp: emit_reset_def focus_def ret_def emit_stream_def)
next
  fix R and x :: "'c emit_exec" and s ts s' assume "emit_stream es stream R x s ts" "evolves s s'"
  then show "emit_stream es stream R x s' ts"
    using evolves_stream unfolding emit_stream_def by blast
qed (use evolves_refl evolves_trans in blast)+

end

section \<open>A pipeline of the operators\<close>

definition filter_new :: "'c \<Rightarrow> bound_expr \<Rightarrow> 'c filter_exec" where
  "filter_new c p = \<lparr>fl_predicate = p, fl_child = c\<rparr>"

definition emit_new :: "'c \<Rightarrow> bound_expr list \<Rightarrow> 'c emit_exec" where
  "emit_new c es = \<lparr>em_child = c, em_exprs = es\<rparr>"

definition values_new :: "bound_expr list list \<Rightarrow> values_exec" where
  "values_new vs = \<lparr>vx_values = vs, vx_cursor = 0\<rparr>"

text \<open>
  C22: A filter, a projection and a limit stacked on any operator that keeps the contract yield
  the projected rows on which the predicate is true, after skipping OFFSET rows and up to LIMIT.
\<close>

lemma selected_page:
  assumes src: "row_source nxt rst stream evolves fails" and st: "stream ts c s ts"
    and p: "\<forall>t \<in> set ts. decides p t" and es: "res_map (project es) (filter (selects p) ts) = Ok us"
  shows "outcome (drain (limit_next (emit_next (filter_next nxt))) (limit_new (emit_new (filter_new c p) es) lim off, s))
    (\<lambda>rows _. rows = page_rows lim off us) (\<lambda>e _. fails e)"
proof -
  note f = row_source.filter_source [OF src, of p]
  note e = row_source.emit_source [OF f, of es]
  note l = row_source.limit_source [OF e]
  have "filter_stream p stream (filter (selects p) ts) (filter_new c p) s (filter (selects p) ts)"
    using filter_streamI [of stream ts "filter_new c p" s ts p] st p by (simp add: filter_new_def)
  then have "emit_stream es (filter_stream p stream) us (emit_new (filter_new c p) es) s us"
    using es unfolding emit_stream_def emit_new_def by auto
  then have "limit_stream (emit_stream es (filter_stream p stream)) (page_rows lim off us)
      (limit_new (emit_new (filter_new c p) es) lim off) s (page_rows lim off us)"
    using limit_streamI [where x = "limit_new (emit_new (filter_new c p) es) lim off", of _ us s us]
    by (simp add: limit_new_def option.map_ident)
  note d = row_source.drain_stream [OF l, OF this]
  show ?thesis by (rule outcome_weaken, rule d) auto
qed

text \<open>Three literal rows as the child.\<close>

definition ex_values :: values_exec where
  "ex_values = values_new (map (map Constant)
     [[VInt 2, VInt 10], [VInt 1, VInt 20], [VInt 2, VInt 5]])"

definition ex_rows :: "tuple list" where
  "ex_rows = map tuple_new [[VInt 2, VInt 10], [VInt 1, VInt 20], [VInt 2, VInt 5]]"

lemma ex_values_stream: "values_stream ex_rows ex_values () ex_rows"
  by (simp add: values_stream_def ex_values_def ex_rows_def project_def values_new_def)

lemma selected_page_witness:
  "outcome (drain (limit_next (emit_next (filter_next values_next)))
      (limit_new (emit_new (filter_new ex_values (BinaryOp (ColumnRef 0 TInt) OpEq (Constant (VInt 2)))) [ColumnRef 1 TInt])
         (Some 1) (Some 1), ()))
    (\<lambda>rows _. rows = [tuple_new [VInt 5]]) (\<lambda>_ _. False)"
proof -
  let ?p = "BinaryOp (ColumnRef 0 TInt) OpEq (Constant (VInt 2))"
  have p: "\<forall>t \<in> set ex_rows. decides ?p t"
    by (simp add: ex_rows_def decides_def selects_def tuple_new_def eval_binary_op_def)
  have es: "res_map (project [ColumnRef 1 TInt]) (filter (selects ?p) ex_rows) = Ok [tuple_new [VInt 10], tuple_new [VInt 5]]"
    by (simp add: ex_rows_def selects_def tuple_new_def eval_binary_op_def project_def)
  show ?thesis
    by (rule outcome_weaken, rule selected_page [OF evolves_values ex_values_stream p es])
      (simp_all add: page_rows_def)
qed

end
