(* ===== verification/Join.thy ===== *)
theory Join
  imports Executor "HOL-Library.Multiset"
begin

text \<open>
  The block nested loop join of src/src/execution/join.rs: a block of up to \<open>block_size\<close> outer
  rows is held in memory, the inner child is rescanned for each block, and the joined rows
  go through a queue. A LEFT join pads the outer rows that found no match; the code treats
  a RIGHT join as an inner one.

  The specification is the list of joined rows block by block; as a multiset it is the
  filtered product of the two inputs, whatever the block size.
\<close>

section \<open>The operator\<close>

datatype join_type = InnerJoin | LeftJoin | RightJoin

record ('l, 'r) join_exec =
  jn_left :: 'l
  jn_right :: 'r
  jn_type :: join_type
  jn_condition :: bound_expr
  jn_block :: "tuple list"
  jn_matches :: "bool list"
  jn_queue :: "tuple list"
  jn_block_size :: nat
  jn_right_len :: nat

definition join_new :: "'l \<Rightarrow> 'r \<Rightarrow> join_type \<Rightarrow> bound_expr \<Rightarrow> nat \<Rightarrow> ('l, 'r) join_exec" where
  "join_new l r jt cond w = \<lparr>jn_left = l, jn_right = r, jn_type = jt, jn_condition = cond,
     jn_block = [], jn_matches = [], jn_queue = [], jn_block_size = 1000, jn_right_len = w\<rparr>"

type_synonym ('l, 'r, 's, 'a) join_call = "(('l, 'r) join_exec \<times> 's, 'a) call"

definition join_left :: "('l, 's) row_call \<Rightarrow> ('l, 'r, 's, tuple option) join_call" where
  "join_left = child_next jn_left (\<lambda>c. jn_left_update (\<lambda>_. c))"

definition join_right :: "('r, 's) row_call \<Rightarrow> ('l, 'r, 's, tuple option) join_call" where
  "join_right = child_next jn_right (\<lambda>c. jn_right_update (\<lambda>_. c))"

definition join_rewind :: "'r reset \<Rightarrow> ('l, 'r, 's, unit) join_call" where
  "join_rewind rst = focus (\<lambda>x. jn_right (fst x)) (\<lambda>c. apfst (jn_right_update (\<lambda>_. c))) rst"

text \<open>Pulling the next block of outer rows.\<close>

fun fill_block :: "('l, 's) row_call \<Rightarrow> nat \<Rightarrow> ('l, 'r, 's, unit) join_call" where
  "fill_block nl 0 = ret ()"
| "fill_block nl (Suc k) = seq (join_left nl) (\<lambda>r. case r of
     Some t \<Rightarrow> seq (modify (apfst (\<lambda>j. j\<lparr>jn_block := jn_block j @ [t]\<rparr>))) (\<lambda>_. fill_block nl k)
   | None \<Rightarrow> ret ())"

text \<open>The result is false when there are no outer rows left.\<close>

definition open_block :: "('l, 's) row_call \<Rightarrow> 'r reset \<Rightarrow> ('l, 'r, 's, bool) join_call" where
  "open_block nl rst x =
     (if jn_block (fst x) \<noteq> [] then ret True x
      else seq (fill_block nl (jn_block_size (fst x))) (\<lambda>_ x.
        if jn_block (fst x) = [] then ret False x
        else seq (join_rewind rst) (\<lambda>_.
             seq (modify (apfst (\<lambda>j. j\<lparr>jn_matches := replicate (length (jn_block j)) False\<rparr>))) (\<lambda>_.
             ret True)) x) x)"

definition joined :: "tuple \<Rightarrow> tuple \<Rightarrow> tuple" where
  "joined l r = tuple_new (tp_values l @ tp_values r)"

definition join_pair :: "tuple \<Rightarrow> nat \<times> tuple \<Rightarrow> ('l, 'r, 's, unit) join_call" where
  "join_pair r = (\<lambda>(i, l) x.
     seq (lift (evaluate (jn_condition (fst x)) (tp_values (joined l r)))) (\<lambda>v.
       if v = VBoolean True
       then modify (apfst (\<lambda>j. j\<lparr>jn_matches := (jn_matches j)[i := True], jn_queue := jn_queue j @ [joined l r]\<rparr>))
       else ret ()) x)"

definition padded :: "nat \<Rightarrow> tuple \<Rightarrow> tuple" where
  "padded w l = tuple_new (tp_values l @ replicate w VNull)"

definition close_block :: "('l, 'r) join_exec \<Rightarrow> ('l, 'r) join_exec" where
  "close_block j = j\<lparr>jn_queue := jn_queue j @
       (if jn_type j = LeftJoin
        then map (\<lambda>(l, _). padded (jn_right_len j) l) (filter (\<lambda>(_, matched). \<not> matched) (zip (jn_block j) (jn_matches j)))
        else []),
     jn_block := []\<rparr>"

partial_function (option) join_next ::
    "('l, 's) row_call \<Rightarrow> ('r, 's) row_call \<Rightarrow> 'r reset \<Rightarrow> ('l, 'r, 's, tuple option) join_call" where
  "join_next nl nr rst x = (case jn_queue (fst x) of
     t # ts \<Rightarrow> ret (Some t) (apfst (jn_queue_update (\<lambda>_. ts)) x)
   | [] \<Rightarrow>
       seq (open_block nl rst) (\<lambda>opened x.
         if \<not> opened then ret None x
         else seq (join_right nr) (\<lambda>r x. case r of
           Some rt \<Rightarrow> seq (for_each (join_pair rt) (enumerate 0 (jn_block (fst x)))) (\<lambda>_ x. join_next nl nr rst x) x
         | None \<Rightarrow> join_next nl nr rst (apfst close_block x)) x) x)"

declare join_next.simps [code]

definition join_reset :: "'l reset \<Rightarrow> 'r reset \<Rightarrow> ('l, 'r) join_exec reset" where
  "join_reset rl rr =
     seq (focus jn_right (\<lambda>c. jn_right_update (\<lambda>_. c)) rr) (\<lambda>_.
     seq (focus jn_left (\<lambda>c. jn_left_update (\<lambda>_. c)) rl) (\<lambda>_.
     modify (\<lambda>j. j\<lparr>jn_block := [], jn_matches := [], jn_queue := []\<rparr>)))"

section \<open>The joined rows\<close>

definition matches :: "bound_expr \<Rightarrow> tuple \<Rightarrow> tuple \<Rightarrow> bool" where
  "matches cond l r \<longleftrightarrow> evaluate cond (tp_values (joined l r)) = Ok (VBoolean True)"

definition join_row :: "bound_expr \<Rightarrow> tuple list \<Rightarrow> tuple \<Rightarrow> tuple list" where
  "join_row cond block r = map (\<lambda>l. joined l r) (filter (\<lambda>l. matches cond l r) block)"

definition block_tail :: "join_type \<Rightarrow> bound_expr \<Rightarrow> nat \<Rightarrow> (tuple \<times> bool) list \<Rightarrow> tuple list \<Rightarrow> tuple list" where
  "block_tail jt cond w block rs =
     concat (map (join_row cond (map fst block)) rs) @
     (if jt = LeftJoin
      then map (\<lambda>(l, _). padded w l) (filter (\<lambda>(l, matched). \<not> matched \<and> \<not> (\<exists>r \<in> set rs. matches cond l r)) block)
      else [])"

function join_rows :: "join_type \<Rightarrow> bound_expr \<Rightarrow> nat \<Rightarrow> nat \<Rightarrow> tuple list \<Rightarrow> tuple list \<Rightarrow> tuple list" where
  "join_rows jt cond n w ls rs =
     (if n = 0 \<or> ls = [] then []
      else block_tail jt cond w (map (\<lambda>l. (l, False)) (take n ls)) rs @ join_rows jt cond n w (drop n ls) rs)"
  by pat_completeness auto
termination by (relation "measure (\<lambda>(jt, cond, n, w, ls, rs). length ls)") auto

declare join_rows.simps [simp del]

lemma join_rows_Nil [simp]: "join_rows jt cond n w [] rs = []"
  by (simp add: join_rows.simps)

lemma block_tail_Nil [simp]: "block_tail jt cond w [] rs = []"
  by (induction rs) (simp_all add: block_tail_def join_row_def)

lemma block_tail_Cons:
  "block_tail jt cond w block (r # rs) =
     join_row cond (map fst block) r @ block_tail jt cond w (map (\<lambda>(l, m). (l, m \<or> matches cond l r)) block) rs"
proof -
  have m1: "map fst (map (\<lambda>(l, m). (l, m \<or> matches cond l r)) block) = map fst block"
    by (simp add: case_prod_beta comp_def)
  have m2: "map (\<lambda>(l, _). padded w l) (filter (\<lambda>(l, m). \<not> m \<and> \<not> (\<exists>q \<in> set (r # rs). matches cond l q)) block) =
    map (\<lambda>(l, _). padded w l) (filter (\<lambda>(l, m). \<not> m \<and> \<not> (\<exists>q \<in> set rs. matches cond l q))
      (map (\<lambda>(l, m). (l, m \<or> matches cond l r)) block))"
    by (induction block) auto
  show ?thesis unfolding block_tail_def m1 m2 by (cases "jt = LeftJoin") simp_all
qed

text \<open>As a multiset the join is the filtered product, with the padded rows of a LEFT join.\<close>

lemma mset_block:
  "mset (concat (map (join_row cond ls) rs)) =
   mset (concat (map (\<lambda>l. map (joined l) (filter (matches cond l) rs)) ls))"
proof (induction ls)
  case Nil
  then show ?case by (induction rs) (simp_all add: join_row_def)
next
  case (Cons l ls)
  have "mset (concat (map (join_row cond (l # ls)) rs)) =
    mset (map (joined l) (filter (matches cond l) rs)) + mset (concat (map (join_row cond ls) rs))"
    by (induction rs) (simp_all add: join_row_def)
  with Cons show ?case by simp
qed

definition product_rows :: "join_type \<Rightarrow> bound_expr \<Rightarrow> nat \<Rightarrow> tuple list \<Rightarrow> tuple \<Rightarrow> tuple list" where
  "product_rows jt cond w rs l = map (joined l) (filter (matches cond l) rs) @
     (if jt = LeftJoin \<and> \<not> (\<exists>r \<in> set rs. matches cond l r) then [padded w l] else [])"

lemma mset_block_tail:
  "mset (block_tail jt cond w (map (\<lambda>l. (l, False)) ls) rs) = mset (concat (map (product_rows jt cond w rs) ls))"
proof -
  have pad: "mset (if jt = LeftJoin then map (\<lambda>(l, _). padded w l)
       (filter (\<lambda>(l, m). \<not> m \<and> \<not> (\<exists>r \<in> set rs. matches cond l r)) (map (\<lambda>l. (l, False)) ls)) else []) =
     mset (concat (map (\<lambda>l. if jt = LeftJoin \<and> \<not> (\<exists>r \<in> set rs. matches cond l r) then [padded w l] else []) ls))"
    by (induction ls) auto
  have "mset (concat (map (\<lambda>l. f l @ g l) ls)) = mset (concat (map f ls)) + mset (concat (map g ls))" for f g :: "tuple \<Rightarrow> tuple list"
    by (induction ls) simp_all
  then show ?thesis
    unfolding block_tail_def product_rows_def mset_append pad by (simp add: mset_block comp_def)
qed

lemma join_rows_mset:
  "0 < n \<Longrightarrow> mset (join_rows jt cond n w ls rs) = mset (concat (map (product_rows jt cond w rs) ls))"
proof (induction ls rule: length_induct)
  case (1 ls)
  show ?case
  proof (cases "ls = []")
    case False
    with 1 have "mset (join_rows jt cond n w (drop n ls) rs) = mset (concat (map (product_rows jt cond w rs) (drop n ls)))"
      by (simp del: concat_append)
    then have "mset (join_rows jt cond n w ls rs) =
       mset (concat (map (product_rows jt cond w rs) (take n ls @ drop n ls)))"
      using False 1(2) by (subst join_rows.simps) (simp add: mset_block_tail del: append_take_drop_id)
    then show ?thesis by simp
  qed simp
qed

section \<open>The operator yields the joined rows\<close>

text \<open>A state of the operator: \<open>ls\<close> and \<open>rs\<close> are the rows its children have yet to yield,
  \<open>bl\<close> the block with its match flags.\<close>

definition join_at where
  "join_at jt cond w n sl sr Ls Rs A B x s ls rs bl \<longleftrightarrow>
     jn_type x = jt \<and> jn_condition x = cond \<and> jn_right_len x = w \<and> jn_block_size x = n \<and>
     sl Ls (jn_left x) s ls \<and> sr Rs (jn_right x) s rs \<and> jn_block x = map fst bl \<and>
     (bl \<noteq> [] \<longrightarrow> jn_matches x = map snd bl) \<and>
     set Ls \<union> set ls \<union> fst ` set bl \<subseteq> A \<and> set Rs \<union> set rs \<subseteq> B"

definition joinable :: "bound_expr \<Rightarrow> tuple set \<Rightarrow> tuple set \<Rightarrow> bool" where
  "joinable cond A B \<longleftrightarrow> (\<forall>l \<in> A. \<forall>r \<in> B. \<exists>v. evaluate cond (tp_values (joined l r)) = Ok v)"

definition join_stream :: "join_type \<Rightarrow> bound_expr \<Rightarrow> nat \<Rightarrow> nat \<Rightarrow>
    (tuple list \<Rightarrow> 'l \<Rightarrow> 's \<Rightarrow> tuple list \<Rightarrow> bool) \<Rightarrow> (tuple list \<Rightarrow> 'r \<Rightarrow> 's \<Rightarrow> tuple list \<Rightarrow> bool) \<Rightarrow>
    tuple list \<Rightarrow> ('l, 'r) join_exec \<Rightarrow> 's \<Rightarrow> tuple list \<Rightarrow> bool" where
  "join_stream jt cond w n sl sr R x s ts \<longleftrightarrow> (\<exists>Ls Rs A B ls rs bl.
     join_at jt cond w n sl sr Ls Rs A B x s ls rs bl \<and> joinable cond A B \<and> 0 < n \<and>
     R = join_rows jt cond n w Ls Rs \<and>
     ts = jn_queue x @ block_tail jt cond w bl rs @ join_rows jt cond n w ls Rs)"

lemma join_streamI:
  "join_at jt cond w n sl sr Ls Rs A B x s ls rs bl \<Longrightarrow> joinable cond A B \<Longrightarrow> 0 < n \<Longrightarrow>
   ts = jn_queue x @ block_tail jt cond w bl rs @ join_rows jt cond n w ls Rs \<Longrightarrow>
   join_stream jt cond w n sl sr (join_rows jt cond n w Ls Rs) x s ts"
  unfolding join_stream_def by blast

lemma join_pairs:
  assumes "\<forall>l \<in> set ls. \<exists>v. evaluate (jn_condition x) (tp_values (joined l r)) = Ok v"
    "jn_matches x = ms1 @ ms2" "length ms2 = length ls"
  shows "for_each (join_pair r) (enumerate (length ms1) ls) (x, s) = ret ()
    (x\<lparr>jn_matches := ms1 @ map2 (\<lambda>l m. m \<or> matches (jn_condition x) l r) ls ms2,
       jn_queue := jn_queue x @ join_row (jn_condition x) ls r\<rparr>, s)"
  using assms
proof (induction ls arbitrary: x ms1 ms2)
  case Nil
  have "x\<lparr>jn_matches := ms1\<rparr> = x" using Nil by (cases x) simp
  note same = this
  show ?case using Nil by (simp add: join_row_def same)
next
  case (Cons l ls)
  then obtain m ms where ms: "ms2 = m # ms" "length ms = length ls" by (cases ms2) auto
  obtain v where v: "evaluate (jn_condition x) (tp_values (joined l r)) = Ok v" using Cons.prems(1) by auto
  let ?hit = "matches (jn_condition x) l r"
  let ?x = "if ?hit then x\<lparr>jn_matches := (jn_matches x)[length ms1 := True], jn_queue := jn_queue x @ [joined l r]\<rparr> else x"
  have step: "join_pair r (length ms1, l) (x, s) = ret () (?x, s)"
    using v by (auto simp: join_pair_def matches_def ret_def modify_def)
  have "jn_matches ?x = (ms1 @ [m \<or> ?hit]) @ ms" "jn_condition ?x = jn_condition x"
    using Cons.prems(2) ms by auto
  from Cons.IH [of ?x "ms1 @ [m \<or> ?hit]" ms] this ms(2) Cons.prems(1)
  have ih: "for_each (join_pair r) (enumerate (Suc (length ms1)) ls) (?x, s) = ret ()
    (?x\<lparr>jn_matches := (ms1 @ [m \<or> ?hit]) @ map2 (\<lambda>l m. m \<or> matches (jn_condition x) l r) ls ms,
       jn_queue := jn_queue ?x @ join_row (jn_condition x) ls r\<rparr>, s)" by simp
  have "for_each (join_pair r) (enumerate (length ms1) (l # ls)) (x, s) =
      for_each (join_pair r) (enumerate (Suc (length ms1)) ls) (?x, s)"
    using step by (simp add: seq_def ret_def)
  then show ?case unfolding ih ms(1) by (auto simp: join_row_def)
qed

locale join_sources = left: row_source nl rl sl evolves fails + right: row_source nr rr sr evolves fails
  for nl :: "('l, 's) row_call" and rl sl and nr :: "('r, 's) row_call" and rr sr evolves fails
begin

lemma fill_block_spec:
  "sl Ls (jn_left x) s ls \<Longrightarrow> outcome (fill_block nl k (x :: ('l, 'r) join_exec, s))
    (\<lambda>_ (x', s'). (\<exists>c. x' = x\<lparr>jn_left := c, jn_block := jn_block x @ take k ls\<rparr> \<and> sl Ls c s' (drop k ls)) \<and> evolves s s')
    (\<lambda>e (x', s'). fails e \<and> evolves s s')"
proof (induction k arbitrary: x s ls)
  case 0
  then show ?case using left.evolves_refl by (auto intro: exI [of _ "jn_left x"])
next
  case (Suc k)
  show ?case
    unfolding fill_block.simps
  proof (rule outcome_pairI [where R = "\<lambda>r x' s'. r = first ls \<and> (\<exists>c. x' = x\<lparr>jn_left := c\<rparr> \<and> sl Ls c s' (tl ls)) \<and> evolves s s'"])
    show "outcome (join_left nl (x, s))
      (\<lambda>r (x', s'). r = first ls \<and> (\<exists>c. x' = x\<lparr>jn_left := c\<rparr> \<and> sl Ls c s' (tl ls)) \<and> evolves s s')
      (\<lambda>e (x', s'). fails e \<and> evolves s s')"
      unfolding join_left_def outcome_child_next
      by (rule outcome_weaken_pair, rule left.next_stream [OF Suc.prems]) auto
    fix r and x1 :: "('l, 'r) join_exec" and s1
    assume a: "r = first ls \<and> (\<exists>c. x1 = x\<lparr>jn_left := c\<rparr> \<and> sl Ls c s1 (tl ls)) \<and> evolves s s1"
    show "outcome ((case r of
        Some t \<Rightarrow> seq (modify (apfst (\<lambda>j. j\<lparr>jn_block := jn_block j @ [t]\<rparr>))) (\<lambda>_. fill_block nl k)
      | None \<Rightarrow> ret ()) (x1, s1))
      (\<lambda>_ (x', s'). (\<exists>c. x' = x\<lparr>jn_left := c, jn_block := jn_block x @ take (Suc k) ls\<rparr> \<and> sl Ls c s' (drop (Suc k) ls)) \<and> evolves s s')
      (\<lambda>e (x', s'). fails e \<and> evolves s s')"
    proof (cases ls)
      case Nil
      then show ?thesis using a by auto
    next
      case (Cons t ts)
      let ?x = "x1\<lparr>jn_block := jn_block x1 @ [t]\<rparr>"
      have "outcome (fill_block nl k (?x, s1))
        (\<lambda>_ (x', s'). (\<exists>c. x' = x\<lparr>jn_left := c, jn_block := jn_block x @ take (Suc k) ls\<rparr> \<and> sl Ls c s' (drop (Suc k) ls)) \<and> evolves s s')
        (\<lambda>e (x', s'). fails e \<and> evolves s s')"
        by (rule outcome_weaken_pair, rule Suc.IH [of ?x s1 ts]) (use a Cons left.evolves_trans in auto)
      then show ?thesis using a Cons by simp
    qed
  qed
qed

text \<open>Opening a block, on a state with an empty block.\<close>

lemma open_block_spec:
  assumes at: "join_at jt cond w n sl sr Ls Rs A B x s ls rs []" and n: "0 < n"
  shows "outcome (open_block nl rr (x, s))
    (\<lambda>opened (x', s'). opened = (ls \<noteq> []) \<and> evolves s s' \<and> jn_queue x' = jn_queue x \<and>
       join_at jt cond w n sl sr Ls Rs A B x' s' (drop n ls) (if opened then Rs else rs) (map (\<lambda>l. (l, False)) (take n ls)))
    (\<lambda>e (x', s'). fails e \<and> evolves s s')"
proof -
  have x: "jn_block x = []" "sl Ls (jn_left x) s ls" "sr Rs (jn_right x) s rs" "jn_block_size x = n"
    using at by (simp_all add: join_at_def)
  have sub: "set (take n ls) \<subseteq> set ls" "set (drop n ls) \<subseteq> set ls" by (rule set_take_subset, rule set_drop_subset)
  have ob: "open_block nl rr (x, s) = seq (fill_block nl n) (\<lambda>_ x.
        if jn_block (fst x) = [] then ret False x
        else seq (join_rewind rr) (\<lambda>_.
             seq (modify (apfst (\<lambda>j. j\<lparr>jn_matches := replicate (length (jn_block j)) False\<rparr>))) (\<lambda>_.
             ret True)) x) (x, s)"
    using x by (simp add: open_block_def)
  show ?thesis
    unfolding ob
  proof (rule outcome_pairI, rule fill_block_spec [OF x(2)])
    fix u :: unit and x1 :: "('l, 'r) join_exec" and s1
    assume "(\<exists>c. x1 = x\<lparr>jn_left := c, jn_block := jn_block x @ take n ls\<rparr> \<and> sl Ls c s1 (drop n ls)) \<and> evolves s s1"
    then obtain c where c: "x1 = x\<lparr>jn_left := c, jn_block := take n ls\<rparr>" "sl Ls c s1 (drop n ls)" "evolves s s1"
      using x(1) by auto
    have r1: "sr Rs (jn_right x) s1 rs" using right.evolves_stream [OF x(3) c(3)] .
    show "outcome (if jn_block (fst (x1, s1)) = [] then ret False (x1, s1)
        else seq (join_rewind rr) (\<lambda>_.
             seq (modify (apfst (\<lambda>j. j\<lparr>jn_matches := replicate (length (jn_block j)) False\<rparr>))) (\<lambda>_.
             ret True)) (x1, s1))
      (\<lambda>opened (x', s'). opened = (ls \<noteq> []) \<and> evolves s s' \<and> jn_queue x' = jn_queue x \<and>
         join_at jt cond w n sl sr Ls Rs A B x' s' (drop n ls) (if opened then Rs else rs) (map (\<lambda>l. (l, False)) (take n ls)))
      (\<lambda>e (x', s'). fails e \<and> evolves s s')"
    proof (cases "ls = []")
      case True
      then show ?thesis using at c r1 by (auto simp: join_at_def)
    next
      case False
      obtain c' where c': "rr (jn_right x) = ret () c'" "sr Rs c' s1 Rs" using right.reset_stream [OF r1] by blast
      let ?x = "x1\<lparr>jn_right := c', jn_matches := replicate (length (take n ls)) False\<rparr>"
      have "join_at jt cond w n sl sr Ls Rs A B ?x s1 (drop n ls) Rs (map (\<lambda>l. (l, False)) (take n ls))"
        using at c c'(2) sub by (auto simp: join_at_def comp_def map_replicate_const)
      moreover have "seq (join_rewind rr) (\<lambda>_.
             seq (modify (apfst (\<lambda>j. j\<lparr>jn_matches := replicate (length (jn_block j)) False\<rparr>))) (\<lambda>_.
             ret True)) (x1, s1) = ret True (?x, s1)"
        using c(1) c'(1) by (simp add: join_rewind_def seq_def focus_def ret_def modify_def)
      ultimately show ?thesis using False n c by simp
    qed
  qed
qed



lemma open_block_any:
  assumes at: "join_at jt cond w n sl sr Ls Rs A B x s ls rs bl" and n: "0 < n" and q: "jn_queue x = []"
  shows "outcome (open_block nl rr (x, s))
    (\<lambda>opened (x', s'). evolves s s' \<and> jn_queue x' = [] \<and> (\<exists>ls' rs' bl'.
       join_at jt cond w n sl sr Ls Rs A B x' s' ls' rs' bl' \<and> opened = (bl' \<noteq> []) \<and> (opened \<or> ls' = []) \<and>
       block_tail jt cond w bl rs @ join_rows jt cond n w ls Rs =
         block_tail jt cond w bl' rs' @ join_rows jt cond n w ls' Rs \<and>
       length ls' * (length Rs + 2) + (if bl' = [] then 0 else Suc (length rs')) \<le>
         length ls * (length Rs + 2) + (if bl = [] then 0 else Suc (length rs))))
    (\<lambda>e (x', s'). fails e \<and> evolves s s')"
proof (cases "bl = []")
  case False
  then have "jn_block x \<noteq> []" using at by (auto simp: join_at_def)
  then show ?thesis using False at q left.evolves_refl by (auto simp: open_block_def ret_def)
next
  case True
  have rows: "ls \<noteq> [] \<Longrightarrow> join_rows jt cond n w ls Rs =
      block_tail jt cond w (map (\<lambda>l. (l, False)) (take n ls)) Rs @ join_rows jt cond n w (drop n ls) Rs"
    using n by (subst join_rows.simps) simp
  have meas: "ls \<noteq> [] \<Longrightarrow> length (drop n ls) * (length Rs + 2) + Suc (length Rs) \<le> length ls * (length Rs + 2)"
  proof -
    assume "ls \<noteq> []"
    then have "Suc (length (drop n ls)) \<le> length ls" using n by (cases ls) auto
    then have "Suc (length (drop n ls)) * (length Rs + 2) \<le> length ls * (length Rs + 2)" by (rule mult_right_mono) simp
    then show ?thesis by simp
  qed
  show ?thesis
  proof (rule outcome_weaken_pair, rule open_block_spec [OF at [unfolded True] n])
    fix opened and x' :: "('l, 'r) join_exec" and s'
    assume o: "opened = (ls \<noteq> []) \<and> evolves s s' \<and> jn_queue x' = jn_queue x \<and>
       join_at jt cond w n sl sr Ls Rs A B x' s' (drop n ls) (if opened then Rs else rs) (map (\<lambda>l. (l, False)) (take n ls))"
    show "case (x', s') of (x', s') \<Rightarrow> evolves s s' \<and> jn_queue x' = [] \<and> (\<exists>ls' rs' bl'.
       join_at jt cond w n sl sr Ls Rs A B x' s' ls' rs' bl' \<and> opened = (bl' \<noteq> []) \<and> (opened \<or> ls' = []) \<and>
       block_tail jt cond w bl rs @ join_rows jt cond n w ls Rs =
         block_tail jt cond w bl' rs' @ join_rows jt cond n w ls' Rs \<and>
       length ls' * (length Rs + 2) + (if bl' = [] then 0 else Suc (length rs')) \<le>
         length ls * (length Rs + 2) + (if bl = [] then 0 else Suc (length rs)))"
    proof (cases "ls = []")
      case ls: True
      have no: "\<not> opened" using o ls by simp
      have "join_at jt cond w n sl sr Ls Rs A B x' s' [] rs []" using o unfolding if_not_P [OF no] ls by simp
      then show ?thesis unfolding True ls using o q ls
        by (simp only: prod.case) (intro conjI exI [of _ "[]"] exI [of _ rs], simp_all)
    next
      case False
      let ?bl = "map (\<lambda>l. (l, False)) (take n ls)"
      have "join_at jt cond w n sl sr Ls Rs A B x' s' (drop n ls) Rs ?bl" "opened" "?bl \<noteq> []" using o False n by auto
      with o q show ?thesis unfolding True rows [OF False]
        by (simp only: prod.case) (intro conjI exI [of _ "drop n ls"] exI [of _ Rs] exI [of _ ?bl], use meas [OF False] in simp_all)
    qed
  qed auto
qed

text \<open>One round with an open block, given that the loop goes on well from every later state.\<close>

lemma join_round:
  assumes at: "join_at jt cond w n sl sr Ls Rs A B x s ls rs bl" and ok: "joinable cond A B"
    and q: "jn_queue x = []" and bl: "bl \<noteq> []"
    and rest: "\<And>x' s' rs' bl'. join_at jt cond w n sl sr Ls Rs A B x' s' ls rs' bl' \<Longrightarrow> evolves s s' \<Longrightarrow>
      (if bl' = [] then 0 else Suc (length rs')) < Suc (length rs) \<Longrightarrow>
      jn_queue x' @ block_tail jt cond w bl' rs' = block_tail jt cond w bl rs \<Longrightarrow>
      outcome (join_next nl nr rr (x', s')) Q E"
    and err: "\<And>e x' s'. fails e \<Longrightarrow> evolves s s' \<Longrightarrow> E e (x', s')"
  shows "outcome (seq (join_right nr) (\<lambda>r x. case r of
           Some rt \<Rightarrow> seq (for_each (join_pair rt) (enumerate 0 (jn_block (fst x)))) (\<lambda>_ x. join_next nl nr rr x) x
         | None \<Rightarrow> join_next nl nr rr (apfst close_block x)) (x, s)) Q E"
proof (rule outcome_pairI [where R = "\<lambda>r x' s'. r = first rs \<and> (\<exists>c. x' = x\<lparr>jn_right := c\<rparr> \<and> sr Rs c s' (tl rs)) \<and> evolves s s'"])
  have "sr Rs (jn_right x) s rs" using at by (simp add: join_at_def)
  note nx = right.next_stream [OF this]
  show "outcome (join_right nr (x, s))
    (\<lambda>r (x', s'). r = first rs \<and> (\<exists>c. x' = x\<lparr>jn_right := c\<rparr> \<and> sr Rs c s' (tl rs)) \<and> evolves s s') E"
    unfolding join_right_def outcome_child_next
    by (rule outcome_weaken_pair, rule nx) (auto intro: err)
  fix r and x1 :: "('l, 'r) join_exec" and s1
  assume "r = first rs \<and> (\<exists>c. x1 = x\<lparr>jn_right := c\<rparr> \<and> sr Rs c s1 (tl rs)) \<and> evolves s s1"
  then obtain c where c: "r = first rs" "x1 = x\<lparr>jn_right := c\<rparr>" "sr Rs c s1 (tl rs)" "evolves s s1" by blast
  have l1: "sl Ls (jn_left x) s1 ls" using at c(4) left.evolves_stream by (auto simp: join_at_def)
  show "outcome (case r of
           Some rt \<Rightarrow> seq (for_each (join_pair rt) (enumerate 0 (jn_block (fst (x1, s1))))) (\<lambda>_ x. join_next nl nr rr x) (x1, s1)
         | None \<Rightarrow> join_next nl nr rr (apfst close_block (x1, s1))) Q E"
  proof (cases rs)
    case Nil
    have b: "zip (jn_block x) (jn_matches x) = bl" using at bl by (simp add: join_at_def zip_map_fst_snd)
    have "jn_type x = jt" "jn_right_len x = w" using at by (simp_all add: join_at_def)
    then have qc: "jn_queue (close_block x1) = block_tail jt cond w bl rs"
      using b c(2) q Nil by (simp add: close_block_def block_tail_def)
    have "outcome (join_next nl nr rr (close_block x1, s1)) Q E"
      by (rule rest [of _ _ rs "[]"]) (use at c l1 qc Nil in \<open>auto simp: join_at_def close_block_def\<close>)
    then show ?thesis using c(1) Nil by simp
  next
    case (Cons rt rs')
    let ?ms = "map2 (\<lambda>l m. m \<or> matches cond l rt) (map fst bl) (map snd bl)"
    let ?x = "x1\<lparr>jn_matches := ?ms, jn_queue := join_row cond (map fst bl) rt\<rparr>"
    have cond: "jn_condition x1 = cond" "jn_block x1 = map fst bl" "jn_matches x1 = map snd bl" "jn_queue x1 = []"
      using at bl c(2) q by (auto simp: join_at_def)
    have ev: "\<forall>l \<in> set (map fst bl). \<exists>v. evaluate (jn_condition x1) (tp_values (joined l rt)) = Ok v"
      using at ok Cons by (auto simp: join_at_def joinable_def cond)
    have fe: "for_each (join_pair rt) (enumerate 0 (jn_block x1)) (x1, s1) = ret () (?x, s1)"
      using join_pairs [of "map fst bl" x1 rt "[]" "map snd bl" s1] ev cond by simp
    have ms: "?ms = map snd (map (\<lambda>(l, m). (l, m \<or> matches cond l rt)) bl)" by (induction bl) auto
    have fs: "map fst (map (\<lambda>(l, m). (l, m \<or> matches cond l rt)) bl) = map fst bl" by (induction bl) auto
    have "join_at jt cond w n sl sr Ls Rs A B ?x s1 ls rs' (map (\<lambda>(l, m). (l, m \<or> matches cond l rt)) bl)"
      unfolding join_at_def ms using at c Cons l1 bl by (auto simp: join_at_def)
    moreover have "jn_queue ?x @ block_tail jt cond w (map (\<lambda>(l, m). (l, m \<or> matches cond l rt)) bl) rs' =
       block_tail jt cond w bl rs"
      unfolding Cons block_tail_Cons by simp
    ultimately have "outcome (join_next nl nr rr (?x, s1)) Q E"
      by (intro rest [of _ _ rs']) (use c Cons in auto)
    then show ?thesis using c(1) Cons fe by (simp add: seq_def ret_def)
  qed
qed

text \<open>The loop, by induction on the outer rows that are left and, within a block, on the inner ones.\<close>

lemma join_next_stream:
  assumes "join_at jt cond w n sl sr Ls Rs A B x s ls rs bl" "joinable cond A B" "0 < n"
    "ts = jn_queue x @ block_tail jt cond w bl rs @ join_rows jt cond n w ls Rs"
  shows "outcome (join_next nl nr rr (x, s))
    (\<lambda>r (x', s'). r = first ts \<and> join_stream jt cond w n sl sr (join_rows jt cond n w Ls Rs) x' s' (tl ts) \<and> evolves s s')
    (\<lambda>e (x', s'). fails e \<and> evolves s s')"
  using assms(1,4)
proof (induction "length ls * (length Rs + 2) + (if bl = [] then 0 else Suc (length rs))" arbitrary: x s ls rs bl
    rule: less_induct)
  case less
  let ?R = "join_rows jt cond n w Ls Rs"
  show ?case
  proof (cases "jn_queue x")
    case (Cons t q)
    have "join_stream jt cond w n sl sr ?R (x\<lparr>jn_queue := q\<rparr>) s (tl ts)"
      by (rule join_streamI [of jt cond w n sl sr Ls Rs A B _ _ ls rs bl])
        (use less.prems assms Cons in \<open>auto simp: join_at_def\<close>)
    then show ?thesis using less.prems(2) Cons left.evolves_refl
      by (subst join_next.simps) simp
  next
    case Nil
    show ?thesis
      unfolding join_next.simps [of nl nr rr "(x, s)"] fst_conv Nil list.case
    proof (rule outcome_pairI, rule open_block_any [OF less.prems(1) assms(3) Nil])
      fix opened and x1 :: "('l, 'r) join_exec" and s1
      assume "evolves s s1 \<and> jn_queue x1 = [] \<and> (\<exists>ls' rs' bl'.
       join_at jt cond w n sl sr Ls Rs A B x1 s1 ls' rs' bl' \<and> opened = (bl' \<noteq> []) \<and> (opened \<or> ls' = []) \<and>
       block_tail jt cond w bl rs @ join_rows jt cond n w ls Rs =
         block_tail jt cond w bl' rs' @ join_rows jt cond n w ls' Rs \<and>
       length ls' * (length Rs + 2) + (if bl' = [] then 0 else Suc (length rs')) \<le>
         length ls * (length Rs + 2) + (if bl = [] then 0 else Suc (length rs)))"
      then obtain ls1 rs1 bl1 where b: "evolves s s1" "jn_queue x1 = []"
        "join_at jt cond w n sl sr Ls Rs A B x1 s1 ls1 rs1 bl1" "opened = (bl1 \<noteq> [])" "opened \<or> ls1 = []"
        "ts = block_tail jt cond w bl1 rs1 @ join_rows jt cond n w ls1 Rs"
        and meas: "length ls1 * (length Rs + 2) + (if bl1 = [] then 0 else Suc (length rs1)) \<le>
         length ls * (length Rs + 2) + (if bl = [] then 0 else Suc (length rs))"
        using less.prems(2) Nil by auto
      show "outcome (if \<not> opened then ret None (x1, s1)
         else seq (join_right nr) (\<lambda>r x. case r of
           Some rt \<Rightarrow> seq (for_each (join_pair rt) (enumerate 0 (jn_block (fst x)))) (\<lambda>_ x. join_next nl nr rr x) x
         | None \<Rightarrow> join_next nl nr rr (apfst close_block x)) (x1, s1))
        (\<lambda>r (x', s'). r = first ts \<and> join_stream jt cond w n sl sr ?R x' s' (tl ts) \<and> evolves s s')
        (\<lambda>e (x', s'). fails e \<and> evolves s s')"
      proof (cases opened)
        case False
        have "join_stream jt cond w n sl sr ?R x1 s1 (tl ts)"
          by (rule join_streamI [OF b(3) assms(2,3)]) (use b False in auto)
        then show ?thesis using False b by simp
      next
        case True
        have "outcome (seq (join_right nr) (\<lambda>r x. case r of
           Some rt \<Rightarrow> seq (for_each (join_pair rt) (enumerate 0 (jn_block (fst x)))) (\<lambda>_ x. join_next nl nr rr x) x
         | None \<Rightarrow> join_next nl nr rr (apfst close_block x)) (x1, s1))
          (\<lambda>r (x', s'). r = first ts \<and> join_stream jt cond w n sl sr ?R x' s' (tl ts) \<and> evolves s s')
          (\<lambda>e (x', s'). fails e \<and> evolves s s')"
        proof (rule join_round [OF b(3) assms(2) b(2)])
          show "bl1 \<noteq> []" using True b(4) by simp
          fix x' :: "('l, 'r) join_exec" and s' rs' bl'
          assume c: "join_at jt cond w n sl sr Ls Rs A B x' s' ls1 rs' bl'" "evolves s1 s'"
            "(if bl' = [] then 0 else Suc (length rs')) < Suc (length rs1)"
            "jn_queue x' @ block_tail jt cond w bl' rs' = block_tail jt cond w bl1 rs1"
          have m: "length ls1 * (length Rs + 2) + (if bl' = [] then 0 else Suc (length rs')) <
              length ls * (length Rs + 2) + (if bl = [] then 0 else Suc (length rs))"
            using meas c(3) True b(4) by simp
          have "ts = jn_queue x' @ block_tail jt cond w bl' rs' @ join_rows jt cond n w ls1 Rs"
            using b(6) c(4) by simp
          then show "outcome (join_next nl nr rr (x', s'))
            (\<lambda>r (x', s'). r = first ts \<and> join_stream jt cond w n sl sr ?R x' s' (tl ts) \<and> evolves s s')
            (\<lambda>e (x', s'). fails e \<and> evolves s s')"
            by (intro outcome_weaken_pair [OF less.hyps [OF m c(1)]])
              (use b(1) c(2) left.evolves_trans in blast)+
        qed (use b(1) left.evolves_trans in blast)
        then show ?thesis using True by simp
      qed
    qed
  qed
qed

lemma join_source:
  "row_source (join_next nl nr rr) (join_reset rl rr) (join_stream jt cond w n sl sr) evolves fails"
proof
  fix R x s ts assume "join_stream jt cond w n sl sr R x s ts"
  then show "outcome (join_next nl nr rr (x, s))
    (\<lambda>r (c', s'). r = first ts \<and> join_stream jt cond w n sl sr R c' s' (tl ts) \<and> evolves s s')
    (\<lambda>e (c', s'). fails e \<and> evolves s s')"
    unfolding join_stream_def [of _ _ _ _ _ _ _ x] using join_next_stream by blast
next
  fix R x s ts assume "join_stream jt cond w n sl sr R x s ts"
  then obtain Ls Rs A B ls rs bl where at: "join_at jt cond w n sl sr Ls Rs A B x s ls rs bl"
    and j: "joinable cond A B" "0 < n" "R = join_rows jt cond n w Ls Rs"
    unfolding join_stream_def by blast
  have st: "sl Ls (jn_left x) s ls" "sr Rs (jn_right x) s rs" using at by (simp_all add: join_at_def)
  obtain cl where cl: "rl (jn_left x) = ret () cl" "sl Ls cl s Ls" using left.reset_stream [OF st(1)] by blast
  obtain cr where cr: "rr (jn_right x) = ret () cr" "sr Rs cr s Rs" using right.reset_stream [OF st(2)] by blast
  let ?x = "x\<lparr>jn_right := cr, jn_left := cl, jn_block := [], jn_matches := [], jn_queue := []\<rparr>"
  have "join_stream jt cond w n sl sr R ?x s R"
    unfolding j(3) by (rule join_streamI [of jt cond w n sl sr Ls Rs A B _ _ Ls Rs "[]"])
      (use at j cl cr in \<open>auto simp: join_at_def\<close>)
  then show "\<exists>c'. join_reset rl rr x = ret () c' \<and> join_stream jt cond w n sl sr R c' s R"
    using cl cr by (intro exI [of _ ?x]) (simp add: join_reset_def seq_def focus_def ret_def modify_def)
next
  fix R x s ts s' assume st: "join_stream jt cond w n sl sr R x s ts" "evolves s s'"
  then obtain Ls Rs A B ls rs bl where at: "join_at jt cond w n sl sr Ls Rs A B x s ls rs bl"
    and j: "joinable cond A B" "0 < n" "R = join_rows jt cond n w Ls Rs"
      "ts = jn_queue x @ block_tail jt cond w bl rs @ join_rows jt cond n w ls Rs"
    unfolding join_stream_def by blast
  have "sl Ls (jn_left x) s' ls" "sr Rs (jn_right x) s' rs"
    using at left.evolves_stream [OF _ st(2)] right.evolves_stream [OF _ st(2)] by (simp_all add: join_at_def)
  then have "join_at jt cond w n sl sr Ls Rs A B x s' ls rs bl" using at by (simp add: join_at_def)
  from join_streamI [OF this j(1,2,4)] show "join_stream jt cond w n sl sr R x s' ts" unfolding j(3) .
qed (use left.evolves_refl left.evolves_trans in blast)+

end

section \<open>Two children of literal rows\<close>

interpretation vals_join: join_sources values_next values_reset values_stream
    values_next values_reset values_stream "(=)" "\<lambda>_. False"
  by unfold_locales

text \<open>
  C19: The block nested loop join, when its condition evaluates without an error on every pair
  of rows, yields, as a multiset, the pairs of the two inputs on which the condition is true,
  and for a LEFT join each unmatched left row padded with nulls; a RIGHT join is treated as an
  inner one. This holds for every positive block size (the constructor sets 1000).
\<close>

lemma joined_output:
  assumes l: "row_source nl rl sl evolves fails" and r: "row_source nr rr sr evolves fails"
    and st: "sl ls c s ls" "sr rs d s rs" and n: "0 < n"
    and ok: "\<forall>l \<in> set ls. \<forall>r \<in> set rs. \<exists>v. evaluate cond (tp_values (joined l r)) = Ok v"
  shows "outcome (drain (join_next nl nr rr) ((join_new c d jt cond w)\<lparr>jn_block_size := n\<rparr>, s))
    (\<lambda>rows _. mset rows = mset (concat (map (product_rows jt cond w rs) ls))) (\<lambda>e _. fails e)"
proof -
  let ?x = "(join_new c d jt cond w)\<lparr>jn_block_size := n\<rparr>"
  have j: "join_sources nl rl sl nr rr sr evolves fails" using l r by (rule join_sources.intro)
  have "join_at jt cond w n sl sr ls rs (set ls) (set rs) ?x s ls rs []"
    using st by (simp add: join_at_def join_new_def)
  then have "join_stream jt cond w n sl sr (join_rows jt cond n w ls rs) ?x s (join_rows jt cond n w ls rs)"
    by (rule join_streamI) (use ok n in \<open>simp_all add: joinable_def join_new_def\<close>)
  note d = row_source.drain_stream [OF join_sources.join_source [OF j, of jt cond w n], OF this]
  show ?thesis by (rule outcome_weaken, rule d) (auto simp: join_rows_mset n)
qed

lemma joined_output_witness:
  "outcome (drain (join_next values_next values_next values_reset)
      ((join_new ex_values ex_values LeftJoin (BinaryOp (BinaryOp (ColumnRef 0 TInt) OpEq (ColumnRef 2 TInt)) OpAnd
        (BinaryOp (ColumnRef 1 TInt) OpNeq (ColumnRef 3 TInt))) 2)\<lparr>jn_block_size := 2\<rparr>, ()))
    (\<lambda>rows _. mset rows = {#tuple_new [VInt 2, VInt 10, VInt 2, VInt 5], tuple_new [VInt 1, VInt 20, VNull, VNull],
       tuple_new [VInt 2, VInt 5, VInt 2, VInt 10]#}) (\<lambda>_ _. False)"
proof -
  let ?p = "BinaryOp (BinaryOp (ColumnRef 0 TInt) OpEq (ColumnRef 2 TInt)) OpAnd
        (BinaryOp (ColumnRef 1 TInt) OpNeq (ColumnRef 3 TInt))"
  have p: "\<forall>l \<in> set ex_rows. \<forall>r \<in> set ex_rows. \<exists>v. evaluate ?p (tp_values (joined l r)) = Ok v"
    by (simp add: ex_rows_def joined_def tuple_new_def eval_binary_op_def eval_logical_op_def)
  have two: "replicate 2 VNull = [VNull, VNull]" by (simp add: numeral_2_eq_2)
  show ?thesis
    by (rule outcome_weaken, rule joined_output [OF evolves_values evolves_values ex_values_stream ex_values_stream _ p])
      (simp_all add: product_rows_def ex_rows_def joined_def tuple_new_def matches_def eval_binary_op_def eval_logical_op_def padded_def two)
qed

end
