(* ===== verification/Scan.thy ===== *)
theory Scan
  imports Catalog Join
begin

text \<open>
  Table scans: the forward cursor over the leaves of a tree (src/src/execution/iterator.rs),
  the sequential scan (seq_scan.rs) and the index scan (index.rs), on the execution context
  of execution.rs.

  The cursor is shown to yield the live cells of the chain of leaves, and the sequential scan
  to be a \<open>row_source\<close>, so that the theorems of the operators hold for plans over tables.
\<close>

section \<open>The execution context\<close>

record exec_context =
  cx_pool :: pool
  cx_catalog :: catalog
  cx_txn :: u64
  cx_block :: "u8 list"

definition context_new :: "pool \<Rightarrow> catalog \<Rightarrow> u64 \<Rightarrow> exec_context" where
  "context_new s c t = \<lparr>cx_pool = s, cx_catalog = c, cx_txn = t, cx_block = []\<rparr>"

definition on_pool :: "(pool, 'a) call \<Rightarrow> ('x \<times> exec_context, 'a) call" where
  "on_pool m = on_snd (focus cx_pool (\<lambda>s. cx_pool_update (\<lambda>_. s)) m)"

lemma outcome_on_pool:
  "outcome (on_pool m (x, cx)) Q E \<longleftrightarrow>
   outcome (m (cx_pool cx)) (\<lambda>r s. Q r (x, cx\<lparr>cx_pool := s\<rparr>)) (\<lambda>e s. E e (x, cx\<lparr>cx_pool := s\<rparr>))"
  by (simp add: on_pool_def outcome_focus)

section \<open>The cursor\<close>

record bptree_iterator =
  it_root :: page_id
  it_page :: "page_id option"
  it_initialized :: bool
  it_slot :: nat
  it_start :: "u64 option"

definition iter_new :: "page_id \<Rightarrow> bptree_iterator" where
  "iter_new root = \<lparr>it_root = root, it_page = None, it_initialized = False, it_slot = 0, it_start = None\<rparr>"

definition iter_new_at_key :: "page_id \<Rightarrow> u64 option \<Rightarrow> bptree_iterator" where
  "iter_new_at_key root k = \<lparr>it_root = root, it_page = None, it_initialized = False, it_slot = 0, it_start = k\<rparr>"

definition iter_reset :: "bptree_iterator \<Rightarrow> bptree_iterator" where
  "iter_reset it = it\<lparr>it_page := None, it_initialized := False, it_slot := 0\<rparr>"

definition iter_open :: "page_id set \<Rightarrow> (bptree_iterator \<times> exec_context, unit) call" where
  "iter_open pins x =
     (if it_initialized (fst x) then ret () x
      else (case it_start (fst x) of
        Some k \<Rightarrow> seq (on_pool (get_leaf_and_slot pins (it_root (fst x)) k)) (\<lambda>(p, i).
          modify (apfst (\<lambda>it. it\<lparr>it_page := Some p, it_slot := i, it_initialized := True\<rparr>))) x
      | None \<Rightarrow> seq (on_pool (get_leftmost_leaf pins (it_root (fst x)))) (\<lambda>p.
          modify (apfst (\<lambda>it. it\<lparr>it_page := Some p, it_initialized := True\<rparr>))) x))"

text \<open>The inner loop: the next slot index, and the first live record from slot \<open>i\<close> on.\<close>

function next_live :: "leaf_node \<Rightarrow> nat \<Rightarrow> (nat \<times> cell option) res" where
  "next_live l i =
     (if i < length (lf_slots l) then
        res_bind (slot_cell l (lf_slots l ! i)) (\<lambda>r.
          if is_deleted r then next_live l (Suc i) else Ok (Suc i, Some r))
      else Ok (i, None))"
  by pat_completeness auto
termination by (relation "measure (\<lambda>(l, i). length (lf_slots l) - i)") auto

declare next_live.simps [simp del]

partial_function (option) iter_scan :: "page_id set \<Rightarrow> (bptree_iterator \<times> exec_context, u64 option) call" where
  "iter_scan pins x = (case it_page (fst x) of
     None \<Rightarrow> ret None x
   | Some p \<Rightarrow>
       seq (on_pool (fetch_page pins p)) (\<lambda>n x. case n of
         Internal _ \<Rightarrow> fail (CorruptPage ''bptree iterator encountered a non-leaf page'') x
       | Leaf l \<Rightarrow>
           seq (lift (next_live l (it_slot (fst x)))) (\<lambda>r x. case snd r of
             Some c \<Rightarrow>
               ret (Some (row_id c)) (apfst (\<lambda>it. it\<lparr>it_slot := fst r\<rparr>) (apsnd (\<lambda>cx. cx\<lparr>cx_block := cell_data c\<rparr>) x))
           | None \<Rightarrow>
               if lf_has_next l
               then iter_scan pins (apfst (\<lambda>it. it\<lparr>it_slot := 0, it_page := Some (lf_next l)\<rparr>) x)
               else iter_scan pins (apfst (\<lambda>it. it\<lparr>it_slot := fst r, it_page := None\<rparr>) x)) x) x)"

declare iter_scan.simps [code]

definition iter_next :: "page_id set \<Rightarrow> (bptree_iterator \<times> exec_context, u64 option) call" where
  "iter_next pins = seq (iter_open pins) (\<lambda>_. iter_scan pins)"

section \<open>The sequential scan\<close>

record seq_scan =
  sq_iterator :: bptree_iterator
  sq_schema :: schema

definition seq_scan_new :: "bptree_iterator \<Rightarrow> schema \<Rightarrow> seq_scan" where
  "seq_scan_new it sc = \<lparr>sq_iterator = it, sq_schema = sc\<rparr>"

definition on_iterator :: "(bptree_iterator \<times> exec_context, 'a) call \<Rightarrow> (seq_scan \<times> exec_context, 'a) call" where
  "on_iterator m = focus (\<lambda>(x, cx). (sq_iterator x, cx)) (\<lambda>(it, cx) (x, _). (x\<lparr>sq_iterator := it\<rparr>, cx)) m"

text \<open>The row in the block buffer, with its row id.\<close>

definition decode_row :: "schema \<Rightarrow> u64 \<Rightarrow> u8 list \<Rightarrow> tuple res" where
  "decode_row sc row data = res_bind (tuple_decode sc data) (\<lambda>t. Ok (t\<lparr>tp_row_id := Some row\<rparr>))"

definition seq_scan_next :: "page_id set \<Rightarrow> (seq_scan, exec_context) row_call" where
  "seq_scan_next pins =
     seq (on_iterator (iter_next pins)) (\<lambda>r x. case r of
       None \<Rightarrow> ret None x
     | Some row \<Rightarrow>
         seq (lift (decode_row (sq_schema (fst x)) row (cx_block (snd x)))) (\<lambda>t. ret (Some t)) x)"

definition seq_scan_reset :: "seq_scan reset" where
  "seq_scan_reset = modify (\<lambda>x. x\<lparr>sq_iterator := iter_reset (sq_iterator x)\<rparr>)"

section \<open>The index scan\<close>

datatype index_type = Primary | Secondary page_id

record index_scan =
  ix_iterator :: bptree_iterator
  ix_type :: index_type
  ix_key :: u64
  ix_op :: binary_operator
  ix_schema :: schema
  ix_rows :: "u64 list"

definition index_scan_new :: "bptree_iterator \<Rightarrow> index_type \<Rightarrow> u64 \<Rightarrow> binary_operator \<Rightarrow> schema \<Rightarrow> index_scan" where
  "index_scan_new it ty k op sc =
     \<lparr>ix_iterator = it, ix_type = ty, ix_key = k, ix_op = op, ix_schema = sc, ix_rows = []\<rparr>"

definition on_index_iterator :: "(bptree_iterator \<times> exec_context, 'a) call \<Rightarrow> (index_scan \<times> exec_context, 'a) call" where
  "on_index_iterator m = focus (\<lambda>(x, cx). (ix_iterator x, cx)) (\<lambda>(it, cx) (x, _). (x\<lparr>ix_iterator := it\<rparr>, cx)) m"

text \<open>What the operator makes of a key: stop, skip the key or take it.\<close>

datatype boundary = Stop | Skip | Take

fun boundary_check :: "binary_operator \<Rightarrow> u64 \<Rightarrow> u64 \<Rightarrow> boundary res" where
  "boundary_check OpEq search k = Ok (if k \<noteq> search then Stop else Take)"
| "boundary_check OpGt search k = Ok (if k = search then Skip else Take)"
| "boundary_check OpGte search k = Ok Take"
| "boundary_check OpLt search k = Ok (if search \<le> k then Stop else Take)"
| "boundary_check OpLte search k = Ok (if search < k then Stop else Take)"
| "boundary_check _ search k = Panic"

text \<open>\<open>as_chunks::<8>\<close>: the whole chunks of eight bytes.\<close>

fun row_ids :: "u8 list \<Rightarrow> u64 list" where
  "row_ids (a # b # c # d # e # f # g # h # bs) = u64_of_le [a, b, c, d, e, f, g, h] # row_ids bs"
| "row_ids _ = []"

partial_function (option) index_scan_next :: "page_id set \<Rightarrow> (index_scan, exec_context) row_call" where
  "index_scan_next pins x = (case ix_rows (fst x) of
     k # ks \<Rightarrow>
       (let x = apfst (\<lambda>i. i\<lparr>ix_rows := ks\<rparr>) x in
        case ix_type (fst x) of
          Primary \<Rightarrow> panic x
        | Secondary root \<Rightarrow>
            seq (on_pool (find_record pins root k)) (\<lambda>r x. case r of
              Some data \<Rightarrow> seq (lift (decode_row (ix_schema (fst x)) k data)) (\<lambda>t. ret (Some t)) x
            | None \<Rightarrow> index_scan_next pins x) x)
   | [] \<Rightarrow>
       seq (on_index_iterator (iter_next pins)) (\<lambda>r x. case r of
         None \<Rightarrow> ret None x
       | Some k \<Rightarrow>
           seq (lift (boundary_check (ix_op (fst x)) (ix_key (fst x)) k)) (\<lambda>b x. case b of
             Stop \<Rightarrow> ret None x
           | Skip \<Rightarrow> index_scan_next pins x
           | Take \<Rightarrow> (case ix_type (fst x) of
               Primary \<Rightarrow> seq (lift (decode_row (ix_schema (fst x)) k (cx_block (snd x)))) (\<lambda>t. ret (Some t)) x
             | Secondary _ \<Rightarrow> index_scan_next pins (apfst (\<lambda>i. i\<lparr>ix_rows := row_ids (cx_block (snd x))\<rparr>) x))) x) x)"

declare index_scan_next.simps [code]

definition index_scan_reset :: "index_scan reset" where
  "index_scan_reset = modify (\<lambda>x. x\<lparr>ix_iterator := iter_reset (ix_iterator x), ix_rows := []\<rparr>)"

section \<open>The cells of a chain of leaves\<close>

definition live_cells :: "cell list \<Rightarrow> cell list" where "live_cells cs = filter (\<lambda>c. \<not> is_deleted c) cs"

lemma live_simps [simp]: "live_cells [] = []" "live_cells (xs @ ys) = live_cells xs @ live_cells ys"
  "live_cells (c # cs) = (if is_deleted c then live_cells cs else c # live_cells cs)"
  by (simp_all add: live_cells_def)

fun leaf_chain :: "(page_id \<Rightarrow> btree_node option) \<Rightarrow> page_id \<Rightarrow> leaf_node list \<Rightarrow> bool" where
  "leaf_chain c p [] = False"
| "leaf_chain c p (l # ls) =
     (c p = Some (Leaf l) \<and> (if lf_has_next l then leaf_chain c (lf_next l) ls else ls = []))"

definition chain_cells :: "leaf_node list \<Rightarrow> cell list" where
  "chain_cells ls = concat (map leaf_cells ls)"

lemma chain_cells_simps [simp]: "chain_cells [] = []" "chain_cells (l # ls) = leaf_cells l @ chain_cells ls"
  by (simp_all add: chain_cells_def)

text \<open>The cells a cursor starts with: those of the whole table, or those from a key on.\<close>

definition start_cells :: "(page_id \<Rightarrow> btree_node option) \<Rightarrow> page_id \<Rightarrow> u64 option \<Rightarrow> cell list \<Rightarrow> bool" where
  "start_cells c root start rest \<longleftrightarrow> (\<exists>h q l ls. leaf_chain c q (l # ls) \<and> (case start of
     None \<Rightarrow> walk c first_child h root = Some (q, l) \<and> rest = leaf_cells l @ chain_cells ls
   | Some k \<Rightarrow> leaf_of c h root k = Some (q, l) \<and>
       rest = dropWhile (\<lambda>r. row_id r < k) (leaf_cells l) @ chain_cells ls))"

definition page_cells :: "(page_id \<Rightarrow> btree_node option) \<Rightarrow> page_id option \<Rightarrow> nat \<Rightarrow> cell list \<Rightarrow> bool" where
  "page_cells c page i rest \<longleftrightarrow> (case page of
     None \<Rightarrow> rest = []
   | Some p \<Rightarrow> \<exists>l ls. leaf_chain c p (l # ls) \<and> rest = drop i (leaf_cells l) @ chain_cells ls)"

definition iter_at :: "(page_id \<Rightarrow> btree_node option) \<Rightarrow> bptree_iterator \<Rightarrow> cell list \<Rightarrow> bool" where
  "iter_at c it rest \<longleftrightarrow> (if it_initialized it then page_cells c (it_page it) (it_slot it) rest
     else it_slot it = 0 \<and> start_cells c (it_root it) (it_start it) rest)"

lemma next_live_spec:
  assumes "leaf_wf l"
  shows "\<exists>j. next_live l i = Ok (j, first (live_cells (drop i (leaf_cells l)))) \<and>
    live_cells (drop j (leaf_cells l)) = tl (live_cells (drop i (leaf_cells l)))"
  using assms
proof (induction l i rule: next_live.induct)
  case (1 l i)
  show ?case
  proof (cases "i < length (lf_slots l)")
    case True
    let ?r = "leaf_cells l ! i"
    have s: "slot_cell l (lf_slots l ! i) = Ok ?r" using slot_cell_nth [OF 1(2) True] .
    have d: "drop i (leaf_cells l) = ?r # drop (Suc i) (leaf_cells l)"
      using True by (simp add: Cons_nth_drop_Suc)
    show ?thesis
    proof (cases "is_deleted ?r")
      case del: True
      from 1(1) [OF True del 1(2)] show ?thesis
        using del by (simp add: next_live.simps [of l i] True s d)
    next
      case False
      then show ?thesis by (simp add: next_live.simps [of l i] True s d)
    qed
  next
    case False
    then show ?thesis by (simp add: next_live.simps [of l i])
  qed
qed

text \<open>What a read leaves of the context for the other operators of the plan.\<close>

definition cx_evolves :: "page_id set \<Rightarrow> page_id set \<Rightarrow> page_id set \<Rightarrow> exec_context \<Rightarrow> exec_context \<Rightarrow> bool" where
  "cx_evolves D F pins cx cx' \<longleftrightarrow> cx_catalog cx' = cx_catalog cx \<and> cx_txn cx' = cx_txn cx \<and>
     (pool_inv D F (cx_pool cx) \<longrightarrow> pool_inv D F (cx_pool cx') \<and> quiet D pins (cx_pool cx) (cx_pool cx'))"

lemma cx_evolves_refl: "cx_evolves D F pins cx cx"
  by (simp add: cx_evolves_def)

lemma cx_evolves_trans: "cx_evolves D F pins cx cx' \<Longrightarrow> cx_evolves D F pins cx' cx'' \<Longrightarrow> cx_evolves D F pins cx cx''"
  using quiet_trans by (auto simp: cx_evolves_def)

lemma cx_evolves_block [simp]: "cx_evolves D F pins cx (cx'\<lparr>cx_block := b\<rparr>) = cx_evolves D F pins cx cx'"
  by (simp add: cx_evolves_def)

lemma cx_evolves_pool:
  "pool_inv D F s \<Longrightarrow> quiet D pins (cx_pool cx) s \<Longrightarrow> cx_evolves D F pins cx (cx\<lparr>cx_pool := s\<rparr>)"
  by (simp add: cx_evolves_def)

text \<open>A call on the pool that changes nothing but the cache.\<close>

lemma on_pool_spec:
  assumes "outcome (m (cx_pool cx)) (\<lambda>r s. Q r s \<and> pool_inv D F s \<and> quiet D pins (cx_pool cx) s)
    (\<lambda>e s. fails e \<and> pool_inv D F s \<and> quiet D pins (cx_pool cx) s)"
  shows "outcome (on_pool m (x, cx))
    (\<lambda>r (x', cx'). x' = x \<and> Q r (cx_pool cx') \<and> pool_inv D F (cx_pool cx') \<and> cx_evolves D F pins cx cx')
    (\<lambda>e (x', cx'). x' = x \<and> fails e \<and> cx_evolves D F pins cx cx')"
  unfolding outcome_on_pool
  by (rule outcome_weaken, rule assms) (auto intro: cx_evolves_pool)


lemma fetch_leaf_pins:
  assumes "pool_inv D F s" "F \<subseteq> pins" "db D s p = Some (Leaf l)"
  shows "outcome (fetch_page pins p s)
    (\<lambda>n s'. (\<exists>l'. n = Leaf l' \<and> l = reloaded_leaf l' \<and> leaf_wf l') \<and> pool_inv D F s' \<and> quiet D pins s s')
    (\<lambda>e s'. e = LruEviction \<and> pins \<noteq> {} \<and> pool_inv D F s' \<and> quiet D pins s s')"
proof -
  have p: "p \<in> D" "page_content s p = Some (Leaf l)" using assms(3) by (auto simp: db_def split: if_splits)
  show ?thesis
  proof (rule outcome_weaken, rule fetch_page_pins [OF assms(1,2) p(1)])
    fix n s1 assume r: "pool_inv D F s1 \<and> quiet D pins s s1 \<and> bp_table s1 p = Some n"
    then have "reloaded n = Leaf l" using p content_cached [of s1 p n] by (auto simp: quiet_def)
    then obtain l' where l: "n = Leaf l'" "l = reloaded_leaf l'" using reloaded_cases(2) by blast
    then have "leaf_wf l'" using r pages_invD(2) [of D F s1 p "Leaf l'"] by (auto simp: pool_inv_def pages_inv_def)
    with l r show "(\<exists>l'. n = Leaf l' \<and> l = reloaded_leaf l' \<and> leaf_wf l') \<and> pool_inv D F s1 \<and> quiet D pins s s1" by blast
  qed auto
qed

lemma fetch_leaf:
  assumes "pool_inv D F s" "F \<subseteq> pins" "db D s p = Some (Leaf l)"
  shows "outcome (fetch_page pins p s)
    (\<lambda>n s'. (\<exists>l'. n = Leaf l' \<and> l = reloaded_leaf l' \<and> leaf_wf l') \<and> pool_inv D F s' \<and> quiet D pins s s')
    (\<lambda>e s'. e = LruEviction \<and> pool_inv D F s' \<and> quiet D pins s s')"
  by (rule outcome_weaken [OF fetch_leaf_pins [OF assms]]) auto

section \<open>The cursor yields the live cells\<close>

text \<open>A step of the cursor over the cells \<open>rest\<close>.\<close>

definition iter_step :: "page_id set \<Rightarrow> page_id set \<Rightarrow> page_id set \<Rightarrow> cell list \<Rightarrow> bptree_iterator \<Rightarrow> exec_context \<Rightarrow>
    u64 option \<Rightarrow> bptree_iterator \<times> exec_context \<Rightarrow> bool" where
  "iter_step D F pins rest it cx r x' \<longleftrightarrow> (case x' of (it', cx') \<Rightarrow>
     r = map_option row_id (first (live_cells rest)) \<and>
     (\<forall>c. first (live_cells rest) = Some c \<longrightarrow> cx_block cx' = cell_data c) \<and>
     (\<exists>rest'. iter_at (db D (cx_pool cx)) it' rest' \<and> live_cells rest' = tl (live_cells rest)) \<and>
     it_initialized it' \<and> it_root it' = it_root it \<and> it_start it' = it_start it \<and>
     pool_inv D F (cx_pool cx') \<and> cx_evolves D F pins cx cx')"

lemma iter_stepI:
  "cx_evolves D F pins cx cx1 \<Longrightarrow> pool_inv D F (cx_pool cx) \<Longrightarrow> iter_step D F pins rest1 it1 cx1 r x' \<Longrightarrow>
   live_cells rest1 = live_cells rest \<Longrightarrow> it_root it1 = it_root it \<Longrightarrow> it_start it1 = it_start it \<Longrightarrow>
   iter_step D F pins rest it cx r x'"
  using cx_evolves_trans [of D F pins cx cx1] db_quiet [of D pins "cx_pool cx" "cx_pool cx1"]
  by (auto simp: iter_step_def cx_evolves_def split: prod.splits)

lemma iter_scan_round:
  assumes F: "F \<subseteq> pins" and chain: "leaf_chain (db D (cx_pool cx)) p (l # ls)" and inv: "pool_inv D F (cx_pool cx)"
    and it: "it_page it = Some p" "it_initialized it"
    and rest: "\<And>cx1 it1. lf_has_next l \<Longrightarrow> cx_evolves D F pins cx cx1 \<Longrightarrow> pool_inv D F (cx_pool cx1) \<Longrightarrow>
      it1 = it\<lparr>it_slot := 0, it_page := Some (lf_next l)\<rparr> \<Longrightarrow>
      outcome (iter_scan pins (it1, cx1)) (iter_step D F pins (chain_cells ls) it1 cx1)
        (\<lambda>e (it', cx'). e = LruEviction \<and> cx_evolves D F pins cx1 cx')"
  shows "outcome (iter_scan pins (it, cx))
      (iter_step D F pins (drop (it_slot it) (leaf_cells l) @ chain_cells ls) it cx)
      (\<lambda>e (it', cx'). e = LruEviction \<and> cx_evolves D F pins cx cx')"
proof -
  let ?rest = "drop (it_slot it) (leaf_cells l) @ chain_cells ls"
  have page: "db D (cx_pool cx) p = Some (Leaf l)" using chain by simp
  note fetched = on_pool_spec [where m = "fetch_page pins p" and cx = cx and x = it, OF fetch_leaf [OF inv F page]]
  show ?thesis
    unfolding iter_scan.simps [of pins "(it, cx)"] fst_conv it(1) option.case
  proof (rule outcome_pairI, rule outcome_weaken_pair, rule fetched)
    fix n it1 cx1
    assume "it1 = it \<and> (\<exists>l'. n = Leaf l' \<and> l = reloaded_leaf l' \<and> leaf_wf l') \<and> pool_inv D F (cx_pool cx1) \<and> cx_evolves D F pins cx cx1"
    then obtain l' where l': "it1 = it" "n = Leaf l'" "l = reloaded_leaf l'" "leaf_wf l'" "pool_inv D F (cx_pool cx1)"
      "cx_evolves D F pins cx cx1" by blast
    have c: "leaf_cells l' = leaf_cells l" "lf_has_next l' = lf_has_next l" "lf_next l' = lf_next l"
      using l'(3) by (simp_all add: reloaded_leaf_def leaf_cells_def)
    obtain j where j: "next_live l' (it_slot it) = Ok (j, first (live_cells (drop (it_slot it) (leaf_cells l))))"
      "live_cells (drop j (leaf_cells l)) = tl (live_cells (drop (it_slot it) (leaf_cells l)))"
      using next_live_spec [OF l'(4), of "it_slot it"] unfolding c by blast
    have "outcome (case first (live_cells (drop (it_slot it) (leaf_cells l))) of
        Some c \<Rightarrow> ret (Some (row_id c)) (it\<lparr>it_slot := j\<rparr>, cx1\<lparr>cx_block := cell_data c\<rparr>)
      | None \<Rightarrow> if lf_has_next l then iter_scan pins (it\<lparr>it_slot := 0, it_page := Some (lf_next l)\<rparr>, cx1)
          else iter_scan pins (it\<lparr>it_slot := j, it_page := None\<rparr>, cx1))
      (iter_step D F pins ?rest it cx) (\<lambda>e (it', cx'). e = LruEviction \<and> cx_evolves D F pins cx cx')"
    proof (cases "live_cells (drop (it_slot it) (leaf_cells l))")
      case (Cons a as)
      have at: "iter_at (db D (cx_pool cx)) (it\<lparr>it_slot := j\<rparr>) (drop j (leaf_cells l) @ chain_cells ls)"
        using chain it by (auto simp: iter_at_def page_cells_def)
      have "\<exists>rest'. iter_at (db D (cx_pool cx)) (it\<lparr>it_slot := j\<rparr>) rest' \<and> live_cells rest' = tl (live_cells ?rest)"
        by (rule exI, rule conjI, rule at) (simp add: j(2) Cons)
      then show ?thesis using Cons l'(5,6) it(2) by (simp add: iter_step_def)
    next
      case Nil
      show ?thesis
      proof (cases "lf_has_next l")
        case True
        show ?thesis unfolding Nil first_simps option.case if_P [OF True]
        proof (rule outcome_weaken_pair, rule outcome_weaken, rule rest [OF True l'(6,5) refl])
          fix r x' assume "iter_step D F pins (chain_cells ls) (it\<lparr>it_slot := 0, it_page := Some (lf_next l)\<rparr>) cx1 r x'"
          then have "iter_step D F pins ?rest it cx r x'"
            by (rule iter_stepI [OF l'(6) inv]) (simp_all add: Nil)
          then show "case x' of (c, s) \<Rightarrow> iter_step D F pins ?rest it cx r (c, s)" by (cases x') simp
        next
          fix e x' assume "case x' of (it', cx') \<Rightarrow> e = LruEviction \<and> cx_evolves D F pins cx1 cx'"
          then show "case x' of (c, s) \<Rightarrow> e = LruEviction \<and> cx_evolves D F pins cx s"
            using cx_evolves_trans [OF l'(6)] by (cases x') auto
        qed simp_all
      next
        case False
        then have "ls = []" using chain by simp
        then show ?thesis using Nil False l'(5,6) it(2)
          by (simp add: iter_scan.simps iter_step_def iter_at_def page_cells_def)
      qed
    qed
    then show "outcome (case n of
         Internal _ \<Rightarrow> fail (CorruptPage ''bptree iterator encountered a non-leaf page'') (it1, cx1)
       | Leaf l \<Rightarrow>
           seq (lift (next_live l (it_slot (fst (it1, cx1))))) (\<lambda>r x. case snd r of
             Some c \<Rightarrow>
               ret (Some (row_id c)) (apfst (\<lambda>it. it\<lparr>it_slot := fst r\<rparr>) (apsnd (\<lambda>cx. cx\<lparr>cx_block := cell_data c\<rparr>) x))
           | None \<Rightarrow>
               if lf_has_next l
               then iter_scan pins (apfst (\<lambda>it. it\<lparr>it_slot := 0, it_page := Some (lf_next l)\<rparr>) x)
               else iter_scan pins (apfst (\<lambda>it. it\<lparr>it_slot := fst r, it_page := None\<rparr>) x)) (it1, cx1))
      (iter_step D F pins ?rest it cx) (\<lambda>e (it', cx'). e = LruEviction \<and> cx_evolves D F pins cx cx')"
      using l'(1,2) j(1) c by (cases "first (live_cells (drop (it_slot it) (leaf_cells l)))"; cases "lf_has_next l") simp_all
  qed auto
qed

lemma iter_scan_spec:
  assumes F: "F \<subseteq> pins"
  shows "leaf_chain (db D (cx_pool cx)) p (l # ls) \<Longrightarrow> pool_inv D F (cx_pool cx) \<Longrightarrow>
    it_page it = Some p \<Longrightarrow> it_initialized it \<Longrightarrow>
    outcome (iter_scan pins (it, cx))
      (iter_step D F pins (drop (it_slot it) (leaf_cells l) @ chain_cells ls) it cx)
      (\<lambda>e (it', cx'). e = LruEviction \<and> cx_evolves D F pins cx cx')"
proof (induction ls arbitrary: it cx p l)
  case Nil
  show ?case by (rule iter_scan_round [OF F Nil]) (use Nil(1) in simp)
next
  case (Cons l2 ls)
  show ?case
  proof (rule iter_scan_round [OF F Cons.prems])
    fix cx1 and it1 :: bptree_iterator
    assume a: "lf_has_next l" "cx_evolves D F pins cx cx1" "pool_inv D F (cx_pool cx1)"
      "it1 = it\<lparr>it_slot := 0, it_page := Some (lf_next l)\<rparr>"
    have "db D (cx_pool cx1) = db D (cx_pool cx)"
      using a(2) Cons.prems(2) db_quiet [of D pins "cx_pool cx" "cx_pool cx1"] by (auto simp: cx_evolves_def)
    then have "leaf_chain (db D (cx_pool cx1)) (lf_next l) (l2 # ls)" using Cons.prems(1) a(1) by simp
    from Cons.IH [OF this a(3), of it1] a(4) Cons.prems(4)
    show "outcome (iter_scan pins (it1, cx1)) (iter_step D F pins (chain_cells (l2 # ls)) it1 cx1)
        (\<lambda>e (it', cx'). e = LruEviction \<and> cx_evolves D F pins cx1 cx')" by simp
  qed
qed


lemma seq_at: "m x = m' x \<Longrightarrow> seq m f x = seq m' f x"
  by (simp add: seq_def)

lemma iter_opened:
  assumes "leaf_chain (db D (cx_pool cx)) q (l # ls)" "pool_inv D F (cx_pool cx)" "F \<subseteq> pins"
    and op: "outcome (m (cx_pool cx)) (\<lambda>r s. Q r s \<and> pool_inv D F s \<and> quiet D pins (cx_pool cx) s)
      (\<lambda>e s. e = LruEviction \<and> pool_inv D F s \<and> quiet D pins (cx_pool cx) s)"
    and f: "\<And>r s cx1. Q r s \<Longrightarrow> f r (it, cx1) = iter_scan pins (start, cx1)"
    and started: "it_page start = Some q" "it_initialized start" "it_root start = it_root it" "it_start start = it_start it"
    and rest: "rest = drop (it_slot start) (leaf_cells l) @ chain_cells ls"
  shows "outcome (seq (on_pool m) f (it, cx))
    (iter_step D F pins rest it cx) (\<lambda>e (it', cx'). e = LruEviction \<and> cx_evolves D F pins cx cx')"
proof (rule outcome_pairI, rule outcome_weaken_pair, rule on_pool_spec, rule op)
  fix r and itx :: bptree_iterator and cx1
  assume a: "itx = it \<and> Q r (cx_pool cx1) \<and> pool_inv D F (cx_pool cx1) \<and> cx_evolves D F pins cx cx1"
  then have "db D (cx_pool cx1) = db D (cx_pool cx)"
    using assms(2) db_quiet [of D pins "cx_pool cx" "cx_pool cx1"] by (auto simp: cx_evolves_def)
  then have ch: "leaf_chain (db D (cx_pool cx1)) q (l # ls)" using assms(1) by simp
  have "outcome (iter_scan pins (start, cx1)) (iter_step D F pins rest it cx)
    (\<lambda>e (it', cx'). e = LruEviction \<and> cx_evolves D F pins cx cx')"
  proof (rule outcome_weaken, rule iter_scan_spec [OF assms(3) ch _ started(1,2)])
    show "pool_inv D F (cx_pool cx1)" using a by simp
    fix r x' assume "iter_step D F pins (drop (it_slot start) (leaf_cells l) @ chain_cells ls) start cx1 r x'"
    then show "iter_step D F pins rest it cx r x'"
      using iter_stepI [of D F pins cx cx1 _ start r x' rest it] a assms(2) rest started(3,4) by simp
  next
    fix e x' assume "case x' of (it', cx') \<Rightarrow> e = LruEviction \<and> cx_evolves D F pins cx1 cx'"
    then show "case x' of (it', cx') \<Rightarrow> e = LruEviction \<and> cx_evolves D F pins cx cx'"
      using a cx_evolves_trans [of D F pins cx cx1] by (cases x') auto
  qed
  then show "outcome (f r (itx, cx1)) (iter_step D F pins rest it cx)
    (\<lambda>e (it', cx'). e = LruEviction \<and> cx_evolves D F pins cx cx')"
    using a f [of r "cx_pool cx1" cx1] by simp
qed auto

lemma iter_next_spec:
  assumes at: "iter_at (db D (cx_pool cx)) it rest" and inv: "pool_inv D F (cx_pool cx)" and F: "F \<subseteq> pins"
  shows "outcome (iter_next pins (it, cx)) (iter_step D F pins rest it cx)
    (\<lambda>e (it', cx'). e = LruEviction \<and> cx_evolves D F pins cx cx')"
proof (cases "it_initialized it")
  case True
  then have opened: "iter_next pins (it, cx) = iter_scan pins (it, cx)"
    by (simp add: iter_next_def iter_open_def seq_def ret_def)
  have pc: "page_cells (db D (cx_pool cx)) (it_page it) (it_slot it) rest" using at True by (simp add: iter_at_def)
  show ?thesis
  proof (cases "it_page it")
    case None
    then have "rest = []" using pc by (simp add: page_cells_def)
    then show ?thesis unfolding opened
      using None True inv at by (simp add: iter_scan.simps iter_step_def cx_evolves_refl)
        (auto simp: iter_at_def page_cells_def)
  next
    case (Some p)
    then obtain l ls where l: "leaf_chain (db D (cx_pool cx)) p (l # ls)"
      "rest = drop (it_slot it) (leaf_cells l) @ chain_cells ls"
      using pc by (auto simp: page_cells_def)
    show ?thesis unfolding opened l(2) by (rule iter_scan_spec [OF F l(1) inv Some True])
  qed
next
  case False
  then have s: "it_slot it = 0" "start_cells (db D (cx_pool cx)) (it_root it) (it_start it) rest"
    using at by (simp_all add: iter_at_def)
  then obtain h q l ls where chain: "leaf_chain (db D (cx_pool cx)) q (l # ls)"
    and st: "case it_start it of
     None \<Rightarrow> walk (db D (cx_pool cx)) first_child h (it_root it) = Some (q, l) \<and> rest = leaf_cells l @ chain_cells ls
   | Some k \<Rightarrow> leaf_of (db D (cx_pool cx)) h (it_root it) k = Some (q, l) \<and>
       rest = dropWhile (\<lambda>r. row_id r < k) (leaf_cells l) @ chain_cells ls"
    unfolding start_cells_def by blast
  show ?thesis
  proof (cases "it_start it")
    case None
    have e: "iter_next pins (it, cx) = seq (on_pool (get_leftmost_leaf pins (it_root it))) (\<lambda>p.
        seq (modify (apfst (\<lambda>it. it\<lparr>it_page := Some p, it_initialized := True\<rparr>))) (\<lambda>_. iter_scan pins)) (it, cx)"
      using False None by (simp add: iter_next_def iter_open_def seq_assoc [symmetric] seq_def)
    have w: "walk (db D (cx_pool cx)) first_child h (it_root it) = Some (q, l)"
      and r: "rest = leaf_cells l @ chain_cells ls" using st None by simp_all
    have g: "outcome (get_leftmost_leaf pins (it_root it) (cx_pool cx))
        (\<lambda>p s'. p = q \<and> pool_inv D F s' \<and> quiet D pins (cx_pool cx) s')
        (\<lambda>e s'. e = LruEviction \<and> pool_inv D F s' \<and> quiet D pins (cx_pool cx) s')"
      by (rule outcome_weaken, rule get_leftmost_leaf_spec [OF w inv F]) auto
    show ?thesis unfolding e
      by (rule iter_opened [OF chain inv F, where Q = "\<lambda>p _. p = q" and
            start = "it\<lparr>it_page := Some q, it_initialized := True\<rparr>"])
        (use s(1) r g in simp_all)
  next
    case (Some k)
    have e: "iter_next pins (it, cx) = seq (on_pool (get_leaf_and_slot pins (it_root it) k)) (\<lambda>r.
        seq (modify (apfst (\<lambda>it. it\<lparr>it_page := Some (fst r), it_slot := snd r, it_initialized := True\<rparr>))) (\<lambda>_. iter_scan pins)) (it, cx)"
    proof -
      have o: "iter_open pins (it, cx) = seq (on_pool (get_leaf_and_slot pins (it_root it) k)) (\<lambda>r.
        modify (apfst (\<lambda>it. it\<lparr>it_page := Some (fst r), it_slot := snd r, it_initialized := True\<rparr>))) (it, cx)"
        using False Some by (simp add: iter_open_def split_def)
      show ?thesis unfolding iter_next_def seq_assoc [symmetric] by (rule seq_at, rule o)
    qed
    have w: "leaf_of (db D (cx_pool cx)) h (it_root it) k = Some (q, l)"
      and r: "rest = dropWhile (\<lambda>r. row_id r < k) (leaf_cells l) @ chain_cells ls" using st Some by simp_all
    let ?i = "length (takeWhile (\<lambda>r. row_id r < k) (leaf_cells l))"
    have g: "outcome (get_leaf_and_slot pins (it_root it) k (cx_pool cx))
        (\<lambda>r s'. r = (q, ?i) \<and> pool_inv D F s' \<and> quiet D pins (cx_pool cx) s')
        (\<lambda>e s'. e = LruEviction \<and> pool_inv D F s' \<and> quiet D pins (cx_pool cx) s')"
      by (rule outcome_weaken, rule get_leaf_and_slot_spec [OF w inv F]) auto
    show ?thesis unfolding e
      by (rule iter_opened [OF chain inv F, where Q = "\<lambda>r _. r = (q, ?i)" and start = "it\<lparr>it_page := Some q, it_slot := ?i, it_initialized := True\<rparr>"])
        (use r g in \<open>simp_all add: dropWhile_eq_drop\<close>)
  qed
qed

section \<open>The sequential scan yields the rows of the table\<close>

definition row_of :: "schema \<Rightarrow> cell \<Rightarrow> tuple res" where
  "row_of sc c = decode_row sc (row_id c) (cell_data c)"

definition rows_of :: "schema \<Rightarrow> cell list \<Rightarrow> tuple list res" where
  "rows_of sc cs = res_map (row_of sc) (live_cells cs)"

lemma rows_of_Cons:
  "live_cells cs = c # cs' \<Longrightarrow> rows_of sc cs = Ok ts \<Longrightarrow> \<exists>t ts'. row_of sc c = Ok t \<and> res_map (row_of sc) cs' = Ok ts' \<and> ts = t # ts'"
  by (auto simp: rows_of_def res_bind_eq_Ok)

definition seq_scan_stream ::
    "page_id set \<Rightarrow> page_id set \<Rightarrow> schema \<Rightarrow> tuple list \<Rightarrow> seq_scan \<Rightarrow> exec_context \<Rightarrow> tuple list \<Rightarrow> bool" where
  "seq_scan_stream D F sc R x cx ts \<longleftrightarrow> sq_schema x = sc \<and> pool_inv D F (cx_pool cx) \<and>
     (\<exists>all rest. start_cells (db D (cx_pool cx)) (it_root (sq_iterator x)) (it_start (sq_iterator x)) all \<and>
       iter_at (db D (cx_pool cx)) (sq_iterator x) rest \<and> rows_of sc all = Ok R \<and> rows_of sc rest = Ok ts)"

lemma seq_scan_streamI:
  "sq_schema x = sc \<Longrightarrow> pool_inv D F (cx_pool cx) \<Longrightarrow>
   start_cells (db D (cx_pool cx)) (it_root (sq_iterator x)) (it_start (sq_iterator x)) all \<Longrightarrow>
   iter_at (db D (cx_pool cx)) (sq_iterator x) rest \<Longrightarrow> rows_of sc all = Ok R \<Longrightarrow> rows_of sc rest = Ok ts \<Longrightarrow>
   seq_scan_stream D F sc R x cx ts"
  unfolding seq_scan_stream_def by blast

lemma cx_evolves_db: "cx_evolves D F pins cx cx' \<Longrightarrow> pool_inv D F (cx_pool cx) \<Longrightarrow> db D (cx_pool cx') = db D (cx_pool cx)"
  using db_quiet by (auto simp: cx_evolves_def)

lemma seq_scan_source:
  assumes F: "F \<subseteq> pins"
  shows "row_source (seq_scan_next pins) seq_scan_reset (seq_scan_stream D F sc) (cx_evolves D F pins) (\<lambda>e. e = LruEviction)"
proof
  fix R x cx ts assume "seq_scan_stream D F sc R x cx ts"
  then obtain all rest where x: "sq_schema x = sc" "pool_inv D F (cx_pool cx)"
    "start_cells (db D (cx_pool cx)) (it_root (sq_iterator x)) (it_start (sq_iterator x)) all"
    "iter_at (db D (cx_pool cx)) (sq_iterator x) rest" "rows_of sc all = Ok R" "rows_of sc rest = Ok ts"
    unfolding seq_scan_stream_def by blast
  show "outcome (seq_scan_next pins (x, cx))
    (\<lambda>r (x', cx'). r = first ts \<and> seq_scan_stream D F sc R x' cx' (tl ts) \<and> cx_evolves D F pins cx cx')
    (\<lambda>e (x', cx'). e = LruEviction \<and> cx_evolves D F pins cx cx')"
    unfolding seq_scan_next_def
  proof (rule outcome_pairI [where R = "\<lambda>r x' cx'. sq_schema x' = sc \<and>
        iter_step D F pins rest (sq_iterator x) cx r (sq_iterator x', cx')"])
    show "outcome (on_iterator (iter_next pins) (x, cx))
      (\<lambda>r (x', cx'). sq_schema x' = sc \<and> iter_step D F pins rest (sq_iterator x) cx r (sq_iterator x', cx'))
      (\<lambda>e (x', cx'). e = LruEviction \<and> cx_evolves D F pins cx cx')"
      unfolding on_iterator_def outcome_focus prod.case
      by (rule outcome_weaken, rule iter_next_spec [OF x(4,2) F]) (use x(1) in \<open>auto split: prod.split\<close>)
    fix r and x1 :: seq_scan and cx1
    assume a: "sq_schema x1 = sc \<and> iter_step D F pins rest (sq_iterator x) cx r (sq_iterator x1, cx1)"
    then obtain rest1 where s: "r = map_option row_id (first (live_cells rest))"
      "\<And>c. first (live_cells rest) = Some c \<Longrightarrow> cx_block cx1 = cell_data c"
      "iter_at (db D (cx_pool cx)) (sq_iterator x1) rest1" "live_cells rest1 = tl (live_cells rest)"
      "it_root (sq_iterator x1) = it_root (sq_iterator x)" "it_start (sq_iterator x1) = it_start (sq_iterator x)"
      "pool_inv D F (cx_pool cx1)" "cx_evolves D F pins cx cx1" "sq_schema x1 = sc"
      unfolding iter_step_def by auto
    note same = cx_evolves_db [OF s(8) x(2)]
    have str: "seq_scan_stream D F sc R x1 cx1 ts'" if "res_map (row_of sc) (tl (live_cells rest)) = Ok ts'" for ts'
      by (rule seq_scan_streamI [OF s(9,7), of all rest1]) (use that x s in \<open>simp_all add: same rows_of_def\<close>)
    show "outcome (case r of
       None \<Rightarrow> ret None (x1, cx1)
     | Some row \<Rightarrow>
         seq (lift (decode_row (sq_schema (fst (x1, cx1))) row (cx_block (snd (x1, cx1))))) (\<lambda>t. ret (Some t)) (x1, cx1))
      (\<lambda>r (x', cx'). r = first ts \<and> seq_scan_stream D F sc R x' cx' (tl ts) \<and> cx_evolves D F pins cx cx')
      (\<lambda>e (x', cx'). e = LruEviction \<and> cx_evolves D F pins cx cx')"
    proof (cases "live_cells rest")
      case Nil
      then show ?thesis using s(1,8) x(6) str [of "[]"] by (simp add: rows_of_def)
    next
      case (Cons c cs)
      from rows_of_Cons [OF this x(6)] obtain t ts' where t: "row_of sc c = Ok t" "res_map (row_of sc) cs = Ok ts'"
        "ts = t # ts'" by blast
      then show ?thesis using s(1,2,8,9) Cons str [of ts'] by (simp add: row_of_def)
    qed
  qed
next
  fix R x cx ts assume "seq_scan_stream D F sc R x cx ts"
  then obtain all where x: "sq_schema x = sc" "pool_inv D F (cx_pool cx)"
    "start_cells (db D (cx_pool cx)) (it_root (sq_iterator x)) (it_start (sq_iterator x)) all" "rows_of sc all = Ok R"
    unfolding seq_scan_stream_def by blast
  let ?x = "x\<lparr>sq_iterator := iter_reset (sq_iterator x)\<rparr>"
  have "seq_scan_stream D F sc R ?x cx R"
    by (rule seq_scan_streamI [of _ _ _ _ _ all all]) (use x in \<open>simp_all add: iter_reset_def iter_at_def\<close>)
  then show "\<exists>c'. seq_scan_reset x = ret () c' \<and> seq_scan_stream D F sc R c' cx R"
    by (intro exI [of _ ?x]) (simp add: seq_scan_reset_def modify_def ret_def)
next
  fix R x cx ts cx' assume a: "seq_scan_stream D F sc R x cx ts" "cx_evolves D F pins cx cx'"
  then have inv: "pool_inv D F (cx_pool cx)" by (simp add: seq_scan_stream_def)
  with a(2) have "pool_inv D F (cx_pool cx')" by (simp add: cx_evolves_def)
  with a(1) show "seq_scan_stream D F sc R x cx' ts"
    unfolding seq_scan_stream_def cx_evolves_db [OF a(2) inv] by blast
qed (use cx_evolves_refl cx_evolves_trans in blast)+

interpretation table_scan: row_source "seq_scan_next {}" seq_scan_reset "seq_scan_stream D {} sc"
    "cx_evolves D {} {}" "\<lambda>e. e = LruEviction" for D sc
  by (rule seq_scan_source) simp

interpretation table_join: join_sources "seq_scan_next {}" seq_scan_reset "seq_scan_stream D {} sc"
    "seq_scan_next {}" seq_scan_reset "seq_scan_stream D {} sc'" "cx_evolves D {} {}" "\<lambda>e. e = LruEviction" for D sc sc'
  by unfold_locales

text \<open>
  C17: A sequential scan that is drained yields the decoded live rows of the chain of leaves, in
  order and with their row ids, ends, and changes no page; the only error is that all frames are
  pinned.
\<close>

lemma table_rows:
  assumes t: "start_cells (db D (cx_pool cx)) root start cs" and rows: "rows_of sc cs = Ok ts"
    and inv: "pool_inv D F (cx_pool cx)" and F: "F \<subseteq> pins"
  shows "outcome (drain (seq_scan_next pins) (seq_scan_new (iter_new_at_key root start) sc, cx))
    (\<lambda>us (_, cx'). us = ts \<and> cx_evolves D F pins cx cx') (\<lambda>e (_, cx'). e = LruEviction \<and> cx_evolves D F pins cx cx')"
proof -
  have "seq_scan_stream D F sc ts (seq_scan_new (iter_new_at_key root start) sc) cx ts"
    by (rule seq_scan_streamI [of _ _ _ _ _ cs cs])
      (use t rows inv in \<open>simp_all add: seq_scan_new_def iter_new_at_key_def iter_at_def\<close>)
  note d = row_source.drain_stream [OF seq_scan_source [OF F, of D sc], OF this]
  show ?thesis by (rule outcome_weaken, rule d) auto
qed

section \<open>The index scan on a primary key\<close>

text \<open>The keys an operator asks for, in the unsigned order of the tree.\<close>

fun in_range :: "binary_operator \<Rightarrow> u64 \<Rightarrow> u64 \<Rightarrow> bool" where
  "in_range OpEq search k \<longleftrightarrow> k = search"
| "in_range OpGt search k \<longleftrightarrow> search < k"
| "in_range OpGte search k \<longleftrightarrow> search \<le> k"
| "in_range OpLt search k \<longleftrightarrow> k < search"
| "in_range OpLte search k \<longleftrightarrow> k \<le> search"
| "in_range _ search k \<longleftrightarrow> False"

definition range_cells :: "binary_operator \<Rightarrow> u64 \<Rightarrow> cell list \<Rightarrow> cell list" where
  "range_cells op search cs = filter (\<lambda>c. in_range op search (row_id c)) (live_cells cs)"

text \<open>The cells are in key order, and begin at the key for the operators that search upwards.\<close>

definition scannable :: "binary_operator \<Rightarrow> u64 \<Rightarrow> cell list \<Rightarrow> bool" where
  "scannable op search cs \<longleftrightarrow> op \<in> {OpEq, OpGt, OpGte, OpLt, OpLte} \<and> sorted_wrt (<) (map row_id (live_cells cs)) \<and>
     (op \<in> {OpEq, OpGt, OpGte} \<longrightarrow> (\<forall>c \<in> set (live_cells cs). search \<le> row_id c))"

text \<open>The boundary check decides the range, and after a stop nothing is left of it.\<close>

lemma boundary_check_spec:
  assumes "scannable op search cs" "live_cells cs = c # cs'"
  obtains (take) "boundary_check op search (row_id c) = Ok Take" "in_range op search (row_id c)"
  | (skip) "boundary_check op search (row_id c) = Ok Skip" "\<not> in_range op search (row_id c)"
  | (stop) "boundary_check op search (row_id c) = Ok Stop" "\<forall>x \<in> set (c # cs'). \<not> in_range op search (row_id x)"
proof -
  have below: "row_id c \<le> row_id x" if "x \<in> set (c # cs')" for x
    using assms that by (auto simp: scannable_def less_imp_le)
  have strict: "row_id c < row_id x" if "x \<in> set cs'" for x
    using assms that by (auto simp: scannable_def)
  have "op \<in> {OpEq, OpGt, OpGte, OpLt, OpLte}" using assms(1) by (simp add: scannable_def)
  then consider "op = OpEq" | "op = OpGt" | "op = OpGte" | "op = OpLt" | "op = OpLte" by blast
  then show thesis
  proof cases
    case 1
    then have "search \<le> row_id c" using assms by (auto simp: scannable_def)
    then show thesis using 1 take stop strict by (cases "row_id c = search") fastforce+
  next
    case 2
    then have "search \<le> row_id c" using assms by (auto simp: scannable_def)
    then show thesis using 2 take skip by (cases "row_id c = search") auto
  next
    case 3
    then have "search \<le> row_id c" using assms by (auto simp: scannable_def)
    then show thesis using 3 take by simp
  next
    case 4
    then show thesis using take stop below by (cases "search \<le> row_id c") (fastforce simp: not_less)+
  next
    case 5
    then show thesis using take stop below by (cases "search < row_id c") (fastforce simp: not_le)+
  qed
qed

lemma scannable_tl: "scannable op search cs \<Longrightarrow> live_cells cs' = tl (live_cells cs) \<Longrightarrow> scannable op search cs'"
  by (cases "live_cells cs") (auto simp: scannable_def)

definition index_scan_stream ::
    "page_id set \<Rightarrow> page_id set \<Rightarrow> schema \<Rightarrow> binary_operator \<Rightarrow> u64 \<Rightarrow>
      tuple list \<Rightarrow> index_scan \<Rightarrow> exec_context \<Rightarrow> tuple list \<Rightarrow> bool" where
  "index_scan_stream D F sc op search R x cx ts \<longleftrightarrow>
     ix_type x = Primary \<and> ix_rows x = [] \<and> ix_schema x = sc \<and> ix_op x = op \<and> ix_key x = search \<and>
     pool_inv D F (cx_pool cx) \<and>
     (\<exists>all rest. start_cells (db D (cx_pool cx)) (it_root (ix_iterator x)) (it_start (ix_iterator x)) all \<and>
       iter_at (db D (cx_pool cx)) (ix_iterator x) rest \<and> scannable op search all \<and> scannable op search rest \<and>
       res_map (row_of sc) (range_cells op search all) = Ok R \<and>
       res_map (row_of sc) (range_cells op search rest) = Ok ts)"

lemma index_scan_streamI:
  "ix_type x = Primary \<Longrightarrow> ix_rows x = [] \<Longrightarrow> ix_schema x = sc \<Longrightarrow> ix_op x = op \<Longrightarrow> ix_key x = search \<Longrightarrow>
   pool_inv D F (cx_pool cx) \<Longrightarrow>
   start_cells (db D (cx_pool cx)) (it_root (ix_iterator x)) (it_start (ix_iterator x)) all \<Longrightarrow>
   iter_at (db D (cx_pool cx)) (ix_iterator x) rest \<Longrightarrow> scannable op search all \<Longrightarrow> scannable op search rest \<Longrightarrow>
   res_map (row_of sc) (range_cells op search all) = Ok R \<Longrightarrow>
   res_map (row_of sc) (range_cells op search rest) = Ok ts \<Longrightarrow>
   index_scan_stream D F sc op search R x cx ts"
  unfolding index_scan_stream_def by blast

lemma index_scan_next_stream:
  assumes F: "F \<subseteq> pins"
  shows "ix_type x = Primary \<Longrightarrow> ix_rows x = [] \<Longrightarrow> ix_schema x = sc \<Longrightarrow> ix_op x = op \<Longrightarrow> ix_key x = search \<Longrightarrow>
   pool_inv D F (cx_pool cx) \<Longrightarrow>
   start_cells (db D (cx_pool cx)) (it_root (ix_iterator x)) (it_start (ix_iterator x)) all \<Longrightarrow>
   iter_at (db D (cx_pool cx)) (ix_iterator x) rest \<Longrightarrow> scannable op search all \<Longrightarrow> scannable op search rest \<Longrightarrow>
   res_map (row_of sc) (range_cells op search all) = Ok R \<Longrightarrow>
   res_map (row_of sc) (range_cells op search rest) = Ok ts \<Longrightarrow>
   outcome (index_scan_next pins (x, cx))
    (\<lambda>r (x', cx'). r = first ts \<and> index_scan_stream D F sc op search R x' cx' (tl ts) \<and> cx_evolves D F pins cx cx')
    (\<lambda>e (x', cx'). e = LruEviction \<and> cx_evolves D F pins cx cx')"
proof (induction "length (live_cells rest)" arbitrary: x cx rest rule: less_induct)
  case less
  note x = less.prems
  show ?case
    unfolding index_scan_next.simps [of pins "(x, cx)"] fst_conv x(2) list.case
  proof (rule outcome_pairI [where R = "\<lambda>r x' cx'. ix_type x' = Primary \<and> ix_rows x' = [] \<and> ix_schema x' = sc \<and>
        ix_op x' = op \<and> ix_key x' = search \<and>
        iter_step D F pins rest (ix_iterator x) cx r (ix_iterator x', cx')"])
    show "outcome (on_index_iterator (iter_next pins) (x, cx))
      (\<lambda>r (x', cx'). ix_type x' = Primary \<and> ix_rows x' = [] \<and> ix_schema x' = sc \<and>
        ix_op x' = op \<and> ix_key x' = search \<and> iter_step D F pins rest (ix_iterator x) cx r (ix_iterator x', cx'))
      (\<lambda>e (x', cx'). e = LruEviction \<and> cx_evolves D F pins cx cx')"
      unfolding on_index_iterator_def outcome_focus prod.case
      by (rule outcome_weaken, rule iter_next_spec [OF x(8,6) F]) (use x(1-5) in \<open>auto split: prod.split\<close>)
    fix r and x1 :: index_scan and cx1
    assume "ix_type x1 = Primary \<and> ix_rows x1 = [] \<and> ix_schema x1 = sc \<and>
        ix_op x1 = op \<and> ix_key x1 = search \<and> iter_step D F pins rest (ix_iterator x) cx r (ix_iterator x1, cx1)"
    then obtain rest1 where f: "ix_type x1 = Primary" "ix_rows x1 = []" "ix_schema x1 = sc" "ix_op x1 = op" "ix_key x1 = search"
      and s: "r = map_option row_id (first (live_cells rest))"
      "\<And>c. first (live_cells rest) = Some c \<Longrightarrow> cx_block cx1 = cell_data c"
      "iter_at (db D (cx_pool cx)) (ix_iterator x1) rest1" "live_cells rest1 = tl (live_cells rest)"
      "it_root (ix_iterator x1) = it_root (ix_iterator x)" "it_start (ix_iterator x1) = it_start (ix_iterator x)"
      "pool_inv D F (cx_pool cx1)" "cx_evolves D F pins cx cx1"
      unfolding iter_step_def by auto
    note same = cx_evolves_db [OF s(8) x(6)]
    note sc1 = scannable_tl [OF x(10) s(4)]
    have start: "start_cells (db D (cx_pool cx1)) (it_root (ix_iterator x1)) (it_start (ix_iterator x1)) all"
      using x(7) s(5,6) by (simp add: same)
    have at1: "iter_at (db D (cx_pool cx1)) (ix_iterator x1) rest1" using s(3) by (simp add: same)
    have str: "index_scan_stream D F sc op search R x1 cx1 ts'"
      if "res_map (row_of sc) (range_cells op search rest1) = Ok ts'" for ts'
      by (rule index_scan_streamI [OF f s(7) start at1 x(9) sc1 x(11) that])
    have tail: "range_cells op search rest1 = filter (\<lambda>c. in_range op search (row_id c)) (tl (live_cells rest))"
      by (simp add: range_cells_def s(4))
    show "outcome (case r of
         None \<Rightarrow> ret None (x1, cx1)
       | Some k \<Rightarrow>
           seq (lift (boundary_check (ix_op (fst (x1, cx1))) (ix_key (fst (x1, cx1))) k)) (\<lambda>b x. case b of
             Stop \<Rightarrow> ret None x
           | Skip \<Rightarrow> index_scan_next pins x
           | Take \<Rightarrow> (case ix_type (fst x) of
               Primary \<Rightarrow> seq (lift (decode_row (ix_schema (fst x)) k (cx_block (snd x)))) (\<lambda>t. ret (Some t)) x
             | Secondary _ \<Rightarrow> index_scan_next pins (apfst (\<lambda>i. i\<lparr>ix_rows := row_ids (cx_block (snd x))\<rparr>) x))) (x1, cx1))
      (\<lambda>r (x', cx'). r = first ts \<and> index_scan_stream D F sc op search R x' cx' (tl ts) \<and> cx_evolves D F pins cx cx')
      (\<lambda>e (x', cx'). e = LruEviction \<and> cx_evolves D F pins cx cx')"
    proof (cases "live_cells rest")
      case Nil
      then show ?thesis using s(1,8) x(12) str [of "[]"] tail by (simp add: range_cells_def)
    next
      case (Cons c cs)
      show ?thesis
      proof (cases rule: boundary_check_spec [OF x(10) Cons])
        case take: 1
        from x(12) take(2) Cons obtain t ts' where t: "row_of sc c = Ok t"
          "res_map (row_of sc) (range_cells op search rest1) = Ok ts'" "ts = t # ts'"
          unfolding tail by (auto simp: range_cells_def res_bind_eq_Ok)
        then show ?thesis using s(1,2,8) f take(1) Cons str [of ts'] by (simp add: row_of_def)
      next
        case skip: 2
        have same_range: "range_cells op search rest1 = range_cells op search rest"
          using skip(2) Cons s(4) by (simp add: range_cells_def)
        have "outcome (index_scan_next pins (x1, cx1))
          (\<lambda>r (x', cx'). r = first ts \<and> index_scan_stream D F sc op search R x' cx' (tl ts) \<and> cx_evolves D F pins cx1 cx')
          (\<lambda>e (x', cx'). e = LruEviction \<and> cx_evolves D F pins cx1 cx')"
          by (rule less.hyps [OF _ f s(7) start at1 x(9) sc1 x(11)]) (use x(12) same_range s(4) Cons in simp_all)
        then have "outcome (index_scan_next pins (x1, cx1))
          (\<lambda>r (x', cx'). r = first ts \<and> index_scan_stream D F sc op search R x' cx' (tl ts) \<and> cx_evolves D F pins cx cx')
          (\<lambda>e (x', cx'). e = LruEviction \<and> cx_evolves D F pins cx cx')"
          by (rule outcome_weaken) (use cx_evolves_trans [OF s(8)] in auto)
        then show ?thesis using s(1) f skip(1) Cons by simp
      next
        case stop: 3
        then have "range_cells op search rest = []" "range_cells op search rest1 = []"
          using Cons s(4) by (auto simp: range_cells_def)
        then show ?thesis using s(1,8) f stop(1) Cons x(12) str [of "[]"] by simp
      qed
    qed
  qed
qed

lemma index_scan_source:
  assumes F: "F \<subseteq> pins"
  shows "row_source (index_scan_next pins) index_scan_reset (index_scan_stream D F sc op search)
    (cx_evolves D F pins) (\<lambda>e. e = LruEviction)"
proof
  fix R x cx ts assume "index_scan_stream D F sc op search R x cx ts"
  then show "outcome (index_scan_next pins (x, cx))
    (\<lambda>r (x', cx'). r = first ts \<and> index_scan_stream D F sc op search R x' cx' (tl ts) \<and> cx_evolves D F pins cx cx')
    (\<lambda>e (x', cx'). e = LruEviction \<and> cx_evolves D F pins cx cx')"
    unfolding index_scan_stream_def [of _ _ _ _ _ _ x] using index_scan_next_stream [OF F] by blast
next
  fix R x cx ts assume "index_scan_stream D F sc op search R x cx ts"
  then obtain all where x: "ix_type x = Primary" "ix_rows x = []" "ix_schema x = sc" "ix_op x = op" "ix_key x = search"
     "pool_inv D F (cx_pool cx)"
     "start_cells (db D (cx_pool cx)) (it_root (ix_iterator x)) (it_start (ix_iterator x)) all"
     "scannable op search all" "res_map (row_of sc) (range_cells op search all) = Ok R"
    unfolding index_scan_stream_def by blast
  let ?x = "x\<lparr>ix_iterator := iter_reset (ix_iterator x), ix_rows := []\<rparr>"
  have "index_scan_stream D F sc op search R ?x cx R"
    by (rule index_scan_streamI [where all = all and rest = all]) (use x in \<open>simp_all add: iter_reset_def iter_at_def\<close>)
  then show "\<exists>c'. index_scan_reset x = ret () c' \<and> index_scan_stream D F sc op search R c' cx R"
    by (intro exI [of _ ?x]) (simp add: index_scan_reset_def modify_def ret_def)
next
  fix R x cx ts cx' assume a: "index_scan_stream D F sc op search R x cx ts" "cx_evolves D F pins cx cx'"
  then have inv: "pool_inv D F (cx_pool cx)" by (simp add: index_scan_stream_def)
  with a(2) have "pool_inv D F (cx_pool cx')" by (simp add: cx_evolves_def)
  with a(1) show "index_scan_stream D F sc op search R x cx' ts"
    unfolding index_scan_stream_def cx_evolves_db [OF a(2) inv] by blast
qed (use cx_evolves_refl cx_evolves_trans in blast)+

interpretation index_scan: row_source "index_scan_next {}" index_scan_reset "index_scan_stream D {} sc op search"
    "cx_evolves D {} {}" "\<lambda>e. e = LruEviction" for D sc op search
  by (rule index_scan_source) simp

end
