(* ===== verification/Modify.thy ===== *)
theory Modify
  imports Scan
begin

text \<open>
  The operators that change the database: insert.rs, update.rs, delete.rs, create.rs and
  drop.rs of src/src/execution, and the two that list the catalog, show_tables.rs and
  show_indexes.rs.

  A secondary index is a tree from index keys to the row ids of the rows with that key, eight
  bytes each. \<open>hash\<close> is the hash function of strings, \<open>keys\<close> the order in which a hash map
  is iterated.
\<close>

section \<open>Row ids in an index\<close>

definition ids_bytes :: "u64 list \<Rightarrow> u8 list" where
  "ids_bytes ids = concat (map u64_to_le ids)"

definition add_row_id ::
    "page_id set \<Rightarrow> page_id \<Rightarrow> bool \<Rightarrow> string \<Rightarrow> u8 list res \<Rightarrow> u64 \<Rightarrow> u64 \<Rightarrow> u64 \<Rightarrow> (pool, unit) call" where
  "add_row_id pins root unique msg missing k row txn =
     seq (attempt (bt_insert pins root k (u64_to_le row) txn)) (\<lambda>r. case r of
       Err (DuplicateKey _) \<Rightarrow>
         if unique then fail (ConstraintViolation msg)
         else seq (find_record pins root k) (\<lambda>found.
              seq (lift (case found of Some data \<Rightarrow> Ok data | None \<Rightarrow> missing)) (\<lambda>data.
              bt_update pins root k (data @ u64_to_le row) txn))
     | Err e \<Rightarrow> fail e
     | Ok _ \<Rightarrow> ret ()
     | Panic \<Rightarrow> panic)"

definition remove_row_id :: "page_id set \<Rightarrow> page_id \<Rightarrow> u64 \<Rightarrow> u64 \<Rightarrow> u64 \<Rightarrow> (pool, unit) call" where
  "remove_row_id pins root k row txn =
     seq (find_record pins root k) (\<lambda>found. case found of
       None \<Rightarrow> ret ()
     | Some data \<Rightarrow>
         let rest = ids_bytes (filter (\<lambda>i. i \<noteq> row) (row_ids data)) in
         if rest = [] then bt_delete_record pins root k txn
         else if length rest \<noteq> length data then bt_update pins root k rest txn
         else ret ())"

section \<open>Calls on the context\<close>

definition on_catalog :: "(catalog, 'a) call \<Rightarrow> ('x \<times> exec_context, 'a) call" where
  "on_catalog m = on_snd (focus cx_catalog (\<lambda>c. cx_catalog_update (\<lambda>_. c)) m)"

definition on_store :: "(catalog \<times> pool, 'a) call \<Rightarrow> ('x \<times> exec_context, 'a) call" where
  "on_store m = on_snd (focus (\<lambda>cx. (cx_catalog cx, cx_pool cx)) (\<lambda>(c, s) cx. cx\<lparr>cx_catalog := c, cx_pool := s\<rparr>) m)"

definition set_block :: "u8 list \<Rightarrow> ('x \<times> exec_context, unit) call" where
  "set_block b = modify (apsnd (cx_block_update (\<lambda>_. b)))"

text \<open>The primary tree of a table and the encoded row, through the block buffer.\<close>

definition row_payload :: "string \<Rightarrow> schema \<Rightarrow> tuple \<Rightarrow> ('x \<times> exec_context, page_id \<times> u8 list) call" where
  "row_payload table sc t =
     seq (on_catalog (gets (get_table_root table))) (\<lambda>r.
     seq (lift r) (\<lambda>root.
     seq (set_block []) (\<lambda>_.
     seq (lift (tuple_encode sc t)) (\<lambda>data.
     seq (set_block data) (\<lambda>_.
     ret (root, data))))))"

text \<open>The indexes of a table, in the order of the hash map.\<close>

definition index_list :: "(string set \<Rightarrow> string list) \<Rightarrow> string \<Rightarrow> catalog \<Rightarrow> index_meta list" where
  "index_list keys table c = (case table_indexes table c of
     None \<Rightarrow> [] | Some m \<Rightarrow> map (\<lambda>k. the (m k)) (keys (dom m)))"

definition index_value :: "schema \<Rightarrow> index_meta \<Rightarrow> tuple \<Rightarrow> val res" where
  "index_value sc m t = res_bind (get_col_idx (im_column m) sc) (vec_get (tp_values t))"

section \<open>Insert\<close>

record 'c insert_exec =
  ins_child :: 'c
  ins_table :: string
  ins_schema :: schema

definition insert_new :: "'c \<Rightarrow> string \<Rightarrow> schema \<Rightarrow> 'c insert_exec" where
  "insert_new c table sc = \<lparr>ins_child = c, ins_table = table, ins_schema = sc\<rparr>"

definition generated_key :: "data_type \<Rightarrow> u64 \<Rightarrow> val res" where
  "generated_key ty row = (case ty of TBigInt \<Rightarrow> Ok (VBigInt row) | TInt \<Rightarrow> Ok (VInt (ucast row)) | _ \<Rightarrow> Panic)"

text \<open>The primary key of a row: generated when it is null, and otherwise a new low bound of
  the generated ones.\<close>

definition primary_key :: "string \<Rightarrow> schema \<Rightarrow> tuple \<Rightarrow> ('x \<times> exec_context, tuple \<times> u64 option) call" where
  "primary_key table sc t = (case sc_pk_idx sc of
     None \<Rightarrow> ret (t, None)
   | Some i \<Rightarrow>
       seq (lift (vec_get (tp_values t) i)) (\<lambda>v. case v of
         VNull \<Rightarrow>
           seq (on_catalog (generate_next_row_id table)) (\<lambda>row.
           seq (lift (res_bind (vec_get (sc_columns sc) i) (\<lambda>c. generated_key (col_type c) row))) (\<lambda>v.
           ret (t\<lparr>tp_values := (tp_values t)[i := v]\<rparr>, Some row)))
       | VInt n \<Rightarrow> seq (on_catalog (update_high_watermark table (scast n))) (\<lambda>_. ret (t, Some (scast n)))
       | VBigInt n \<Rightarrow> seq (on_catalog (update_high_watermark table n)) (\<lambda>_. ret (t, Some n))
       | _ \<Rightarrow> fail (SyntaxErr ''PRIMARY KEY must be INT or BIGINT'')))"

definition insert_index ::
    "page_id set \<Rightarrow> (string \<Rightarrow> u64) \<Rightarrow> schema \<Rightarrow> tuple \<Rightarrow> u64 \<Rightarrow> index_meta \<Rightarrow> ('x \<times> exec_context, unit) call" where
  "insert_index pins hash sc t row m x =
     seq (lift (index_value sc m t)) (\<lambda>v.
     on_pool (add_row_id pins (im_root m) (im_unique m) ''duplicate key value violates unique constraint on secondary_index''
       (Err (CorruptPage ''duplicate key hit but payload missing'')) (to_index_key hash v) row (cx_txn (snd x)))) x"

definition insert_row_next ::
    "page_id set \<Rightarrow> (string \<Rightarrow> u64) \<Rightarrow> (string set \<Rightarrow> string list) \<Rightarrow> string \<Rightarrow> schema \<Rightarrow> tuple \<Rightarrow>
      ('x \<times> exec_context, tuple) call" where
  "insert_row_next pins hash keys table sc t =
     seq (primary_key table sc t) (\<lambda>(t, explicit).
     seq (case explicit of Some row \<Rightarrow> ret row | None \<Rightarrow> on_catalog (generate_next_row_id table)) (\<lambda>row.
     seq (row_payload table sc t) (\<lambda>(root, data).
     seq (gets (\<lambda>x. cx_txn (snd x))) (\<lambda>txn.
     seq (on_pool (bt_insert pins root row data txn)) (\<lambda>_.
     seq (on_catalog (gets (index_list keys table))) (\<lambda>ms.
     seq (for_each (insert_index pins hash sc t row) ms) (\<lambda>_.
     ret t)))))))"

definition insert_next ::
    "page_id set \<Rightarrow> (string \<Rightarrow> u64) \<Rightarrow> (string set \<Rightarrow> string list) \<Rightarrow>
      ('c, exec_context) row_call \<Rightarrow> ('c insert_exec, exec_context) row_call" where
  "insert_next pins hash keys nxt x =
     seq (child_next ins_child (\<lambda>c. ins_child_update (\<lambda>_. c)) nxt) (\<lambda>r x. case r of
       None \<Rightarrow> ret None x
     | Some t \<Rightarrow> seq (insert_row_next pins hash keys (ins_table (fst x)) (ins_schema (fst x)) t) (\<lambda>t. ret (Some t)) x) x"

definition insert_reset :: "'c reset \<Rightarrow> 'c insert_exec reset" where
  "insert_reset rst = focus ins_child (\<lambda>c. ins_child_update (\<lambda>_. c)) rst"

section \<open>Update\<close>

type_synonym exec_assignment = "nat \<times> bound_expr"

record 'c update_exec =
  up_child :: 'c
  up_table :: string
  up_schema :: schema
  up_assigns :: "exec_assignment list"

definition update_new :: "'c \<Rightarrow> string \<Rightarrow> schema \<Rightarrow> exec_assignment list \<Rightarrow> 'c update_exec" where
  "update_new c table sc as = \<lparr>up_child = c, up_table = table, up_schema = sc, up_assigns = as\<rparr>"

text \<open>The assignments see the old row.\<close>

definition assign_cell :: "tuple \<Rightarrow> exec_assignment \<Rightarrow> tuple \<Rightarrow> tuple res" where
  "assign_cell old a t = res_bind (evaluate (snd a) (tp_values old)) (\<lambda>v.
     if fst a < length (tp_values t) then Ok (t\<lparr>tp_values := (tp_values t)[fst a := v]\<rparr>) else Panic)"

definition assigned :: "exec_assignment list \<Rightarrow> tuple \<Rightarrow> tuple res" where
  "assigned as old = res_fold (assign_cell old) as old"

definition update_index ::
    "page_id set \<Rightarrow> (string \<Rightarrow> u64) \<Rightarrow> schema \<Rightarrow> tuple \<Rightarrow> tuple \<Rightarrow> u64 \<Rightarrow> index_meta \<Rightarrow> ('x \<times> exec_context, unit) call" where
  "update_index pins hash sc old new row m x =
     seq (lift (res_bind (index_value sc m old) (\<lambda>a. res_bind (index_value sc m new) (\<lambda>b. Ok (a, b))))) (\<lambda>(a, b).
       if a = b then ret ()
       else
         seq (on_pool (remove_row_id pins (im_root m) (to_index_key hash a) row (cx_txn (snd x)))) (\<lambda>_.
         on_pool (add_row_id pins (im_root m) (im_unique m) ''update violates unique constraint'' Panic
           (to_index_key hash b) row (cx_txn (snd x))))) x"

definition row_id_of :: "string \<Rightarrow> tuple \<Rightarrow> u64 res" where
  "row_id_of msg t = (case tp_row_id t of Some row \<Rightarrow> Ok row | None \<Rightarrow> Err (CorruptPage msg))"

definition update_row_next ::
    "page_id set \<Rightarrow> (string \<Rightarrow> u64) \<Rightarrow> (string set \<Rightarrow> string list) \<Rightarrow> string \<Rightarrow> schema \<Rightarrow> exec_assignment list \<Rightarrow> tuple \<Rightarrow>
      ('x \<times> exec_context, tuple) call" where
  "update_row_next pins hash keys table sc as old =
     seq (lift (row_id_of ''Tuple passed to UpdateExecutor is missing row id'' old)) (\<lambda>row.
     seq (lift (assigned as old)) (\<lambda>new.
     seq (row_payload table sc new) (\<lambda>(root, data).
     seq (gets (\<lambda>x. cx_txn (snd x))) (\<lambda>txn.
     seq (on_pool (bt_update pins root row data txn)) (\<lambda>_.
     seq (on_catalog (gets (index_list keys table))) (\<lambda>ms.
     seq (for_each (update_index pins hash sc old new row) ms) (\<lambda>_.
     ret new)))))))"

definition update_next ::
    "page_id set \<Rightarrow> (string \<Rightarrow> u64) \<Rightarrow> (string set \<Rightarrow> string list) \<Rightarrow>
      ('c, exec_context) row_call \<Rightarrow> ('c update_exec, exec_context) row_call" where
  "update_next pins hash keys nxt x =
     seq (child_next up_child (\<lambda>c. up_child_update (\<lambda>_. c)) nxt) (\<lambda>r x. case r of
       None \<Rightarrow> ret None x
     | Some t \<Rightarrow> seq (update_row_next pins hash keys (up_table (fst x)) (up_schema (fst x)) (up_assigns (fst x)) t)
         (\<lambda>t. ret (Some t)) x) x"

definition update_reset :: "'c reset \<Rightarrow> 'c update_exec reset" where
  "update_reset rst = focus up_child (\<lambda>c. up_child_update (\<lambda>_. c)) rst"

section \<open>Delete\<close>

record 'c delete_exec =
  del_child :: 'c
  del_table :: string
  del_schema :: schema

definition delete_new :: "'c \<Rightarrow> string \<Rightarrow> schema \<Rightarrow> 'c delete_exec" where
  "delete_new c table sc = \<lparr>del_child = c, del_table = table, del_schema = sc\<rparr>"

definition delete_index ::
    "page_id set \<Rightarrow> (string \<Rightarrow> u64) \<Rightarrow> schema \<Rightarrow> tuple \<Rightarrow> u64 \<Rightarrow> index_meta \<Rightarrow> ('x \<times> exec_context, unit) call" where
  "delete_index pins hash sc t row m x =
     seq (lift (index_value sc m t)) (\<lambda>v.
     on_pool (remove_row_id pins (im_root m) (to_index_key hash v) row (cx_txn (snd x)))) x"

definition delete_row_next ::
    "page_id set \<Rightarrow> (string \<Rightarrow> u64) \<Rightarrow> (string set \<Rightarrow> string list) \<Rightarrow> string \<Rightarrow> schema \<Rightarrow> tuple \<Rightarrow>
      ('x \<times> exec_context, tuple) call" where
  "delete_row_next pins hash keys table sc t =
     seq (lift (row_id_of ''Tuple passed to DeleteExecutor is missing row_id'' t)) (\<lambda>row.
     seq (on_catalog (gets (get_table_root table))) (\<lambda>r.
     seq (lift r) (\<lambda>root.
     seq (gets (\<lambda>x. cx_txn (snd x))) (\<lambda>txn.
     seq (on_pool (bt_delete_record pins root row txn)) (\<lambda>_.
     seq (on_catalog (gets (index_list keys table))) (\<lambda>ms.
     seq (for_each (delete_index pins hash sc t row) ms) (\<lambda>_.
     ret t)))))))"

definition delete_next ::
    "page_id set \<Rightarrow> (string \<Rightarrow> u64) \<Rightarrow> (string set \<Rightarrow> string list) \<Rightarrow>
      ('c, exec_context) row_call \<Rightarrow> ('c delete_exec, exec_context) row_call" where
  "delete_next pins hash keys nxt x =
     seq (child_next del_child (\<lambda>c. del_child_update (\<lambda>_. c)) nxt) (\<lambda>r x. case r of
       None \<Rightarrow> ret None x
     | Some t \<Rightarrow> seq (delete_row_next pins hash keys (del_table (fst x)) (del_schema (fst x)) t) (\<lambda>t. ret (Some t)) x) x"

definition delete_reset :: "'c reset \<Rightarrow> 'c delete_exec reset" where
  "delete_reset rst = focus del_child (\<lambda>c. del_child_update (\<lambda>_. c)) rst"

section \<open>Tables and indexes\<close>

datatype create_operation =
    CreateTableOp string schema
  | CreateIndexOp string string bool string

record create_exec =
  cr_operation :: create_operation
  cr_has_executed :: bool

definition create_new :: "create_operation \<Rightarrow> create_exec" where
  "create_new c = \<lparr>cr_operation = c, cr_has_executed = False\<rparr>"

definition create_next ::
    "page_id set \<Rightarrow> (string set \<Rightarrow> string list) \<Rightarrow> (create_exec, exec_context) row_call" where
  "create_next pins keys x =
     (if cr_has_executed (fst x) then ret None x
      else seq (case cr_operation (fst x) of
          CreateTableOp table sc \<Rightarrow> on_store (create_table pins table sc (cx_txn (snd x)))
        | CreateIndexOp table index unique col \<Rightarrow>
            on_store (create_index pins keys index table unique col (cx_txn (snd x)))) (\<lambda>_.
      seq (modify (apfst (cr_has_executed_update (\<lambda>_. True)))) (\<lambda>_.
      ret None)) x)"

definition create_reset :: "create_exec reset" where
  "create_reset = modify (cr_has_executed_update (\<lambda>_. False))"

record drop_exec =
  dr_table :: string
  dr_has_executed :: bool

definition drop_new :: "string \<Rightarrow> drop_exec" where
  "drop_new table = \<lparr>dr_table = table, dr_has_executed = False\<rparr>"

definition drop_next :: "page_id set \<Rightarrow> (drop_exec, exec_context) row_call" where
  "drop_next pins x =
     (if dr_has_executed (fst x) then ret None x
      else seq (on_store (drop_table pins (dr_table (fst x)) (cx_txn (snd x)))) (\<lambda>_.
      seq (modify (apfst (dr_has_executed_update (\<lambda>_. False)))) (\<lambda>_.
      ret None)) x)"

definition drop_reset :: "drop_exec reset" where
  "drop_reset = modify (dr_has_executed_update (\<lambda>_. False))"

text \<open>The rows that \<open>SHOW TABLES\<close> and \<open>SHOW INDEXES\<close> list; the operator keeps them after the
  first call.\<close>

type_synonym show_exec = "tuple list option"

definition show_new :: show_exec where "show_new = None"

definition table_names :: "(string set \<Rightarrow> string list) \<Rightarrow> catalog \<Rightarrow> tuple list" where
  "table_names keys c = map (\<lambda>t. tuple_new [VVarchar t]) (keys (dom (ct_schemas c)))"

definition index_names :: "(string set \<Rightarrow> string list) \<Rightarrow> catalog \<Rightarrow> tuple list" where
  "index_names keys c = concat (map (\<lambda>t. let m = the (ct_indexes c t) in
     map (\<lambda>i. tuple_new [VVarchar t, VVarchar i, VVarchar (im_column (the (m i))), VBoolean (im_unique (the (m i)))])
       (keys (dom m))) (keys (dom (ct_indexes c))))"

definition listed :: "tuple list \<Rightarrow> (show_exec \<times> exec_context, tuple option) call" where
  "listed ts x = ret (first ts) (apfst (\<lambda>_. Some (tl ts)) x)"

definition show_tables_next :: "(string set \<Rightarrow> string list) \<Rightarrow> (show_exec, exec_context) row_call" where
  "show_tables_next keys x = (case fst x of
     Some ts \<Rightarrow> listed ts x | None \<Rightarrow> listed (table_names keys (cx_catalog (snd x))) x)"

definition show_indexes_next :: "(string set \<Rightarrow> string list) \<Rightarrow> (show_exec, exec_context) row_call" where
  "show_indexes_next keys x = (case fst x of
     Some ts \<Rightarrow> listed ts x | None \<Rightarrow> listed (index_names keys (cx_catalog (snd x))) x)"

definition show_reset :: "show_exec reset" where "show_reset = modify (\<lambda>_. None)"

section \<open>The row ids of an index entry\<close>

lemma u64_to_le_8: "length (u64_to_le w) = 8"
  by (simp add: u64_to_le_def)

lemma row_ids_step: "length bs = 8 \<Longrightarrow> row_ids (bs @ rest) = u64_of_le bs # row_ids rest"
  by (auto simp: length_Suc_conv numeral_eq_Suc)

lemma row_ids_bytes [simp]: "row_ids (ids_bytes ids) = ids"
  by (induction ids) (simp_all add: ids_bytes_def row_ids_step u64_to_le_8)

lemma length_ids_bytes [simp]: "length (ids_bytes ids) = 8 * length ids"
  by (induction ids) (simp_all add: ids_bytes_def u64_to_le_8)

lemma ids_bytes_simps [simp]: "ids_bytes [] = []" "ids_bytes (i # ids) = u64_to_le i @ ids_bytes ids"
  "ids_bytes (as @ bs) = ids_bytes as @ ids_bytes bs"
  by (simp_all add: ids_bytes_def)

text \<open>What a removal leaves of an entry: the other ids, and no entry when there are none.\<close>

definition entry_without :: "u64 \<Rightarrow> u64 list \<Rightarrow> u8 list option" where
  "entry_without row ids = (let rest = filter (\<lambda>i. i \<noteq> row) ids in if rest = [] then None else Some (ids_bytes rest))"

lemma tree_upd_same: "db D s' = db D s \<Longrightarrow> tree_get (db D s) h root k = Some v \<Longrightarrow> tree_upd D h root k v s s'"
  by (simp add: tree_upd_def)

lemma tree_upd_from: "db D s1 = db D s \<Longrightarrow> tree_upd D h root k v s1 s' \<Longrightarrow> tree_upd D h root k v s s'"
  by (simp add: tree_upd_def)

lemma remove_row_id_tree:
  assumes g: "tree_get (db D s) h root k = Some (Some (ids_bytes ids))" and inv: "pool_inv D {} s" and tx: "txns_inv s"
    and small: "length (wal_file (bp_wal s)) < 2 ^ 64" and ids: "ids \<noteq> []" "8 * length ids \<le> MAX_VALUE_SIZE"
  shows "outcome (remove_row_id pins root k row t s)
    (\<lambda>_ s'. pool_inv D {} s' \<and> txns_inv s' \<and> tree_upd D h root k (entry_without row ids) s s')
    (\<lambda>e s'. pool_inv D {} s' \<and> db D s' = db D s \<and> e = LruEviction)"
  unfolding remove_row_id_def
proof (rule outcome_seqI, rule outcome_weaken, rule find_record_tree [OF g inv empty_subsetI])
  fix r s1 assume "r = Some (ids_bytes ids) \<and> pool_inv D {} s1 \<and> quiet D pins s s1"
  then have r: "r = Some (ids_bytes ids)" "pool_inv D {} s1" "quiet D pins s s1" by simp_all
  have same: "db D s1 = db D s" by (rule db_quiet [OF r(3)])
  have tx1: "txns_inv s1" by (rule txns_inv_quiet [OF tx r(3)])
  have small1: "length (wal_file (bp_wal s1)) < 2 ^ 64" using small r(3) by (simp add: quiet_def)
  have g1: "tree_get (db D s1) h root k = Some (Some (ids_bytes ids))" using g same by simp
  let ?rest = "filter (\<lambda>i. i \<noteq> row) ids"
  have "outcome (if ids_bytes ?rest = [] then bt_delete_record pins root k t s1
         else if length (ids_bytes ?rest) \<noteq> length (ids_bytes ids) then bt_update pins root k (ids_bytes ?rest) t s1
         else ret () s1)
    (\<lambda>_ s'. pool_inv D {} s' \<and> txns_inv s' \<and> tree_upd D h root k (entry_without row ids) s s')
    (\<lambda>e s'. pool_inv D {} s' \<and> db D s' = db D s \<and> e = LruEviction)"
  proof (cases "?rest = []")
    case True
    have "ids_bytes ?rest = []" using True by simp
    moreover have "entry_without row ids = None" using True by (simp add: entry_without_def)
    moreover have "outcome (bt_delete_record pins root k t s1)
      (\<lambda>_ s'. pool_inv D {} s' \<and> txns_inv s' \<and> tree_upd D h root k None s s')
      (\<lambda>e s'. pool_inv D {} s' \<and> db D s' = db D s \<and> e = LruEviction)"
      by (rule outcome_weaken, rule bt_delete_tree [OF g1 r(2) tx1 small1]) (auto simp: tree_upd_def same)
    ultimately show ?thesis by simp
  next
    case False
    then have ne: "ids_bytes ?rest \<noteq> []" by (metis length_0_conv length_ids_bytes mult_eq_0_iff zero_neq_numeral)
    have e: "entry_without row ids = Some (ids_bytes ?rest)" using False by (simp add: entry_without_def)
    show ?thesis
    proof (cases "length ?rest = length ids")
      case True
      have "i \<noteq> row" if "i \<in> set ids" for i
        using length_filter_less [OF that, of "\<lambda>i. i \<noteq> row"] True by auto
      then have "?rest = ids" by (simp add: filter_id_conv)
      then show ?thesis unfolding e using ne True g same r(2) tx1 by (simp add: tree_upd_same)
    next
      case less: False
      then have l: "length ?rest < length ids" using length_filter_le [of "\<lambda>i. i \<noteq> row" ids] by linarith
      have "outcome (bt_update pins root k (ids_bytes ?rest) t s1)
        (\<lambda>_ s'. pool_inv D {} s' \<and> txns_inv s' \<and> tree_upd D h root k (Some (ids_bytes ?rest)) s s')
        (\<lambda>e s'. pool_inv D {} s' \<and> db D s' = db D s \<and> e = LruEviction)"
        by (rule outcome_weaken, rule bt_update_tree [OF g1 r(2) tx1 small1]) (use l ids in \<open>auto simp: tree_upd_def same\<close>)
      then show ?thesis unfolding e using ne less by simp
    qed
  qed
  then show "outcome ((case r of None \<Rightarrow> ret ()
     | Some data \<Rightarrow>
         let rest = ids_bytes (filter (\<lambda>i. i \<noteq> row) (row_ids data)) in
         if rest = [] then bt_delete_record pins root k t
         else if length rest \<noteq> length data then bt_update pins root k rest t
         else ret ()) s1)
    (\<lambda>_ s'. pool_inv D {} s' \<and> txns_inv s' \<and> tree_upd D h root k (entry_without row ids) s s')
    (\<lambda>e s'. pool_inv D {} s' \<and> db D s' = db D s \<and> e = LruEviction)"
    unfolding r(1) option.case row_ids_bytes Let_def by (auto split: if_splits)
qed (use db_quiet in auto)

lemma outcome_on_catalog:
  "outcome (on_catalog m (x, cx)) Q E \<longleftrightarrow>
   outcome (m (cx_catalog cx)) (\<lambda>r c. Q r (x, cx\<lparr>cx_catalog := c\<rparr>)) (\<lambda>e c. E e (x, cx\<lparr>cx_catalog := c\<rparr>))"
  by (simp add: on_catalog_def outcome_focus)

lemma outcome_set_block: "outcome (set_block b (x, cx)) Q E \<longleftrightarrow> Q () (x, cx\<lparr>cx_block := b\<rparr>)"
  by (simp add: set_block_def)

lemma outcome_generate:
  "ct_row_ids c table = Some m \<Longrightarrow>
   outcome (generate_next_row_id table c) Q E = Q m (c\<lparr>ct_row_ids := (ct_row_ids c)(table \<mapsto> m + 1)\<rparr>)"
  by (simp add: generate_next_row_id_def)

lemma outcome_watermark:
  "ct_row_ids c table = Some m \<Longrightarrow>
   outcome (update_high_watermark table row c) Q E = Q () (c\<lparr>ct_row_ids := (ct_row_ids c)(table \<mapsto> max m (row + 1))\<rparr>)"
  by (simp add: update_high_watermark_def)

text \<open>The key a row with a BIGINT primary key in column \<open>i\<close> is stored under, the row as stored
  and the next counter, from the counter \<open>m\<close>.\<close>

definition keyed :: "nat \<Rightarrow> u64 \<Rightarrow> tuple \<Rightarrow> u64 \<times> tuple \<times> u64" where
  "keyed i m t = (case tp_values t ! i of
     VBigInt n \<Rightarrow> (n, t, max m (n + 1))
   | _ \<Rightarrow> (m, t\<lparr>tp_values := (tp_values t)[i := VBigInt m]\<rparr>, m + 1))"

lemma primary_key_keyed:
  assumes "sc_pk_idx sc = Some i" "i < length (tp_values t)" "i < length (sc_columns sc)"
    "col_type (sc_columns sc ! i) = TBigInt" "tp_values t ! i = VNull \<or> (\<exists>n. tp_values t ! i = VBigInt n)"
    "ct_row_ids (cx_catalog cx) table = Some m" "keyed i m t = (row, t', m')"
  shows "outcome (primary_key table sc t (x, cx)) (\<lambda>r (x', cx'). r = (t', Some row) \<and> x' = x \<and>
      cx' = cx\<lparr>cx_catalog := (cx_catalog cx)\<lparr>ct_row_ids := (ct_row_ids (cx_catalog cx))(table \<mapsto> m')\<rparr>\<rparr>) E"
  using assms by (auto simp: primary_key_def keyed_def outcome_seq outcome_on_catalog outcome_generate
      outcome_watermark generated_key_def)

lemma tuple_encode_no_panic: "tuple_encode sc t \<noteq> Panic"
proof -
  have v: "encode_value ty x \<noteq> Panic" for ty x by (cases "(ty, x)" rule: encode_value.cases) simp_all
  have "encode_values cs vs \<noteq> Panic" for cs vs
  proof (induction cs vs rule: encode_values.induct)
    case (1 c cs x vs)
    then show ?case using v [of "col_type c" x]
      by (cases "encode_value (col_type c) x"; cases "encode_values cs vs") auto
  qed simp_all
  then show ?thesis by (simp add: tuple_encode_def)
qed

text \<open>
  C10: INSERT of a row into a table with a BIGINT primary key and without secondary indexes,
  where the leaf of the key has room for the encoded row after compaction: the row goes into the
  tree under its own key or, when that is null, under the next generated one, and no other key
  changes. The counter becomes the successor of a generated key, and the greater of its value
  and the successor of a given key (both of 64 bits without sign: the successor of -1 is 0,
  which leaves the counter behind that key). The stored bytes decode to the row when its values
  fit the columns. The errors are a value that cannot be encoded, TupleTooLarge for more than
  MAX_VALUE_SIZE bytes, DuplicateKey for a live row with that key, and that all frames are
  pinned; they leave all pages as they were, but the counter moves.
\<close>

lemma insert_stores_row:
  assumes pk: "sc_pk_idx sc = Some i" "col_type (sc_columns sc ! i) = TBigInt"
    "tp_values t ! i = VNull \<or> (\<exists>n. tp_values t ! i = VBigInt n)"
    and key: "ct_row_ids (cx_catalog cx) table = Some m" "keyed i m t = (row, t', m')"
    and cat: "ct_roots (cx_catalog cx) table = Some root" "ct_indexes (cx_catalog cx) table = None"
    and i: "i < length (tp_values t)" "i < length (sc_columns sc)"
    and tree: "tree_get (db D (cx_pool cx)) h root row = Some v" "pool_inv D {} (cx_pool cx)" "txns_inv (cx_pool cx)"
    and small: "length (wal_file (bp_wal (cx_pool cx))) < 2 ^ 64"
    and fit: "\<And>data. tuple_encode sc t' = Ok data \<Longrightarrow> v = None \<Longrightarrow> length data \<le> MAX_VALUE_SIZE \<Longrightarrow>
      \<exists>q l. leaf_of (db D (cx_pool cx)) h root row = Some (q, l) \<and> fits_compacted l data"
  shows "outcome (insert_row_next pins hash keys table sc t (x, cx))
    (\<lambda>r (_, cx'). r = t' \<and> v = None \<and> ct_row_ids (cx_catalog cx') table = Some m' \<and>
       (\<exists>data. tuple_encode sc t' = Ok data \<and> length data \<le> MAX_VALUE_SIZE \<and>
          (list_all2 (\<lambda>c v. val_ok (col_type c) v) (sc_columns sc) (tp_values t') \<longrightarrow>
             tuple_decode sc data = Ok (tuple_new (tp_values t'))) \<and>
          tree_upd D h root row (Some data) (cx_pool cx) (cx_pool cx')))
    (\<lambda>e (_, cx'). db D (cx_pool cx') = db D (cx_pool cx) \<and> ct_row_ids (cx_catalog cx') table = Some m' \<and>
       (e = LruEviction \<or> tuple_encode sc t' = Err e \<or>
        (\<exists>data. tuple_encode sc t' = Ok data \<and> insert_refused row data v e)))"
    (is "outcome _ ?Q ?E")
proof -
  note pk_ok = primary_key_keyed [OF pk(1) i pk(2,3) key]
  show ?thesis
  proof (cases "tuple_encode sc t'")
    case (Ok data)
    have dec: "tuple_decode sc data = Ok (tuple_new (tp_values t'))"
      if ok: "list_all2 (\<lambda>c v. val_ok (col_type c) v) (sc_columns sc) (tp_values t')"
    proof -
      obtain bs where "encode_values (sc_columns sc) (tp_values t') = Ok bs"
        "\<forall>rest. decode_values (sc_columns sc) (bs @ rest) = Ok (tp_values t')"
        using values_roundtrip [OF ok] by blast
      with Ok list_all2_lengthD [OF ok] have "decode_values (sc_columns sc) data = Ok (tp_values t')"
        by (auto simp: tuple_encode_def dest: spec [of _ "[]"])
      then show ?thesis by (simp add: tuple_decode_def)
    qed
    have room: "v = None \<longrightarrow> length data \<le> MAX_VALUE_SIZE \<longrightarrow>
        (\<exists>q l. leaf_of (db D (cx_pool cx)) h root row = Some (q, l) \<and> fits_compacted l data)"
      using fit [OF Ok] by blast
    have stored: "outcome (bt_insert pins root row data (cx_txn cx) (cx_pool cx))
      (\<lambda>r s. v = None \<and> length data \<le> MAX_VALUE_SIZE \<and> tree_upd D h root row (Some data) (cx_pool cx) s)
      (\<lambda>e s. db D s = db D (cx_pool cx) \<and> (e = LruEviction \<or> insert_refused row data v e))"
      by (rule outcome_weaken [OF bt_insert_tree [OF tree small room]]) auto
    show ?thesis
      unfolding insert_row_next_def outcome_seq
      by (rule outcome_weaken_pair, rule pk_ok)
        (use Ok dec in \<open>auto simp: outcome_seq row_payload_def outcome_on_catalog outcome_set_block get_table_root_def
          cat index_list_def table_indexes_def outcome_on_pool intro!: outcome_weaken [OF stored]\<close>)
  next
    case (Err e)
    show ?thesis
      unfolding insert_row_next_def outcome_seq
      by (rule outcome_weaken_pair, rule pk_ok)
        (use Err in \<open>auto simp: outcome_seq row_payload_def outcome_on_catalog outcome_set_block get_table_root_def
          cat index_list_def table_indexes_def outcome_on_pool\<close>)
  qed (simp add: tuple_encode_no_panic)
qed

text \<open>
  C23: Removing a row from a secondary index rewrites the entry of the key to the other row ids,
  or deletes the entry when there are none, and changes no other key.
\<close>

lemma index_entry_removed:
  assumes g: "tree_get (db D s) h root k = Some (Some (ids_bytes ids))" and inv: "pool_inv D {} s" and tx: "txns_inv s"
    and small: "length (wal_file (bp_wal s)) < 2 ^ 64" and ids: "ids \<noteq> []" "8 * length ids \<le> MAX_VALUE_SIZE"
  shows "outcome (remove_row_id pins root k row t s)
    (\<lambda>_ s'. pool_inv D {} s' \<and> txns_inv s' \<and> tree_upd D h root k (entry_without row ids) s s')
    (\<lambda>e s'. pool_inv D {} s' \<and> db D s' = db D s \<and> e = LruEviction)"
  by (rule remove_row_id_tree [OF assms])

end
