(* ===== verification/Example.thy ===== *)
theory Example
  imports BpTree
begin

text \<open>
  A small database at which the theorems of the storage layer are applied: one allocated
  page, 8192, a leaf with the row 5, on disk and cached in a pool of two frames.
\<close>

definition ex_leaf :: leaf_node where
  "ex_leaf = (new_empty_leaf 8192)\<lparr>
     lf_records := [\<lparr>row_id = 5, cell_data = [1, 2, 3], is_deleted = False\<rparr>], lf_slots := [0],
     lf_free := 8100, lf_dirty := False\<rparr>"

text \<open>A database of one leaf.\<close>

definition leaf_image :: "leaf_node \<Rightarrow> u8 list" where
  "leaf_image l = (case encode (Leaf l) zero_page of Ok img \<Rightarrow> img | _ \<Rightarrow> [])"

definition leaf_disk :: "leaf_node \<Rightarrow> disk_manager" where
  "leaf_disk l = write_page 8192 (leaf_image l)
     \<lparr>dm_file = [], dm_header = default_header\<lparr>next_free_offset := 16384\<rparr>\<rparr>"

definition ex_lru :: lru where
  "ex_lru = (case record_access 8192 (lru_new 2) of Ok l \<Rightarrow> l | _ \<Rightarrow> lru_new 2)"

definition leaf_pool :: "leaf_node \<Rightarrow> pool" where
  "leaf_pool l = (pool_new (leaf_disk l) 2 (wal_open []))\<lparr>bp_table := [8192 \<mapsto> Leaf l], bp_replacer := ex_lru\<rparr>"

lemma leaf_image_decode:
  assumes "leaf_wf l"
  shows "length (leaf_image l) = PAGE_SIZE" "decode (leaf_image l) = Ok (reloaded (Leaf l))"
  using encode_roundtrip [of "Leaf l" zero_page] assms by (auto simp: leaf_image_def)

lemma leaf_on_disk: "leaf_wf l \<Longrightarrow> on_disk (leaf_disk l) 8192 (reloaded (Leaf l))"
  using read_write_page [OF leaf_image_decode(1)] leaf_image_decode(2) by (simp add: on_disk_def leaf_disk_def)

lemma leaf_content: "page_content (leaf_pool l) 8192 = Some (reloaded (Leaf l))"
  by (rule content_cached) (simp add: leaf_pool_def)

lemma ex_aligned: "aligned 8192"
  by (simp add: aligned_def page_sizes)

lemma ex_lru: "lru_rep ex_lru [8192]" "lru_capacity ex_lru = 2"
proof -
  have "lru_capacity (lru_new 2) = 2" by (simp add: lru_new_def)
  with lru.rep_access [OF lru_rep_new [of 2], of 8192] obtain r where
    "record_access 8192 (lru_new 2) = Ok r" "lru_rep r [8192]" "lru_capacity r = 2"
    by (auto simp: rl_access_def)
  then show "lru_rep ex_lru [8192]" "lru_capacity ex_lru = 2" by (simp_all add: ex_lru_def)
qed

lemma leaf_pool_inv:
  assumes "leaf_wf l"
  shows "pool_inv {8192} {} (leaf_pool l)"
proof -
  have "cache_inv (leaf_pool l)"
    using ex_lru by (auto simp: cache_inv_def leaf_pool_def pool_new_def intro!: exI [of _ "[8192]"])
  moreover have "page_inv {} (leaf_pool l) 8192"
    using leaf_on_disk assms by (simp add: page_inv_def leaf_pool_def pool_new_def)
  ultimately show ?thesis
    by (simp add: pool_inv_def pages_inv_def ex_aligned) (simp add: leaf_pool_def)
qed

definition ex_pool :: pool where "ex_pool = leaf_pool ex_leaf"

lemma ex_cells: "leaf_cells ex_leaf = [\<lparr>row_id = 5, cell_data = [1, 2, 3], is_deleted = False\<rparr>]"
  by (simp add: leaf_cells_def ex_leaf_def new_empty_leaf_def)

lemma ex_map: "leaf_map ex_leaf = [5 \<mapsto> [1, 2, 3]]"
  by (simp add: leaf_map_def ex_cells cells_map_def fun_eq_iff)

lemma ex_leaf_wf: "leaf_wf ex_leaf"
  by (simp add: leaf_wf_def ex_cells cells_size_def page_sizes)
    (simp add: ex_leaf_def new_empty_leaf_def)

lemma ex_pool_inv: "pool_inv {8192} {} ex_pool" "txns_inv ex_pool"
  using leaf_pool_inv [OF ex_leaf_wf] by (simp_all add: ex_pool_def txns_inv_def leaf_pool_def pool_new_def)

lemma ex_pool_idle: "bp_txns ex_pool t = None" "wal_file (bp_wal ex_pool) = []" "\<not> is_dirty_in ex_pool p"
  by (auto simp: ex_pool_def leaf_pool_def pool_new_def wal_open_def is_dirty_in_def ex_leaf_def new_empty_leaf_def)

lemma ex_content: "page_content ex_pool 8192 = Some (reloaded (Leaf ex_leaf))"
  by (rule content_cached) (simp add: ex_pool_def leaf_pool_def)

lemma ex_leaf_of: "leaf_of (db {8192} ex_pool) 0 8192 k = Some (8192, reloaded_leaf ex_leaf)"
  by (simp add: db_def ex_content)

lemma ex_get: "tree_get (db {8192} ex_pool) 0 8192 k = Some (leaf_map ex_leaf k)"
  unfolding tree_get_def ex_leaf_of by simp

lemma ex_order: "order_ok (\<lambda>S. sorted_list_of_set S)"
  by (simp add: order_ok_def)

section \<open>The page cache at work\<close>

lemma fetched_page_witness:
  "outcome (fetch_page {} 8192 ex_pool)
    (\<lambda>n s'. pool_inv {8192} {} s' \<and> quiet {8192} {} ex_pool s' \<and> bp_table s' 8192 = Some n) (\<lambda>_ _. False)"
  by (rule outcome_weaken [OF fetched_page_is_current [OF ex_pool_inv(1)]])
    (simp_all add: ex_pool_def leaf_pool_def)

lemma mutation_logged_witness:
  "outcome (begin_page_mutation {} 8192 1 ex_pool) (\<lambda>_. mutation_begun {8192} {} {} 8192 1 ex_pool) (\<lambda>_ _. False)"
  by (rule outcome_weaken [OF mutation_logged_once [OF ex_pool_inv(1) _ _ ex_pool_inv(2)]])
    ((simp add: ex_pool_idle | simp add: ex_pool_def leaf_pool_def)+)

definition ex_busy :: pool where
  "ex_busy = ex_pool\<lparr>bp_txns := [1 \<mapsto> \<lparr>undo_logged = Map.empty, dirty_pages = {8192}\<rparr>]\<rparr>"

lemma commit_logs_witness:
  "outcome (commit_transaction sorted_list_of_set 1 ex_busy) (\<lambda>_ s'. \<exists>img. length img = PAGE_SIZE \<and>
     wal_file (bp_wal s') = log_bytes [Redo 8192 1 img, Commit 1] \<and> bp_txns s' 1 = None) (\<lambda>_ _. False)"
proof -
  have i: "pool_inv {8192} {} ex_busy" using ex_pool_inv(1) by (simp add: ex_busy_def)
  have t: "bp_txns ex_busy 1 = Some \<lparr>undo_logged = Map.empty, dirty_pages = {8192}\<rparr>" by (simp add: ex_busy_def)
  have d: "dom (bp_table ex_busy) = {8192}" "wal_file (bp_wal ex_busy) = []"
    using ex_pool_idle(2) by (simp_all add: ex_busy_def) (simp add: ex_pool_def leaf_pool_def)
  from commit_logs_images [OF i t, of sorted_list_of_set] show ?thesis
    unfolding d by (auto elim!: outcome_weaken)
qed

section \<open>A transaction that rewrites the row\<close>

definition ex_leaf2 :: leaf_node where
  "ex_leaf2 = ex_leaf\<lparr>lf_records := [\<lparr>row_id = 5, cell_data = [9], is_deleted = False\<rparr>], lf_dirty := True\<rparr>"

definition ex_touched :: pool where
  "ex_touched = (case begin_page_mutation {} 8192 1 ex_pool of Some (_, s) \<Rightarrow> s | None \<Rightarrow> ex_pool)"

definition ex_written :: pool where
  "ex_written = ex_touched\<lparr>bp_table := (bp_table ex_touched)(8192 \<mapsto> Leaf ex_leaf2)\<rparr>"

lemma ex_leaf2_wf: "leaf_wf ex_leaf2"
proof -
  have "leaf_cells ex_leaf2 = [\<lparr>row_id = 5, cell_data = [9], is_deleted = False\<rparr>]"
    by (simp add: leaf_cells_def ex_leaf2_def ex_leaf_def new_empty_leaf_def)
  then show ?thesis
    by (simp add: leaf_wf_def cells_size_def page_sizes) (simp add: ex_leaf2_def ex_leaf_def new_empty_leaf_def)
qed

lemma ex_touched: "begin_page_mutation {} 8192 1 ex_pool = Some (Ok (), ex_touched)"
  "mutation_begun {8192} {} {} 8192 1 ex_pool ex_touched"
proof -
  have "outcome (begin_page_mutation {} 8192 1 ex_pool) (\<lambda>_. mutation_begun {8192} {} {} 8192 1 ex_pool) (\<lambda>_ _. False)"
    by (rule outcome_weaken [OF begin_page_mutation_spec [OF ex_pool_inv(1) _ _ ex_pool_inv(2)]])
      ((simp add: ex_pool_idle | simp add: ex_pool_def leaf_pool_def)+)
  then obtain u s where "begin_page_mutation {} 8192 1 ex_pool = ret u s"
    "mutation_begun {8192} {} {} 8192 1 ex_pool s" by (rule outcome_total)
  then show "begin_page_mutation {} 8192 1 ex_pool = Some (Ok (), ex_touched)"
    "mutation_begun {8192} {} {} 8192 1 ex_pool ex_touched"
    by (simp_all add: ex_touched_def ret_def)
qed

lemma ex_reach: "txn_reach 1 {8192} ex_pool {8192} ({} - {8192}) ex_written"
proof (rule txn_reach.store)
  show "txn_reach 1 {8192} ex_pool {8192} {} ex_touched"
    by (rule txn_reach.mutate [OF txn_reach.start _ _ _ ex_touched(1)]) (simp_all add: ex_pool_idle)
  show "8192 \<in> dom (bp_table ex_touched)" "8192 \<in> dirty_pages (txn_entry 1 ex_touched)"
    using ex_touched(2) by (simp_all add: mutation_begun_def)
  show "node_wf (Leaf ex_leaf2)" "node_is_dirty (Leaf ex_leaf2)"
    using ex_leaf2_wf by simp_all (simp add: ex_leaf2_def)
  show "write_frame 8192 (Leaf ex_leaf2) ex_touched = Some (Ok (), ex_written)"
    by (simp add: write_frame_def modify_def ex_written_def)
qed

lemma ex_written_txn: "\<exists>st. bp_txns ex_written 1 = Some st \<and> dirty_pages st = {8192}"
proof -
  have "1 \<in> dom (bp_txns ex_touched)" "dirty_pages (txn_entry 1 ex_touched) = {8192}"
    using ex_touched(2) ex_pool_idle(1) by (simp_all add: mutation_begun_def txn_entry_def)
  then show ?thesis by (auto simp: ex_written_def txn_entry_def)
qed


lemma recovery_of_committed_txn_witness:
  "\<exists>s' w d. commit_transaction sorted_list_of_set 1 ex_written = ret () s' \<and>
    recovery_init (wal_file (bp_wal s')) (bp_disk s') = Ok (w, d) \<and> on_disk d 8192 (reloaded (Leaf ex_leaf2))"
proof -
  obtain st where st: "bp_txns ex_written 1 = Some st" "dirty_pages st = {8192}" using ex_written_txn by blast
  have c: "dirty_pages st \<subseteq> dom (bp_table ex_written)" using st(2) by (simp add: ex_written_def)
  have "page_content ex_written 8192 = Some (reloaded (Leaf ex_leaf2))"
    by (rule content_cached) (simp add: ex_written_def)
  with recovery_of_committed_txn [OF ex_reach ex_pool_inv ex_pool_idle(1,2) _ st(1) c ex_order] ex_pool_idle(3)
  show ?thesis by fastforce
qed

lemma flush_all_witness:
  "\<exists>s'. flush_all_pages sorted_list_of_set ex_pool = ret () s' \<and> (\<forall>p. \<not> is_dirty_in s' p) \<and>
    page_content s' 8192 = Some (reloaded (Leaf ex_leaf)) \<and> disk_open (dm_file (bp_disk s')) = Ok (bp_disk s')"
  using flush_all_pages_spec [OF ex_pool_inv(1) ex_order] ex_content by (auto simp: quiet_def)

lemma stolen_page_witness:
  "\<exists>s s' w d. wal_file (bp_wal s) = log_bytes [Undo 8192 1 zero_page, Redo 8192 1 (leaf_image ex_leaf), Commit 1, Undo 8192 2 (leaf_image ex_leaf)] \<and>
    commit_transaction sorted_list_of_set 2 s = ret () s' \<and>
    recovery_init (wal_file (bp_wal s')) (bp_disk s') = Ok (w, d) \<and> read_page 8192 d = Ok (leaf_image ex_leaf)"
proof -
  let ?log = "log_bytes [Undo 8192 1 zero_page, Redo 8192 1 (leaf_image ex_leaf), Commit 1, Undo 8192 2 (leaf_image ex_leaf)]"
  let ?s = "(pool_new (leaf_disk ex_leaf) 2 (wal_open ?log))\<lparr>bp_txns := [2 \<mapsto> \<lparr>undo_logged = Map.empty, dirty_pages = {8192}\<rparr>]\<rparr>"
  have w: "wal_file (bp_wal ?s) = ?log" by (simp add: pool_new_def wal_open_def)
  have "\<exists>s' w d. commit_transaction sorted_list_of_set 2 ?s = ret () s' \<and>
    recovery_init (wal_file (bp_wal s')) (bp_disk s') = Ok (w, d) \<and> read_page 8192 d = Ok (leaf_image ex_leaf)"
    by (rule stolen_page_loses_commit [OF w length_zero_page leaf_image_decode(1) [OF ex_leaf_wf] ex_aligned,
        where st = "\<lparr>undo_logged = Map.empty, dirty_pages = {8192}\<rparr>"])
      (simp_all add: pool_new_def)
  with w show ?thesis by blast
qed

section \<open>Recovery\<close>

lemma recovery_restores_committed_witness:
  "\<exists>w d'. recovery_init (log_bytes (history_log (\<lambda>_. zero_page)
      [\<lparr>tr_id = 1, tr_pages = [8192], tr_redo = [(8192, (leaf_image ex_leaf))], tr_committed = True\<rparr>,
       \<lparr>tr_id = 2, tr_pages = [8192], tr_redo = [], tr_committed = False\<rparr>])) (leaf_disk ex_leaf) = Ok (w, d') \<and>
    read_page 8192 d' = Ok (leaf_image ex_leaf)"
  using recovery_restores_committed [of "[\<lparr>tr_id = 1, tr_pages = [8192], tr_redo = [(8192, (leaf_image ex_leaf))], tr_committed = True\<rparr>,
       \<lparr>tr_id = 2, tr_pages = [8192], tr_redo = [], tr_committed = False\<rparr>]" "\<lambda>_. zero_page" "{8192}" "leaf_disk ex_leaf"]
    ex_aligned leaf_image_decode(1) [OF ex_leaf_wf]
  by (auto simp: txn_ok_def distinct_ids_def history_state_def txn_effect_def)

lemma recovery_restart_witness:
  "\<exists>w d' w1 d1' page. recovery_init (log_bytes [Undo 8192 1 zero_page]) (leaf_disk ex_leaf) = Ok (w, d') \<and>
    recovery_init (log_bytes [Undo 8192 1 zero_page]) (write_page 8192 zero_page (leaf_disk ex_leaf)) = Ok (w1, d1') \<and>
    read_page 8192 d' = Ok page \<and> read_page 8192 d1' = Ok page"
  using recovery_restart [of "[Undo 8192 1 zero_page]" "write_page 8192 zero_page (leaf_disk ex_leaf)" 1 "leaf_disk ex_leaf" 8192 "leaf_image ex_leaf"]
    ex_aligned read_write_page [OF leaf_image_decode(1) [OF ex_leaf_wf]] by (simp add: leaf_disk_def)

section \<open>Nodes\<close>

lemma page_roundtrip_witness:
  "\<exists>img. encode (Leaf ex_leaf) zero_page = Ok img \<and> length img = PAGE_SIZE \<and> decode img = Ok (reloaded (Leaf ex_leaf))"
  by (rule page_roundtrip) (use ex_leaf_wf in simp_all)

lemma leaf_insertion_witness:
  "(\<exists>n'. insert_record 7 [4] ex_leaf = Ok n' \<and> leaf_wf n' \<and> leaf_map n' = [5 \<mapsto> [1, 2, 3], 7 \<mapsto> [4]]) \<and>
   insert_record 5 [4] ex_leaf = Err (DuplicateKey 5)"
  using leaf_insertion [OF ex_leaf_wf, of "[4]" 7] leaf_insertion [OF ex_leaf_wf, of "[4]" 5]
  by (auto simp: ex_map page_sizes insert_fits_def ex_cells cells_size_def)

definition ex_pair :: leaf_node where
  "ex_pair = (new_empty_leaf 8192)\<lparr>
     lf_records := [\<lparr>row_id = 5, cell_data = [1], is_deleted = False\<rparr>, \<lparr>row_id = 9, cell_data = [2], is_deleted = False\<rparr>],
     lf_slots := [0, 1], lf_free := 8000\<rparr>"

lemma leaf_split_witness:
  "\<exists>l r. leaf_split ex_pair (new_empty_leaf 16384) = Ok (Ok 9, l, r) \<and> leaf_wf l \<and> leaf_wf r \<and>
    leaf_map l = [5 \<mapsto> [1]] \<and> leaf_map r = [9 \<mapsto> [2]]"
proof -
  have c: "leaf_cells ex_pair = [\<lparr>row_id = 5, cell_data = [1], is_deleted = False\<rparr>, \<lparr>row_id = 9, cell_data = [2], is_deleted = False\<rparr>]"
    by (simp add: leaf_cells_def ex_pair_def new_empty_leaf_def)
  have wf: "leaf_wf ex_pair"
    by (simp add: leaf_wf_def c cells_size_def page_sizes) (simp add: ex_pair_def new_empty_leaf_def)
  have sib: "lf_slots (new_empty_leaf 16384) = []" "lf_records (new_empty_leaf 16384) = []"
    by (simp_all add: new_empty_leaf_def)
  have m: "1 = length (lf_slots ex_pair) div 2" by (simp add: ex_pair_def)
  from leaf_split_cells [OF wf sib m] obtain l r where s: "leaf_split ex_pair (new_empty_leaf 16384) = Ok (Ok 9, l, r)"
    by (auto simp: c)
  have "leaf_map ex_pair = [5 \<mapsto> [1], 9 \<mapsto> [2]]" by (auto simp: leaf_map_def c cells_map_def fun_eq_iff)
  with leaf_split_map [OF wf sib s] s show ?thesis by (auto simp: fun_eq_iff)
qed

definition ex_inner :: internal_node where
  "ex_inner = \<lparr>in_page_id = 8192, in_rightmost = 40960, in_slots = [0, 1],
     in_entries = [\<lparr>ie_key = 10, ie_child = 16384\<rparr>, \<lparr>ie_key = 20, ie_child = 24576\<rparr>], in_free = 8000,
     in_dirty = False, in_wal_offset = 0\<rparr>"

lemma internal_split_witness:
  "\<exists>l r. internal_split ex_inner (new_empty_internal 49152) = Ok (20, l, r) \<and>
    route_key 5 ex_inner = route_key 5 l \<and> route_key 25 ex_inner = route_key 25 r"
proof -
  have l: "in_list ex_inner = [\<lparr>ie_key = 10, ie_child = 16384\<rparr>, \<lparr>ie_key = 20, ie_child = 24576\<rparr>]"
    by (simp add: in_list_def ex_inner_def)
  have wf: "internal_wf ex_inner"
    by (simp add: internal_wf_def l page_sizes) (simp add: ex_inner_def)
  have ne: "in_slots ex_inner \<noteq> []" by (simp add: ex_inner_def)
  have sib: "in_slots (new_empty_internal 49152) = []" "in_entries (new_empty_internal 49152) = []"
    by (simp_all add: new_empty_internal_def)
  have m: "1 = length (in_slots ex_inner) div 2" by (simp add: ex_inner_def)
  from internal_split_list [OF wf ne sib m] obtain a b where s: "internal_split ex_inner (new_empty_internal 49152) = Ok (20, a, b)"
    by (auto simp: l)
  from internal_split_route [OF wf ne sib s, of 5] internal_split_route [OF wf ne sib s, of 25] s
  show ?thesis by (intro exI [of _ a] exI [of _ b]) simp
qed

section \<open>The tree\<close>

lemma find_record_witness:
  "outcome (find_record {} 8192 5 ex_pool) (\<lambda>r s'. r = Some [1, 2, 3]) (\<lambda>e s'. e = LruEviction)"
  by (rule outcome_weaken [OF find_record_spec [OF ex_get ex_pool_inv(1) empty_subsetI]]) (auto simp: ex_map)

lemma bt_insert_witness:
  "outcome (bt_insert {} 8192 7 [4] 1 ex_pool)
    (\<lambda>_ s'. tree_get (db {8192} s') 0 8192 7 = Some (Some [4]) \<and> tree_get (db {8192} s') 0 8192 5 = Some (Some [1, 2, 3]))
    (\<lambda>e s'. e = LruEviction)"
proof -
  have f: "fits_compacted (reloaded_leaf ex_leaf) [4]" by (simp add: fits_compacted_def ex_cells cells_size_def page_sizes)
  have g: "tree_get (db {8192} ex_pool) 0 8192 7 = Some None" by (simp only: ex_get ex_map) simp
  show ?thesis
    by (rule outcome_weaken [OF bt_insert_spec [OF g ex_pool_inv]])
      (use f ex_leaf_of ex_get in \<open>auto simp: ex_pool_idle page_sizes tree_upd_def ex_map simp del: leaf_of.simps\<close>)
qed

lemma bt_update_witness:
  "outcome (bt_update {} 8192 5 [8] 1 ex_pool)
    (\<lambda>_ s'. tree_get (db {8192} s') 0 8192 5 = Some (Some [8])) (\<lambda>e s'. e = LruEviction)"
proof -
  have g: "tree_get (db {8192} ex_pool) 0 8192 5 = Some (Some [1, 2, 3])" by (simp only: ex_get ex_map) simp
  show ?thesis
    by (rule outcome_weaken [OF bt_update_spec [OF g ex_pool_inv]])
      (auto simp: ex_pool_idle page_sizes tree_upd_def)
qed

lemma bt_delete_witness:
  "outcome (bt_delete_record {} 8192 5 1 ex_pool)
    (\<lambda>_ s'. tree_get (db {8192} s') 0 8192 5 = Some None) (\<lambda>e s'. e = LruEviction)"
proof -
  have g: "tree_get (db {8192} ex_pool) 0 8192 5 = Some (Some [1, 2, 3])" by (simp only: ex_get ex_map) simp
  show ?thesis
    by (rule outcome_weaken [OF bt_delete_spec [OF g ex_pool_inv]])
      (auto simp: ex_pool_idle tree_upd_def)
qed

end
