(* ===== verification/Tables.thy ===== *)
theory Tables
  imports Modify Example
begin

text \<open>
  C18: An index scan on the primary key, over cells in key order from the start key on, yields
  exactly the live rows whose keys satisfy the operator in the unsigned order of the tree.
\<close>

lemma primary_scan:
  assumes t: "start_cells (db D (cx_pool cx)) root start cs" and ok: "scannable op search cs"
    and rows: "res_map (row_of sc) (range_cells op search cs) = Ok ts"
    and inv: "pool_inv D F (cx_pool cx)" and F: "F \<subseteq> pins"
  shows "outcome (drain (index_scan_next pins) (index_scan_new (iter_new_at_key root start) Primary search op sc, cx))
    (\<lambda>us (_, cx'). us = ts \<and> cx_evolves D F pins cx cx') (\<lambda>e (_, cx'). e = LruEviction \<and> cx_evolves D F pins cx cx')"
proof -
  have "index_scan_stream D F sc op search ts (index_scan_new (iter_new_at_key root start) Primary search op sc) cx ts"
    by (rule index_scan_streamI [where all = cs and rest = cs])
      (use t ok rows inv in \<open>simp_all add: index_scan_new_def iter_new_at_key_def iter_at_def\<close>)
  note d = row_source.drain_stream [OF index_scan_source [OF F, of D sc op search], OF this]
  show ?thesis by (rule outcome_weaken, rule d) auto
qed

definition ex_table :: leaf_node where
  "ex_table = (new_empty_leaf 8192)\<lparr>
     lf_records := [\<lparr>row_id = 9, cell_data = [0, 0], is_deleted = False\<rparr>, \<lparr>row_id = 5, cell_data = [0, 1], is_deleted = False\<rparr>,
       \<lparr>row_id = 7, cell_data = [0, 1], is_deleted = True\<rparr>], lf_slots := [1, 2, 0],
     lf_free := 8000, lf_dirty := False\<rparr>"

definition ex_flags :: schema where
  "ex_flags = schema_new [\<lparr>col_table = Some ''t'', col_name = ''flag'', col_type = TBoolean, col_length = None, col_is_pk = False\<rparr>]"

definition ex_context :: exec_context where
  "ex_context = context_new (leaf_pool ex_table) catalog_new 1"

lemma ex_table_cells: "leaf_cells ex_table =
    [\<lparr>row_id = 5, cell_data = [0, 1], is_deleted = False\<rparr>, \<lparr>row_id = 7, cell_data = [0, 1], is_deleted = True\<rparr>,
     \<lparr>row_id = 9, cell_data = [0, 0], is_deleted = False\<rparr>]"
  by (simp add: leaf_cells_def ex_table_def new_empty_leaf_def)

lemma ex_table_wf: "leaf_wf ex_table"
  by (simp add: leaf_wf_def ex_table_cells cells_size_def page_sizes)
    (simp add: ex_table_def new_empty_leaf_def)

lemma ex_context_inv: "pool_inv {8192} {} (cx_pool ex_context)"
  using leaf_pool_inv [OF ex_table_wf] by (simp add: ex_context_def context_new_def)

lemma ex_table_db: "db {8192} (cx_pool ex_context) 8192 = Some (Leaf (reloaded_leaf ex_table))"
  by (simp add: db_def ex_context_def context_new_def leaf_content)

lemma ex_reloaded: "leaf_cells (reloaded_leaf ex_table) = leaf_cells ex_table" "\<not> lf_has_next (reloaded_leaf ex_table)"
  by (simp_all add: reloaded_leaf_def leaf_cells_def) (simp add: ex_table_def new_empty_leaf_def)

lemma ex_start:
  "start_cells (db {8192} (cx_pool ex_context)) 8192 None (leaf_cells ex_table)"
  "start_cells (db {8192} (cx_pool ex_context)) 8192 (Some 6) (tl (leaf_cells ex_table))"
proof -
  let ?l = "reloaded_leaf ex_table"
  have ch: "leaf_chain (db {8192} (cx_pool ex_context)) 8192 [?l]" by (simp add: ex_table_db ex_reloaded)
  show "start_cells (db {8192} (cx_pool ex_context)) 8192 None (leaf_cells ex_table)"
    unfolding start_cells_def
    by (intro exI [of _ 0] exI [of _ 8192] exI [of _ ?l] exI [of _ "[]"] conjI ch) (simp add: ex_table_db ex_reloaded)
  show "start_cells (db {8192} (cx_pool ex_context)) 8192 (Some 6) (tl (leaf_cells ex_table))"
    unfolding start_cells_def
    by (intro exI [of _ 0] exI [of _ 8192] exI [of _ ?l] exI [of _ "[]"] conjI ch)
      (simp add: ex_table_db ex_reloaded ex_table_cells)
qed

definition ex_flag_row :: "bool \<Rightarrow> u64 \<Rightarrow> tuple" where
  "ex_flag_row b k = \<lparr>tp_values = [VBoolean b], tp_row_id = Some k\<rparr>"

lemma ex_row_of: "row_of ex_flags \<lparr>row_id = k, cell_data = [0, b], is_deleted = d\<rparr> = Ok (ex_flag_row (b = 1) k)"
  by (simp add: row_of_def decode_row_def tuple_decode_def ex_flags_def schema_new_def decode_value_def
      tuple_new_def ex_flag_row_def)

lemma table_rows_witness:
  "outcome (drain (seq_scan_next {}) (seq_scan_new (iter_new 8192) ex_flags, ex_context))
    (\<lambda>us _. us = [ex_flag_row True 5, ex_flag_row False 9]) (\<lambda>e _. e = LruEviction)"
proof -
  have r: "rows_of ex_flags (leaf_cells ex_table) = Ok [ex_flag_row True 5, ex_flag_row False 9]"
    by (simp add: rows_of_def ex_table_cells ex_row_of)
  have i: "iter_new 8192 = iter_new_at_key 8192 None" by (simp add: iter_new_def iter_new_at_key_def)
  show ?thesis unfolding i
    by (rule outcome_weaken, rule table_rows [OF ex_start(1) r ex_context_inv empty_subsetI]) auto
qed

lemma primary_scan_witness:
  "outcome (drain (index_scan_next {}) (index_scan_new (iter_new_at_key 8192 (Some 6)) Primary 6 OpGt ex_flags, ex_context))
    (\<lambda>us _. us = [ex_flag_row False 9]) (\<lambda>e _. e = LruEviction)"
proof -
  have s: "scannable OpGt 6 (tl (leaf_cells ex_table))" by (simp add: scannable_def ex_table_cells)
  have r: "res_map (row_of ex_flags) (range_cells OpGt 6 (tl (leaf_cells ex_table))) = Ok [ex_flag_row False 9]"
    by (simp add: range_cells_def ex_table_cells ex_row_of)
  show ?thesis
    by (rule outcome_weaken, rule primary_scan [OF ex_start(2) s r ex_context_inv empty_subsetI]) auto
qed

section \<open>An insert and an index entry\<close>

definition ex_ids :: schema where
  "ex_ids = schema_new [\<lparr>col_table = Some ''t'', col_name = ''id'', col_type = TBigInt, col_length = None, col_is_pk = True\<rparr>]"

definition ex_insert_context :: exec_context where
  "ex_insert_context = context_new ex_pool
     (catalog_new\<lparr>ct_row_ids := [''t'' \<mapsto> 6], ct_roots := [''t'' \<mapsto> 8192], ct_schemas := [''t'' \<mapsto> ex_ids]\<rparr>) 1"

lemma insert_stores_row_witness:
  "outcome (insert_row_next {} (\<lambda>_. 0) sorted_list_of_set ''t'' ex_ids (tuple_new [VNull]) ((), ex_insert_context))
    (\<lambda>r (_, cx'). r = tuple_new [VBigInt 6] \<and> ct_row_ids (cx_catalog cx') ''t'' = Some 7 \<and>
       tree_get (db {8192} (cx_pool cx')) 0 8192 6 = Some (Some (0 # u64_to_le 6)) \<and>
       tree_get (db {8192} (cx_pool cx')) 0 8192 5 = Some (Some [1, 2, 3])) (\<lambda>e _. e = LruEviction)"
proof -
  have cx: "cx_pool ex_insert_context = ex_pool" "ct_row_ids (cx_catalog ex_insert_context) ''t'' = Some 6"
    "ct_roots (cx_catalog ex_insert_context) ''t'' = Some 8192" "ct_indexes (cx_catalog ex_insert_context) ''t'' = None"
    by (simp_all add: ex_insert_context_def context_new_def catalog_new_def)
  have sc: "sc_pk_idx ex_ids = Some 0" "sc_columns ex_ids = [\<lparr>col_table = Some ''t'', col_name = ''id'', col_type = TBigInt, col_length = None, col_is_pk = True\<rparr>]"
    by (simp_all add: ex_ids_def schema_new_def)
  have k: "keyed 0 6 (tuple_new [VNull]) = (6, tuple_new [VBigInt 6], 7)" by (simp add: keyed_def tuple_new_def)
  have g: "tree_get (db {8192} ex_pool) 0 8192 6 = Some None" by (simp only: ex_get ex_map) simp
  have e: "tuple_encode ex_ids (tuple_new [VBigInt 6]) = Ok (0 # u64_to_le 6)"
    by (simp add: tuple_encode_def sc tuple_new_def)
  have fit: "length data \<le> MAX_VALUE_SIZE \<and> (\<exists>q l. leaf_of (db {8192} ex_pool) 0 8192 6 = Some (q, l) \<and> fits_compacted l data)"
    if "tuple_encode ex_ids (tuple_new [VBigInt 6]) = Ok data" for data
    using that unfolding e ex_leaf_of
    by (auto simp: page_sizes fits_compacted_def ex_cells cells_size_def u64_to_le_8)
  have t: "txns_inv (cx_pool ex_insert_context)" "length (wal_file (bp_wal (cx_pool ex_insert_context))) < 2 ^ 64"
    "pool_inv {8192} {} (cx_pool ex_insert_context)"
    using ex_pool_inv by (simp_all add: cx ex_pool_idle)
  show ?thesis
    by (rule outcome_weaken, rule insert_stores_row [where i = 0 and m = 6 and row = 6 and t' = "tuple_new [VBigInt 6]" and m' = 7
        and root = 8192 and D = "{8192}" and h = 0 and v = None])
      (use k g e fit t in \<open>auto simp: insert_refused_def cx sc tuple_new_def tree_upd_def ex_get ex_map page_sizes u64_to_le_8\<close>)
qed

definition ex_index :: leaf_node where
  "ex_index = (new_empty_leaf 8192)\<lparr>
     lf_records := [\<lparr>row_id = 7, cell_data = ids_bytes [3, 4], is_deleted = False\<rparr>], lf_slots := [0],
     lf_free := 8000, lf_dirty := False\<rparr>"

lemma index_entry_removed_witness:
  "outcome (remove_row_id {} 8192 7 3 1 (leaf_pool ex_index))
    (\<lambda>_ s'. tree_get (db {8192} s') 0 8192 7 = Some (Some (ids_bytes [4]))) (\<lambda>e _. e = LruEviction)"
proof -
  have c: "leaf_cells ex_index = [\<lparr>row_id = 7, cell_data = ids_bytes [3, 4], is_deleted = False\<rparr>]"
    by (simp add: leaf_cells_def ex_index_def new_empty_leaf_def)
  have wf: "leaf_wf ex_index"
    by (simp add: leaf_wf_def c cells_size_def page_sizes u64_to_le_8) (simp add: ex_index_def new_empty_leaf_def)
  have m: "leaf_map ex_index 7 = Some (ids_bytes [3, 4])" by (simp add: leaf_map_def c cells_map_def)
  have g: "tree_get (db {8192} (leaf_pool ex_index)) 0 8192 7 = Some (Some (ids_bytes [3, 4]))"
    using m by (simp add: tree_get_def db_def leaf_content)
  have t: "txns_inv (leaf_pool ex_index)" "length (wal_file (bp_wal (leaf_pool ex_index))) < 2 ^ 64"
    by (simp_all add: txns_inv_def leaf_pool_def pool_new_def wal_open_def)
  show ?thesis
    by (rule outcome_weaken, rule index_entry_removed [OF g leaf_pool_inv [OF wf] t])
      (simp_all add: page_sizes tree_upd_def entry_without_def)
qed

end
