(* ===== verification/Ast.thy ===== *)
theory Ast
  imports Evaluator Join
begin

text \<open>
  The syntax trees of src/src/sql/ast.rs, and \<open>AstLiteral\<close> of src/src/sql/parser.rs.
  \<open>QualifiedJoin\<close> is the constructor \<open>JoinTable\<close>, since it is only ever boxed there.
\<close>

datatype ast_literal = LString string | LInt i64 | LBoolean bool | LNull

record column_reference =
  cf_qualifier :: "string option"
  cf_name :: string

datatype expr =
    EColumn column_reference
  | ELiteral ast_literal
  | EBinaryOp expr binary_operator expr
  | EAverage column_reference
  | ECount "column_reference option"

record derived_column =
  dc_expr :: expr
  dc_alias :: "string option"

record sort_specification =
  ss_column :: column_reference
  ss_descending :: bool

datatype table_reference =
    BaseTable string "string option"
  | JoinTable table_reference table_reference join_type expr

record select_stmt =
  se_list :: "derived_column list"
  se_from :: "table_reference option"
  se_where :: "expr option"
  se_group_by :: "column_reference list"
  se_order_by :: "sort_specification list"
  se_limit :: "nat option"
  se_offset :: "nat option"

record insert_stmt =
  is_table :: string
  is_columns :: "string list"
  is_values :: "expr list list"

record assignment =
  as_column :: string
  as_value :: expr

record update_stmt =
  us_table :: string
  us_assignments :: "assignment list"
  us_where :: "expr option"

record delete_stmt =
  ds_table :: string
  ds_where :: "expr option"

record column_definition =
  cd_name :: string
  cd_type :: data_type
  cd_length :: "u32 option"
  cd_is_pk :: bool

record create_table_stmt =
  ct_table :: string
  ct_columns :: "column_definition list"

record create_index_stmt =
  ci_index :: string
  ci_table :: string
  ci_column :: string
  ci_unique :: bool

datatype statement =
    Select select_stmt
  | Insert insert_stmt
  | Update update_stmt
  | Delete delete_stmt
  | Commit
  | Begin
  | Rollback
  | CreateTable create_table_stmt
  | CreateIndex create_index_stmt
  | UseDatabase string
  | DropTable string
  | ShowTables
  | ShowIndexes

end
