(* ===== verification/Breakers.thy ===== *)
theory Breakers
  imports Executor Search "HOL-Library.AList" "HOL-Library.Signed_Division" "HOL-Library.Multiset"
begin

text \<open>
  The operators that read their whole input before they yield: src/src/execution/sort.rs and
  aggregate.rs. \<open>sort_by\<close> of the standard library is a stable sort, here by insertion. The
  hash map of groups is an association list; the order in which the map is walked is the
  parameter \<open>order\<close>. Counters and sums are 64-bit words that wrap.
\<close>

section \<open>Sorting\<close>

fun reverse :: "ordering \<Rightarrow> ordering" where
  "reverse Less = Greater" | "reverse Equal = Equal" | "reverse Greater = Less"

fun compare_rows :: "(nat \<times> bool) list \<Rightarrow> tuple \<Rightarrow> tuple \<Rightarrow> ordering res" where
  "compare_rows [] a b = Ok Equal"
| "compare_rows ((i, desc) # ks) a b =
     res_bind (vec_get (tp_values a) i) (\<lambda>x.
     res_bind (vec_get (tp_values b) i) (\<lambda>y.
       let c = (if desc then reverse (cmp_key x y) else cmp_key x y) in
       if c \<noteq> Equal then Ok c else compare_rows ks a b))"

fun insert_row :: "('a \<Rightarrow> 'a \<Rightarrow> ordering res) \<Rightarrow> 'a \<Rightarrow> 'a list \<Rightarrow> 'a list res" where
  "insert_row cmp t [] = Ok [t]"
| "insert_row cmp t (u # us) =
     res_bind (cmp t u) (\<lambda>c.
       if c = Greater then res_bind (insert_row cmp t us) (\<lambda>us'. Ok (u # us')) else Ok (t # u # us))"

fun sort_by :: "('a \<Rightarrow> 'a \<Rightarrow> ordering res) \<Rightarrow> 'a list \<Rightarrow> 'a list res" where
  "sort_by cmp [] = Ok []"
| "sort_by cmp (t # ts) = res_bind (sort_by cmp ts) (insert_row cmp t)"

record 'c sort_exec =
  so_child :: 'c
  so_keys :: "(nat \<times> bool) list"
  so_output :: "tuple list option"

definition sort_child :: "('c, 's) row_call \<Rightarrow> ('c sort_exec, 's) row_call" where
  "sort_child = child_next so_child (\<lambda>c. so_child_update (\<lambda>_. c))"

definition sort_next :: "('c, 's) row_call \<Rightarrow> ('c sort_exec, 's) row_call" where
  "sort_next nxt x = (case so_output (fst x) of
     Some rows \<Rightarrow> seq (modify (apfst (so_output_update (\<lambda>_. Some (tl rows))))) (\<lambda>_. ret (first rows)) x
   | None \<Rightarrow>
       seq (drain (sort_child nxt)) (\<lambda>tuples x.
       seq (lift (sort_by (compare_rows (so_keys (fst x))) tuples)) (\<lambda>rows.
       seq (modify (apfst (so_output_update (\<lambda>_. Some (tl rows))))) (\<lambda>_. ret (first rows))) x) x)"

definition sort_reset :: "'c reset \<Rightarrow> 'c sort_exec reset" where
  "sort_reset rst =
     seq (focus so_child (\<lambda>c. so_child_update (\<lambda>_. c)) rst) (\<lambda>_. modify (so_output_update (\<lambda>_. None)))"

text \<open>
  The order ORDER BY asks for: a row precedes another when they agree on the first \<open>j\<close> keys
  and the next key decides, upwards or downwards.
\<close>

definition precedes :: "(nat \<times> bool) list \<Rightarrow> tuple \<Rightarrow> tuple \<Rightarrow> bool" where
  "precedes ks a b \<longleftrightarrow> (\<exists>j < length ks.
     (\<forall>i < j. tp_values a ! fst (ks ! i) = tp_values b ! fst (ks ! i)) \<and>
     (if snd (ks ! j) then tp_values b ! fst (ks ! j) < tp_values a ! fst (ks ! j)
      else tp_values a ! fst (ks ! j) < tp_values b ! fst (ks ! j)))"

definition same_keys :: "(nat \<times> bool) list \<Rightarrow> tuple \<Rightarrow> tuple \<Rightarrow> bool" where
  "same_keys ks a b \<longleftrightarrow> (\<forall>(i, _) \<in> set ks. tp_values a ! i = tp_values b ! i)"

definition wide :: "(nat \<times> bool) list \<Rightarrow> tuple \<Rightarrow> bool" where
  "wide ks t \<longleftrightarrow> (\<forall>(i, _) \<in> set ks. i < length (tp_values t))"

lemma precedes_Nil [simp]: "\<not> precedes [] a b"
  by (simp add: precedes_def)

lemma precedes_Cons: "precedes ((i, desc) # ks) a b \<longleftrightarrow>
   (if desc then tp_values b ! i < tp_values a ! i else tp_values a ! i < tp_values b ! i) \<or>
   tp_values a ! i = tp_values b ! i \<and> precedes ks a b"
  (is "?l \<longleftrightarrow> ?d \<or> ?e \<and> ?p")
proof
  assume ?l
  then obtain j where j: "j < Suc (length ks)"
    "\<forall>k < j. tp_values a ! fst (((i, desc) # ks) ! k) = tp_values b ! fst (((i, desc) # ks) ! k)"
    "if snd (((i, desc) # ks) ! j)
     then tp_values b ! fst (((i, desc) # ks) ! j) < tp_values a ! fst (((i, desc) # ks) ! j)
     else tp_values a ! fst (((i, desc) # ks) ! j) < tp_values b ! fst (((i, desc) # ks) ! j)"
    unfolding precedes_def by auto
  show "?d \<or> ?e \<and> ?p"
  proof (cases j)
    case 0
    with j(3) show ?thesis by (auto split: if_splits)
  next
    case (Suc j')
    then have "?e" using j(2) by auto
    moreover have "?p" unfolding precedes_def
      by (rule exI [of _ j']) (use Suc j in \<open>auto dest: spec [of _ "Suc _"]\<close>)
    ultimately show ?thesis by simp
  qed
next
  assume "?d \<or> ?e \<and> ?p"
  then show ?l
  proof (elim disjE conjE)
    assume ?d
    then show ?l unfolding precedes_def by (intro exI [of _ 0]) simp
  next
    assume e: ?e and ?p
    then obtain j where j: "j < length ks" "\<forall>i < j. tp_values a ! fst (ks ! i) = tp_values b ! fst (ks ! i)"
     "if snd (ks ! j) then tp_values b ! fst (ks ! j) < tp_values a ! fst (ks ! j)
      else tp_values a ! fst (ks ! j) < tp_values b ! fst (ks ! j)"
      unfolding precedes_def by blast
    show ?l unfolding precedes_def
      by (rule exI [of _ "Suc j"]) (use j e in \<open>auto simp: nth_Cons split: nat.split\<close>)
  qed
qed

lemma compare_rows_total:
  "wide ks a \<Longrightarrow> wide ks b \<Longrightarrow> compare_rows ks a b =
     Ok (if precedes ks a b then Less else if same_keys ks a b then Equal else Greater)"
proof (induction ks)
  case (Cons k ks)
  obtain i desc where k: "k = (i, desc)" by (cases k)
  from Cons show ?case
    by (auto simp: k wide_def precedes_Cons same_keys_def cmp_key_def Let_def)
qed (simp add: same_keys_def)

lemma precedes_converse: "\<not> precedes ks a b \<Longrightarrow> \<not> same_keys ks a b \<Longrightarrow> precedes ks b a"
proof (induction ks)
  case (Cons k ks)
  then show ?case
    by (cases k) (auto simp: precedes_Cons same_keys_def split: if_splits)
qed (simp add: same_keys_def)

lemma precedes_trans: "precedes ks a b \<Longrightarrow> \<not> precedes ks c b \<Longrightarrow> precedes ks a c"
proof (induction ks)
  case (Cons k ks)
  then show ?case
    by (cases k) (force simp: precedes_Cons split: if_splits)
qed simp

lemma same_keys_precedes: "same_keys ks a b \<Longrightarrow> precedes ks a c = precedes ks b c \<and> precedes ks c a = precedes ks c b"
proof (induction ks)
  case (Cons k ks)
  then show ?case by (cases k) (auto simp: precedes_Cons same_keys_def)
qed simp

lemma precedes_asym: "precedes ks a b \<Longrightarrow> \<not> precedes ks b a"
proof (induction ks)
  case (Cons k ks)
  then show ?case by (cases k) (auto simp: precedes_Cons split: if_splits)
qed simp

lemma same_keys_refl [simp]: "same_keys ks a a"
  by (auto simp: same_keys_def)

lemma same_keys_sym: "same_keys ks a b \<Longrightarrow> same_keys ks b a"
  by (auto simp: same_keys_def)

lemma same_keys_trans: "same_keys ks a b \<Longrightarrow> same_keys ks b c \<Longrightarrow> same_keys ks a c"
  by (fastforce simp: same_keys_def)

text \<open>Sorted: no row stands behind one that it precedes.\<close>

definition in_order :: "(nat \<times> bool) list \<Rightarrow> tuple list \<Rightarrow> bool" where
  "in_order ks ts \<longleftrightarrow> sorted_wrt (\<lambda>a b. \<not> precedes ks b a) ts"

lemma insert_row_spec:
  assumes "wide ks t" "\<forall>u \<in> set us. wide ks u" "in_order ks us"
  shows "\<exists>vs. insert_row (compare_rows ks) t us = Ok vs \<and> mset vs = add_mset t (mset us) \<and>
     in_order ks vs \<and> (\<forall>k. filter (same_keys ks k) vs = filter (same_keys ks k) (t # us))"
  using assms(2,3)
proof (induction us)
  case (Cons u us)
  show ?case
  proof (cases "precedes ks t u \<or> same_keys ks t u")
    case True
    have "\<not> precedes ks v t" if "v \<in> set (u # us)" for v
    proof
      assume v: "precedes ks v t"
      have "\<not> precedes ks v u" using that Cons.prems(2) by (auto simp: in_order_def dest: precedes_asym)
      moreover have "precedes ks v u"
        using True v precedes_trans [of ks v t u] precedes_asym same_keys_precedes [of ks t u v] by blast
      ultimately show False by simp
    qed
    then have "in_order ks (t # u # us)" using Cons.prems(2) by (simp add: in_order_def)
    moreover have "insert_row (compare_rows ks) t (u # us) = Ok (t # u # us)"
      using True Cons.prems(1) assms(1) by (auto simp: compare_rows_total)
    ultimately show ?thesis by simp
  next
    case False
    then have u: "precedes ks u t" "\<not> same_keys ks u t"
      using precedes_converse same_keys_sym by blast+
    obtain vs where vs: "insert_row (compare_rows ks) t us = Ok vs" "mset vs = add_mset t (mset us)"
      "in_order ks vs" "\<forall>k. filter (same_keys ks k) vs = filter (same_keys ks k) (t # us)"
      using Cons by (auto simp: in_order_def)
    have "set vs = insert t (set us)" using vs(2) by (metis set_mset_add_mset_insert set_mset_mset)
    moreover have "\<not> precedes ks t u" using False by simp
    ultimately have "in_order ks (u # vs)" using vs(3) Cons.prems(2) by (simp add: in_order_def)
    moreover have "filter (same_keys ks k) (u # vs) = filter (same_keys ks k) (t # u # us)" for k
    proof -
      have "\<not> (same_keys ks k u \<and> same_keys ks k t)" using u(2) same_keys_sym same_keys_trans by blast
      then show ?thesis using vs(4) by auto
    qed
    ultimately show ?thesis using False Cons.prems(1) assms(1) vs(1,2)
      by (simp add: compare_rows_total)
  qed
qed (simp add: in_order_def)

text \<open>The sort returns the rows in order, and rows with equal keys in the order they came.\<close>

lemma sort_by_spec:
  assumes "\<forall>t \<in> set ts. wide ks t"
  shows "\<exists>us. sort_by (compare_rows ks) ts = Ok us \<and> mset us = mset ts \<and> in_order ks us \<and>
     (\<forall>k. filter (same_keys ks k) us = filter (same_keys ks k) ts)"
  using assms
proof (induction ts)
  case (Cons t ts)
  then obtain us where us: "sort_by (compare_rows ks) ts = Ok us" "mset us = mset ts" "in_order ks us"
    "\<forall>k. filter (same_keys ks k) us = filter (same_keys ks k) ts" by auto
  moreover have "\<forall>u \<in> set us. wide ks u" using Cons.prems us(2) by (metis list.set_intros(2) set_mset_mset)
  ultimately show ?case using insert_row_spec [of ks t us] Cons.prems by auto
qed (simp add: in_order_def)

lemma in_order_unique:
  assumes "in_order ks us" "in_order ks vs"
    "\<forall>k. filter (same_keys ks k) us = filter (same_keys ks k) vs"
  shows "us = vs"
  using assms
proof (induction us arbitrary: vs)
  case Nil
  show ?case
  proof (cases vs)
    case (Cons v vs')
    then show ?thesis using Nil(3) [THEN spec, of v] by simp
  qed simp
next
  case (Cons u us)
  obtain v vs' where vs: "vs = v # vs'"
    using Cons.prems(3) [THEN spec, of u] by (cases vs) simp_all
  have mem: "set (u # us) = set vs"
  proof -
    have "x \<in> set (u # us) \<longleftrightarrow> x \<in> set (filter (same_keys ks x) (u # us))" for x
      unfolding set_filter by simp
    moreover have "x \<in> set vs \<longleftrightarrow> x \<in> set (filter (same_keys ks x) vs)" for x unfolding set_filter by simp
    ultimately show ?thesis using Cons.prems(3) by (intro set_eqI) metis
  qed
  then have "u \<in> set vs" "v \<in> set (u # us)" by (auto simp: vs)
  moreover have "\<not> precedes ks x x" for x using precedes_asym by blast
  ultimately have "\<not> precedes ks u v" "\<not> precedes ks v u"
    using Cons.prems(1,2) unfolding vs by (auto simp: in_order_def)
  then have "same_keys ks u v" using precedes_converse by blast
  with Cons.prems(3) [THEN spec, of u] have uv: "u = v" by (simp add: vs)
  have "filter (same_keys ks k) us = filter (same_keys ks k) vs'" for k
    using Cons.prems(3) [THEN spec, of k] by (cases "same_keys ks k u") (auto simp: vs uv)
  then have "us = vs'" using Cons.IH [of vs'] Cons.prems(1,2) by (simp add: vs in_order_def)
  then show ?case by (simp add: vs uv)
qed

definition sort_stream :: "(nat \<times> bool) list \<Rightarrow> (tuple list \<Rightarrow> 'c \<Rightarrow> 's \<Rightarrow> tuple list \<Rightarrow> bool) \<Rightarrow> tuple list \<Rightarrow>
     'c sort_exec \<Rightarrow> 's \<Rightarrow> tuple list \<Rightarrow> bool" where
  "sort_stream ks stream R x s ts \<longleftrightarrow> so_keys x = ks \<and> (\<exists>R0 ts0. stream R0 (so_child x) s ts0 \<and>
     sort_by (compare_rows ks) R0 = Ok R \<and>
     (case so_output x of None \<Rightarrow> sort_by (compare_rows ks) ts0 = Ok ts | Some rows \<Rightarrow> rows = ts))"

context row_source
begin

text \<open>A parent that drains its child.\<close>

lemma drain_child:
  assumes put: "\<And>c x. g (p c x) = c" "\<And>c d x. p c (p d x) = p c x"
  shows "stream R (g x) s ts \<Longrightarrow> outcome (drain (child_next g p nxt) (x, s))
     (\<lambda>r (x', s'). r = ts \<and> (\<exists>c'. x' = p c' x \<and> stream R c' s' []) \<and> evolves s s')
     (\<lambda>e (x', s'). fails e \<and> evolves s s')"
proof (induction ts arbitrary: x s)
  case Nil
  show ?case
    unfolding drain.simps [of "child_next g p nxt" "(x, s)"]
    by (rule outcome_pairI [where R = "\<lambda>r x' s'. r = None \<and> (\<exists>c'. x' = p c' x \<and> stream R c' s' []) \<and> evolves s s'"],
        unfold outcome_child_next, rule outcome_weaken_pair, rule next_stream [OF Nil]) auto
next
  case (Cons t ts)
  show ?case
    unfolding drain.simps [of "child_next g p nxt" "(x, s)"]
  proof (rule outcome_pairI [where R = "\<lambda>r x' s'. r = Some t \<and> (\<exists>c'. x' = p c' x \<and> stream R c' s' ts) \<and> evolves s s'"])
    show "outcome (child_next g p nxt (x, s))
      (\<lambda>r (x', s'). r = Some t \<and> (\<exists>c'. x' = p c' x \<and> stream R c' s' ts) \<and> evolves s s')
      (\<lambda>e (x', s'). fails e \<and> evolves s s')"
      unfolding outcome_child_next
      by (rule outcome_weaken_pair, rule next_stream [OF Cons.prems]) auto
    fix r x1 s1 assume a: "r = Some t \<and> (\<exists>c'. x1 = p c' x \<and> stream R c' s1 ts) \<and> evolves s s1"
    then obtain c1 where c1: "x1 = p c1 x" "stream R (g x1) s1 ts" by (auto simp: put)
    have "outcome (drain (child_next g p nxt) (x1, s1))
       (\<lambda>r (x', s'). t # r = t # ts \<and> (\<exists>c'. x' = p c' x \<and> stream R c' s' []) \<and> evolves s s')
       (\<lambda>e (x', s'). fails e \<and> evolves s s')"
      by (rule outcome_weaken_pair, rule Cons.IH [OF c1(2)])
        (use a c1(1) put(2) in \<open>auto intro: evolves_trans\<close>)
    then show "outcome (case r of None \<Rightarrow> ret [] (x1, s1)
       | Some t \<Rightarrow> seq (drain (child_next g p nxt)) (\<lambda>ts. ret (t # ts)) (x1, s1))
       (\<lambda>r (x', s'). r = t # ts \<and> (\<exists>c'. x' = p c' x \<and> stream R c' s' []) \<and> evolves s s')
       (\<lambda>e (x', s'). fails e \<and> evolves s s')"
      using a by (simp add: outcome_seq)
  qed
qed

lemma sort_source:
  "row_source (sort_next nxt) (sort_reset rst) (sort_stream ks stream) evolves fails"
proof
  fix R and x :: "'c sort_exec" and s ts assume st: "sort_stream ks stream R x s ts"
  then obtain R0 ts0 where x: "so_keys x = ks" "stream R0 (so_child x) s ts0" "sort_by (compare_rows ks) R0 = Ok R"
    "case so_output x of None \<Rightarrow> sort_by (compare_rows ks) ts0 = Ok ts | Some rows \<Rightarrow> rows = ts"
    unfolding sort_stream_def by blast
  show "outcome (sort_next nxt (x, s))
    (\<lambda>r (c', s'). r = first ts \<and> sort_stream ks stream R c' s' (tl ts) \<and> evolves s s')
    (\<lambda>e (c', s'). fails e \<and> evolves s s')"
  proof (cases "so_output x")
    case (Some rows)
    then have "sort_stream ks stream R (so_output_update (\<lambda>_. Some (tl ts)) x) s (tl ts)"
      using x unfolding sort_stream_def by auto
    then show ?thesis using Some x(4) evolves_refl by (simp add: sort_next_def)
  next
    case None
    have "outcome (drain (sort_child nxt) (x, s))
      (\<lambda>r (x', s'). r = ts0 \<and> (\<exists>c'. x' = so_child_update (\<lambda>_. c') x \<and> stream R0 c' s' []) \<and> evolves s s')
      (\<lambda>e (x', s'). fails e \<and> evolves s s')"
      unfolding sort_child_def by (rule drain_child [where g = so_child, OF _ _ x(2)]) simp_all
    then show ?thesis
      unfolding sort_next_def fst_conv None option.case
    proof (rule outcome_pairI)
      fix r and x1 :: "'c sort_exec" and s1
      assume a: "r = ts0 \<and> (\<exists>c'. x1 = so_child_update (\<lambda>_. c') x \<and> stream R0 c' s1 []) \<and> evolves s s1"
      then have "sort_stream ks stream R (so_output_update (\<lambda>_. Some (tl ts)) x1) s1 (tl ts)"
        using x unfolding sort_stream_def by fastforce
      moreover have "so_keys x1 = ks" "sort_by (compare_rows ks) r = Ok ts" using a x(1,4) None by auto
      ultimately show "outcome (seq (lift (sort_by (compare_rows (so_keys (fst (x1, s1)))) r)) (\<lambda>rows.
         seq (modify (apfst (so_output_update (\<lambda>_. Some (tl rows))))) (\<lambda>_. ret (first rows))) (x1, s1))
         (\<lambda>r (c', s'). r = first ts \<and> sort_stream ks stream R c' s' (tl ts) \<and> evolves s s')
         (\<lambda>e (c', s'). fails e \<and> evolves s s')"
        using a by simp
    qed
  qed
next
  fix R and x :: "'c sort_exec" and s ts assume "sort_stream ks stream R x s ts"
  then obtain R0 ts0 where x: "so_keys x = ks" "stream R0 (so_child x) s ts0" "sort_by (compare_rows ks) R0 = Ok R"
    unfolding sort_stream_def by blast
  from reset_stream [OF x(2)] obtain c' where c': "rst (so_child x) = ret () c'" "stream R0 c' s R0" by blast
  let ?x = "x\<lparr>so_child := c', so_output := None\<rparr>"
  have "sort_stream ks stream R ?x s R" using x c' unfolding sort_stream_def by auto
  moreover have "sort_reset rst x = ret () ?x"
    using c'(1) by (simp add: sort_reset_def seq_def focus_def ret_def modify_def)
  ultimately show "\<exists>c'. sort_reset rst x = ret () c' \<and> sort_stream ks stream R c' s R" by blast
next
  fix R and x :: "'c sort_exec" and s ts s' assume "sort_stream ks stream R x s ts" "evolves s s'"
  then show "sort_stream ks stream R x s' ts"
    using evolves_stream unfolding sort_stream_def by blast
qed (use evolves_refl evolves_trans in blast)+

end

section \<open>Aggregation\<close>

datatype aggregate_func = CountStar | CountCol nat | AverageCol nat

datatype aggregate_state = CountState i64 | AverageState i64 i64

fun initial_state :: "aggregate_func \<Rightarrow> aggregate_state" where
  "initial_state CountStar = CountState 0"
| "initial_state (CountCol _) = CountState 0"
| "initial_state (AverageCol _) = AverageState 0 0"

fun accumulate :: "aggregate_func \<Rightarrow> aggregate_state \<Rightarrow> tuple \<Rightarrow> aggregate_state res" where
  "accumulate CountStar (CountState n) t = Ok (CountState (n + 1))"
| "accumulate (CountCol idx) (CountState n) t =
     res_bind (vec_get (tp_values t) idx) (\<lambda>v.
       Ok (CountState (if v \<noteq> VNull then n + 1 else n)))"
| "accumulate (AverageCol idx) (AverageState acc n) t =
     res_bind (vec_get (tp_values t) idx) (\<lambda>v. case v of
       VBigInt val \<Rightarrow> Ok (AverageState (acc + val) (n + 1))
     | VInt val \<Rightarrow> Ok (AverageState (acc + scast val) (n + 1))
     | VNull \<Rightarrow> Ok (AverageState acc n)
     | _ \<Rightarrow> Err (SyntaxErr ''AVG can only be applied to numeric columns''))"
| "accumulate _ _ t = Panic"

text \<open>The quotient of \<open>i64\<close> truncates, and panics on the overflow of the minimum by -1.\<close>

definition i64_div :: "i64 \<Rightarrow> i64 \<Rightarrow> i64 res" where
  "i64_div a b = (if b = 0 \<or> a = push_bit 63 1 \<and> b = - 1 then Panic
     else Ok (word_of_int (sint a sdiv sint b)))"

fun finalize :: "aggregate_state \<Rightarrow> val res" where
  "finalize (CountState n) = Ok (VBigInt n)"
| "finalize (AverageState acc n) =
     (if n = 0 then Ok VNull else res_bind (i64_div acc n) (\<lambda>q. Ok (VBigInt q)))"

type_synonym groups = "(val list \<times> aggregate_state list) list"

fun accumulate_all ::
    "aggregate_func list \<Rightarrow> aggregate_state list \<Rightarrow> tuple \<Rightarrow> aggregate_state list res" where
  "accumulate_all (f # fs) (st # sts) t =
     res_bind (accumulate f st t) (\<lambda>st'. res_bind (accumulate_all fs sts t) (\<lambda>sts'. Ok (st' # sts')))"
| "accumulate_all [] sts t = Ok sts"
| "accumulate_all (f # fs) [] t = Panic"

definition group_key :: "nat list \<Rightarrow> tuple \<Rightarrow> val list res" where
  "group_key gb t = res_map (vec_get (tp_values t)) gb"

definition group_row :: "nat list \<Rightarrow> aggregate_func list \<Rightarrow> tuple \<Rightarrow> groups \<Rightarrow> groups res" where
  "group_row gb fs t groups =
     res_bind (group_key gb t) (\<lambda>key.
     let states = (case map_of groups key of Some sts \<Rightarrow> sts | None \<Rightarrow> map initial_state fs) in
     res_bind (accumulate_all fs states t) (\<lambda>states'. Ok (AList.update key states' groups)))"

record 'c aggregate_exec =
  ag_child :: 'c
  ag_group_by :: "nat list"
  ag_funcs :: "aggregate_func list"
  ag_output :: "tuple list option"

definition aggregate_child :: "('c, 's) row_call \<Rightarrow> ('c aggregate_exec, 's) row_call" where
  "aggregate_child = child_next ag_child (\<lambda>c. ag_child_update (\<lambda>_. c))"

text \<open>The loop over the input, with the groups and the flag \<open>had_input\<close>.\<close>

partial_function (option) aggregate_input ::
    "('c, 's) row_call \<Rightarrow> groups \<Rightarrow> bool \<Rightarrow> ('c aggregate_exec \<times> 's, groups \<times> bool) call" where
  "aggregate_input nxt groups had_input x = seq (aggregate_child nxt) (\<lambda>r x. case r of
     None \<Rightarrow> ret (groups, had_input) x
   | Some t \<Rightarrow>
       seq (lift (group_row (ag_group_by (fst x)) (ag_funcs (fst x)) t groups)) (\<lambda>groups' x.
         aggregate_input nxt groups' True x) x) x"

declare aggregate_input.simps [code]

definition group_result :: "val list \<times> aggregate_state list \<Rightarrow> tuple res" where
  "group_result g = res_bind (res_map finalize (snd g)) (\<lambda>vs. Ok (tuple_new (fst g @ vs)))"

definition aggregate_next ::
    "(groups \<Rightarrow> groups) \<Rightarrow> ('c, 's) row_call \<Rightarrow> ('c aggregate_exec, 's) row_call" where
  "aggregate_next order nxt x = (case ag_output (fst x) of
     Some rows \<Rightarrow> seq (modify (apfst (ag_output_update (\<lambda>_. Some (tl rows))))) (\<lambda>_. ret (first rows)) x
   | None \<Rightarrow>
       seq (aggregate_input nxt [] False) (\<lambda>(groups, had_input) x.
       let groups' = (if \<not> had_input \<and> ag_group_by (fst x) = []
                      then AList.update [] (map initial_state (ag_funcs (fst x))) groups else groups) in
       seq (lift (res_map group_result (order groups'))) (\<lambda>rows.
       seq (modify (apfst (ag_output_update (\<lambda>_. Some (tl rows))))) (\<lambda>_. ret (first rows))) x) x)"

definition aggregate_reset :: "'c reset \<Rightarrow> 'c aggregate_exec reset" where
  "aggregate_reset rst =
     seq (focus ag_child (\<lambda>c. ag_child_update (\<lambda>_. c)) rst) (\<lambda>_. modify (ag_output_update (\<lambda>_. None)))"

section \<open>What an aggregation computes\<close>

definition key_of :: "nat list \<Rightarrow> tuple \<Rightarrow> val list" where
  "key_of gb t = map (\<lambda>i. tp_values t ! i) gb"

fun val_num :: "val \<Rightarrow> i64" where
  "val_num (VBigInt v) = v" | "val_num (VInt v) = scast v" | "val_num _ = 0"

definition cells_of :: "nat \<Rightarrow> tuple list \<Rightarrow> val list" where
  "cells_of i ts = filter (\<lambda>v. v \<noteq> VNull) (map (\<lambda>t. tp_values t ! i) ts)"

fun state_of :: "aggregate_func \<Rightarrow> tuple list \<Rightarrow> aggregate_state" where
  "state_of CountStar ts = CountState (of_nat (length ts))"
| "state_of (CountCol i) ts = CountState (of_nat (length (cells_of i ts)))"
| "state_of (AverageCol i) ts =
     AverageState (sum_list (map val_num (cells_of i ts))) (of_nat (length (cells_of i ts)))"

text \<open>The rows to which a function applies: the column exists and, for AVG, is numeric or null.\<close>

fun applies :: "aggregate_func \<Rightarrow> tuple \<Rightarrow> bool" where
  "applies CountStar t = True"
| "applies (CountCol i) t = (i < length (tp_values t))"
| "applies (AverageCol i) t = (i < length (tp_values t) \<and>
     (case tp_values t ! i of VBigInt _ \<Rightarrow> True | VInt _ \<Rightarrow> True | VNull \<Rightarrow> True | _ \<Rightarrow> False))"

definition groupable :: "nat list \<Rightarrow> aggregate_func list \<Rightarrow> tuple \<Rightarrow> bool" where
  "groupable gb fs t \<longleftrightarrow> (\<forall>i \<in> set gb. i < length (tp_values t)) \<and> (\<forall>f \<in> set fs. applies f t)"

lemma state_of_Nil: "initial_state f = state_of f []"
  by (cases f) (simp_all add: cells_of_def)

lemma accumulate_state:
  "applies f t \<Longrightarrow> accumulate f (state_of f ts) t = Ok (state_of f (ts @ [t]))"
  by (cases f) (auto simp: cells_of_def split: val.splits)

lemma accumulate_all_states:
  "\<forall>f \<in> set fs. applies f t \<Longrightarrow>
   accumulate_all fs (map (\<lambda>f. state_of f ts) fs) t = Ok (map (\<lambda>f. state_of f (ts @ [t])) fs)"
  by (induction fs) (simp_all add: accumulate_state)

lemma group_key_of: "\<forall>i \<in> set gb. i < length (tp_values t) \<Longrightarrow> group_key gb t = Ok (key_of gb t)"
  unfolding group_key_def key_of_def by (rule res_map_Ok) simp

definition group_table :: "nat list \<Rightarrow> aggregate_func list \<Rightarrow> tuple list \<Rightarrow> groups \<Rightarrow> bool" where
  "group_table gb fs ts groups \<longleftrightarrow> distinct (map fst groups) \<and>
     map_of groups = (\<lambda>k. if k \<in> key_of gb ` set ts
       then Some (map (\<lambda>f. state_of f (filter (\<lambda>t. key_of gb t = k) ts)) fs) else None)"

lemma group_row_step:
  assumes "group_table gb fs ts groups" "groupable gb fs t"
  shows "\<exists>groups'. group_row gb fs t groups = Ok groups' \<and> group_table gb fs (ts @ [t]) groups'"
proof -
  let ?k = "key_of gb t"
  let ?rows = "filter (\<lambda>u. key_of gb u = ?k) ts"
  have st: "(case map_of groups ?k of Some sts \<Rightarrow> sts | None \<Rightarrow> map initial_state fs) = map (\<lambda>f. state_of f ?rows) fs"
  proof (cases "?k \<in> key_of gb ` set ts")
    case True
    then show ?thesis using assms(1) by (simp add: group_table_def)
  next
    case False
    then have e: "?rows = []" unfolding filter_empty_conv by (metis imageI)
    show ?thesis using False assms(1) unfolding e by (simp add: group_table_def state_of_Nil)
  qed
  let ?groups = "AList.update ?k (map (\<lambda>f. state_of f (?rows @ [t])) fs) groups"
  have "group_row gb fs t groups = Ok ?groups"
    using assms(2) st accumulate_all_states [of fs t ?rows]
    by (simp add: group_row_def groupable_def group_key_of Let_def)
  moreover have "group_table gb fs (ts @ [t]) ?groups"
    using assms(1) unfolding group_table_def
    by (auto simp: distinct_update update_conv' fun_eq_iff)
  ultimately show ?thesis by blast
qed

text \<open>Each key that occurs has one group, with the states of the functions on its rows.\<close>

lemma group_rows_spec:
  assumes "\<forall>t \<in> set ts. groupable gb fs t"
  shows "\<exists>groups. res_fold (group_row gb fs) ts [] = Ok groups \<and> group_table gb fs ts groups"
  using assms
proof (induction ts rule: rev_induct)
  case Nil
  show ?case by (simp add: group_table_def)
next
  case (snoc t ts)
  then obtain groups where "res_fold (group_row gb fs) ts [] = Ok groups" "group_table gb fs ts groups" by auto
  with group_row_step [of gb fs ts groups t] snoc.prems show ?case
    by (auto simp: res_fold_append)
qed

definition aggregate_rows :: "(groups \<Rightarrow> groups) \<Rightarrow> nat list \<Rightarrow> aggregate_func list \<Rightarrow> tuple list \<Rightarrow> tuple list res" where
  "aggregate_rows order gb fs ts =
     res_bind (res_fold (group_row gb fs) ts []) (\<lambda>groups.
     res_map group_result (order (if ts = [] \<and> gb = [] then [([], map initial_state fs)] else groups)))"

definition aggregate_stream :: "(groups \<Rightarrow> groups) \<Rightarrow> nat list \<Rightarrow> aggregate_func list \<Rightarrow>
     (tuple list \<Rightarrow> 'c \<Rightarrow> 's \<Rightarrow> tuple list \<Rightarrow> bool) \<Rightarrow> tuple list \<Rightarrow> 'c aggregate_exec \<Rightarrow> 's \<Rightarrow> tuple list \<Rightarrow> bool" where
  "aggregate_stream order gb fs stream R x s ts \<longleftrightarrow> ag_group_by x = gb \<and> ag_funcs x = fs \<and>
     (\<exists>R0 ts0. stream R0 (ag_child x) s ts0 \<and> aggregate_rows order gb fs R0 = Ok R \<and>
     (case ag_output x of None \<Rightarrow> aggregate_rows order gb fs ts0 = Ok ts | Some rows \<Rightarrow> rows = ts))"

context row_source
begin

lemma aggregate_input_spec:
  assumes "ag_group_by x = gb" "ag_funcs x = fs"
  shows "stream R (ag_child x) s ts \<Longrightarrow> res_fold (group_row gb fs) ts groups = Ok groups' \<Longrightarrow>
   outcome (aggregate_input nxt groups b (x, s))
     (\<lambda>r (x', s'). r = (groups', b \<or> ts \<noteq> []) \<and> (\<exists>c'. x' = ag_child_update (\<lambda>_. c') x \<and> stream R c' s' []) \<and> evolves s s')
     (\<lambda>e (x', s'). fails e \<and> evolves s s')"
  using assms
proof (induction ts arbitrary: x s groups b)
  case Nil
  show ?case
    unfolding aggregate_input.simps [of nxt groups b "(x, s)"] aggregate_child_def
    by (rule outcome_pairI [where R = "\<lambda>r x' s'. r = None \<and> (\<exists>c'. x' = ag_child_update (\<lambda>_. c') x \<and> stream R c' s' []) \<and> evolves s s'"],
        unfold outcome_child_next, rule outcome_weaken_pair, rule next_stream [OF Nil(1)]) (use Nil(2) in auto)
next
  case (Cons t ts)
  then obtain g1 where g1: "group_row gb fs t groups = Ok g1" "res_fold (group_row gb fs) ts g1 = Ok groups'"
    by (auto simp: res_bind_eq_Ok)
  show ?case
    unfolding aggregate_input.simps [of nxt groups b "(x, s)"]
  proof (rule outcome_pairI [where R = "\<lambda>r x' s'. r = Some t \<and> (\<exists>c'. x' = ag_child_update (\<lambda>_. c') x \<and> stream R c' s' ts) \<and> evolves s s'"])
    show "outcome (aggregate_child nxt (x, s))
      (\<lambda>r (x', s'). r = Some t \<and> (\<exists>c'. x' = ag_child_update (\<lambda>_. c') x \<and> stream R c' s' ts) \<and> evolves s s')
      (\<lambda>e (x', s'). fails e \<and> evolves s s')"
      unfolding aggregate_child_def outcome_child_next
      by (rule outcome_weaken_pair, rule next_stream [OF Cons.prems(1)]) auto
    fix r and x1 :: "'c aggregate_exec" and s1
    assume a: "r = Some t \<and> (\<exists>c'. x1 = ag_child_update (\<lambda>_. c') x \<and> stream R c' s1 ts) \<and> evolves s s1"
    then have x1: "stream R (ag_child x1) s1 ts" "ag_group_by x1 = gb" "ag_funcs x1 = fs" using Cons.prems by auto
    have "outcome (aggregate_input nxt g1 True (x1, s1))
     (\<lambda>r (x', s'). r = (groups', b \<or> t # ts \<noteq> []) \<and> (\<exists>c'. x' = ag_child_update (\<lambda>_. c') x \<and> stream R c' s' []) \<and> evolves s s')
     (\<lambda>e (x', s'). fails e \<and> evolves s s')"
      by (rule outcome_weaken_pair, rule Cons.IH [OF x1(1) g1(2) x1(2,3)])
        (use a in \<open>auto intro: evolves_trans\<close>)
    then show "outcome (case r of
     None \<Rightarrow> ret (groups, b) (x1, s1)
   | Some t \<Rightarrow>
       seq (lift (group_row (ag_group_by (fst (x1, s1))) (ag_funcs (fst (x1, s1))) t groups)) (\<lambda>groups' x.
         aggregate_input nxt groups' True x) (x1, s1))
     (\<lambda>r (x', s'). r = (groups', b \<or> t # ts \<noteq> []) \<and> (\<exists>c'. x' = ag_child_update (\<lambda>_. c') x \<and> stream R c' s' []) \<and> evolves s s')
     (\<lambda>e (x', s'). fails e \<and> evolves s s')"
      using a g1(1) x1 by simp
  qed
qed

lemma aggregate_source:
  "row_source (aggregate_next order nxt) (aggregate_reset rst) (aggregate_stream order gb fs stream) evolves fails"
proof
  fix R and x :: "'c aggregate_exec" and s ts assume st: "aggregate_stream order gb fs stream R x s ts"
  then obtain R0 ts0 where x: "ag_group_by x = gb" "ag_funcs x = fs" "stream R0 (ag_child x) s ts0"
    "aggregate_rows order gb fs R0 = Ok R"
    "case ag_output x of None \<Rightarrow> aggregate_rows order gb fs ts0 = Ok ts | Some rows \<Rightarrow> rows = ts"
    unfolding aggregate_stream_def by blast
  show "outcome (aggregate_next order nxt (x, s))
    (\<lambda>r (c', s'). r = first ts \<and> aggregate_stream order gb fs stream R c' s' (tl ts) \<and> evolves s s')
    (\<lambda>e (c', s'). fails e \<and> evolves s s')"
  proof (cases "ag_output x")
    case (Some rows)
    then have "aggregate_stream order gb fs stream R (ag_output_update (\<lambda>_. Some (tl ts)) x) s (tl ts)"
      using x unfolding aggregate_stream_def by auto
    then show ?thesis using Some x(5) evolves_refl by (simp add: aggregate_next_def)
  next
    case None
    with x(5) obtain groups where g: "res_fold (group_row gb fs) ts0 [] = Ok groups"
      "res_map group_result (order (if ts0 = [] \<and> gb = [] then [([], map initial_state fs)] else groups)) = Ok ts"
      by (auto simp: aggregate_rows_def res_bind_eq_Ok)
    show ?thesis
      unfolding aggregate_next_def fst_conv None option.case
    proof (rule outcome_pairI, rule aggregate_input_spec [OF x(1-3) g(1)])
      fix r and x1 :: "'c aggregate_exec" and s1
      assume a: "r = (groups, False \<or> ts0 \<noteq> []) \<and> (\<exists>c'. x1 = ag_child_update (\<lambda>_. c') x \<and> stream R0 c' s1 []) \<and> evolves s s1"
      then have "aggregate_stream order gb fs stream R (ag_output_update (\<lambda>_. Some (tl ts)) x1) s1 (tl ts)"
        using x unfolding aggregate_stream_def by fastforce
      moreover have "ag_group_by x1 = gb" "ag_funcs x1 = fs" using a x(1,2) by auto
      moreover have "(if ts0 = [] \<and> gb = [] then AList.update [] (map initial_state fs) groups else groups) =
          (if ts0 = [] \<and> gb = [] then [([], map initial_state fs)] else groups)"
        using g(1) by auto
      ultimately show "outcome ((case r of (groups, had_input) \<Rightarrow> \<lambda>x.
       let groups' = (if \<not> had_input \<and> ag_group_by (fst x) = []
                      then AList.update [] (map initial_state (ag_funcs (fst x))) groups else groups) in
       seq (lift (res_map group_result (order groups'))) (\<lambda>rows.
       seq (modify (apfst (ag_output_update (\<lambda>_. Some (tl rows))))) (\<lambda>_. ret (first rows))) x) (x1, s1))
         (\<lambda>r (c', s'). r = first ts \<and> aggregate_stream order gb fs stream R c' s' (tl ts) \<and> evolves s s')
         (\<lambda>e (c', s'). fails e \<and> evolves s s')"
        using a g(2) by (cases "ts0 = []"; cases "gb = []"; simp add: Let_def)
    qed
  qed
next
  fix R and x :: "'c aggregate_exec" and s ts assume "aggregate_stream order gb fs stream R x s ts"
  then obtain R0 ts0 where x: "ag_group_by x = gb" "ag_funcs x = fs" "stream R0 (ag_child x) s ts0"
    "aggregate_rows order gb fs R0 = Ok R"
    unfolding aggregate_stream_def by blast
  from reset_stream [OF x(3)] obtain c' where c': "rst (ag_child x) = ret () c'" "stream R0 c' s R0" by blast
  let ?x = "x\<lparr>ag_child := c', ag_output := None\<rparr>"
  have "aggregate_stream order gb fs stream R ?x s R" using x c' unfolding aggregate_stream_def by auto
  moreover have "aggregate_reset rst x = ret () ?x"
    using c'(1) by (simp add: aggregate_reset_def seq_def focus_def ret_def modify_def)
  ultimately show "\<exists>c'. aggregate_reset rst x = ret () c' \<and> aggregate_stream order gb fs stream R c' s R" by blast
next
  fix R and x :: "'c aggregate_exec" and s ts s' assume "aggregate_stream order gb fs stream R x s ts" "evolves s s'"
  then show "aggregate_stream order gb fs stream R x s' ts"
    using evolves_stream unfolding aggregate_stream_def by blast
qed (use evolves_refl evolves_trans in blast)+

end

section \<open>Counts and averages\<close>

lemma sint_of_int_small: "- (2 ^ 63) \<le> x \<Longrightarrow> x < 2 ^ 63 \<Longrightarrow> sint (of_int x :: i64) = x"
  using int_word_sint [of x, where 'a = 64] by simp

definition cell_ints :: "nat \<Rightarrow> tuple list \<Rightarrow> int list" where
  "cell_ints i ts = map (\<lambda>v. sint (val_num v)) (cells_of i ts)"

lemma sum_val_num: "sum_list (map val_num vs) = of_int (sum_list (map (\<lambda>v. sint (val_num v)) vs))"
  by (induction vs) simp_all

text \<open>AVG is null without a non-null value; otherwise the sum divided by the number of non-null
  values, truncated towards zero, as long as the sum fits \<open>i64\<close>.\<close>

lemma finalize_state_of:
  assumes "length ts < 2 ^ 63" "- (2 ^ 63) \<le> sum_list (cell_ints i ts)" "sum_list (cell_ints i ts) < 2 ^ 63"
  shows "finalize (state_of (AverageCol i) ts) =
    Ok (if cell_ints i ts = [] then VNull
        else VBigInt (of_int (sum_list (cell_ints i ts) sdiv int (length (cell_ints i ts)))))"
proof -
  define n where "n = length (cells_of i ts)"
  have "n \<le> length ts" unfolding n_def cells_of_def by (rule order_trans [OF length_filter_le]) simp
  then have n: "n < 2 ^ 63" "length (cell_ints i ts) = n"
    using assms(1) by (simp_all add: n_def cell_ints_def)
  have sn: "sint (of_nat n :: i64) = int n" using sint_of_int_small [of "int n"] n(1) by simp
  then have z: "(of_nat n :: i64) = 0 \<longleftrightarrow> n = 0" by (metis of_nat_0 of_nat_eq_0_iff signed_0 sint_inj)
  have m1: "(of_nat n :: i64) \<noteq> - 1"
  proof
    assume "(of_nat n :: i64) = - 1"
    then have "int n = - 1" using sn by simp
    then show False by simp
  qed
  have s: "sum_list (map val_num (cells_of i ts)) = (of_int (sum_list (cell_ints i ts)) :: i64)"
    by (simp add: sum_val_num cell_ints_def)
  have "cell_ints i ts = [] \<longleftrightarrow> n = 0" using n(2) by auto
  then show ?thesis
    using z m1 sn sint_of_int_small [OF assms(2,3)] n(2)
    by (simp add: s i64_div_def n_def [symmetric])
qed

section \<open>The output of the blocking operators\<close>

lemma accumulate_fold:
  "\<forall>t \<in> set us. applies f t \<Longrightarrow>
   res_fold (\<lambda>t st. accumulate f st t) us (state_of f ts) = Ok (state_of f (ts @ us))"
  by (induction us arbitrary: ts) (simp_all add: accumulate_state)

text \<open>AVG over a numeric column is the sum of the non-null values divided by their number,
  truncated, when the sum stays in the range of a 64-bit integer.\<close>

lemma average_value:
  assumes rows: "\<forall>t \<in> set ts. applies (AverageCol i) t"
    and small: "length ts < 2 ^ 63" "- (2 ^ 63) \<le> sum_list (cell_ints i ts)" "sum_list (cell_ints i ts) < 2 ^ 63"
  shows "res_bind (res_fold (\<lambda>t st. accumulate (AverageCol i) st t) ts (initial_state (AverageCol i))) finalize =
    Ok (if cell_ints i ts = [] then VNull
        else VBigInt (of_int (sum_list (cell_ints i ts) sdiv int (length (cell_ints i ts)))))"
  unfolding state_of_Nil accumulate_fold [OF rows] using finalize_state_of [OF small] by simp

definition sort_new :: "'c \<Rightarrow> (nat \<times> bool) list \<Rightarrow> 'c sort_exec" where
  "sort_new c ks = \<lparr>so_child = c, so_keys = ks, so_output = None\<rparr>"

definition aggregate_new :: "'c \<Rightarrow> nat list \<Rightarrow> aggregate_func list \<Rightarrow> 'c aggregate_exec" where
  "aggregate_new c gb fs = \<lparr>ag_child = c, ag_group_by = gb, ag_funcs = fs, ag_output = None\<rparr>"

text \<open>
  C20: ORDER BY yields a permutation of the rows of its child that is ordered by the sort keys,
  each ascending or descending, and keeps the order of rows with equal keys.
\<close>

lemma sorted_output:
  assumes src: "row_source nxt rst stream evolves fails" and st: "stream ts c s ts"
    and w: "\<forall>t \<in> set ts. wide ks t"
  shows "outcome (drain (sort_next nxt) (sort_new c ks, s))
    (\<lambda>rows _. mset rows = mset ts \<and> in_order ks rows \<and>
       (\<forall>k. filter (same_keys ks k) rows = filter (same_keys ks k) ts))
    (\<lambda>e _. fails e)"
proof -
  from sort_by_spec [OF w] obtain us where us: "sort_by (compare_rows ks) ts = Ok us" "mset us = mset ts"
    "in_order ks us" "\<forall>k. filter (same_keys ks k) us = filter (same_keys ks k) ts" by blast
  have "sort_stream ks stream us (sort_new c ks) s us"
    using st us(1) by (auto simp: sort_stream_def sort_new_def)
  from row_source.drain_stream [OF row_source.sort_source [OF src], OF this] show ?thesis
    by (rule outcome_weaken) (use us in auto)
qed

text \<open>The value of an aggregate over the rows of a group: the number of rows, the number of
  values that are not null, and the sum of these values divided by their number, truncated towards
  zero, or null when there are none.\<close>

fun aggregate_value :: "aggregate_func \<Rightarrow> tuple list \<Rightarrow> val" where
  "aggregate_value CountStar ts = VBigInt (of_nat (length ts))"
| "aggregate_value (CountCol i) ts = VBigInt (of_nat (length (filter (\<lambda>t. tp_values t ! i \<noteq> VNull) ts)))"
| "aggregate_value (AverageCol i) ts = (if cell_ints i ts = [] then VNull
     else VBigInt (of_int (sum_list (cell_ints i ts) sdiv int (length (cell_ints i ts)))))"

text \<open>The sums of an average stay in the range of a 64-bit integer.\<close>

definition sums_fit :: "aggregate_func list \<Rightarrow> tuple list \<Rightarrow> bool" where
  "sums_fit fs ts \<longleftrightarrow> length ts < 2 ^ 63 \<and> (\<forall>i. AverageCol i \<in> set fs \<longrightarrow>
     - (2 ^ 63) \<le> sum_list (cell_ints i ts) \<and> sum_list (cell_ints i ts) < 2 ^ 63)"

lemma finalize_value: "f \<in> set fs \<Longrightarrow> sums_fit fs ts \<Longrightarrow> finalize (state_of f ts) = Ok (aggregate_value f ts)"
  using finalize_state_of [of ts] by (cases f) (auto simp: sums_fit_def cells_of_def filter_map comp_def)

lemma finalize_values: "sums_fit fs ts \<Longrightarrow>
    res_map finalize (map (\<lambda>f. state_of f ts) fs) = Ok (map (\<lambda>f. aggregate_value f ts) fs)"
proof -
  assume fit: "sums_fit fs ts"
  have all: "res_map finalize (map h fs') = Ok (map g fs')" if "\<forall>f \<in> set fs'. finalize (h f) = Ok (g f)"
    for fs' and h :: "aggregate_func \<Rightarrow> aggregate_state" and g
    using that by (induction fs') auto
  show "res_map finalize (map (\<lambda>f. state_of f ts) fs) = Ok (map (\<lambda>f. aggregate_value f ts) fs)"
    by (rule all) (use finalize_value [OF _ fit] in blast)
qed

text \<open>The keys of the groups: without GROUP BY there is one group, also when it has no row.\<close>

definition group_keys :: "nat list \<Rightarrow> tuple list \<Rightarrow> val list set" where
  "group_keys gb ts = (if gb = [] then {[]} else key_of gb ` set ts)"

definition rows_of_group :: "nat list \<Rightarrow> tuple list \<Rightarrow> val list \<Rightarrow> tuple list" where
  "rows_of_group gb ts k = filter (\<lambda>t. key_of gb t = k) ts"

text \<open>
  C21: Aggregation yields one row for each distinct group key of the input, and exactly one
  without GROUP BY even when there is no input: the key, followed by the value of each aggregate
  over the rows of the group, which is the number of rows for COUNT of all, the number of values
  that are not null for COUNT of a column, and for AVG the sum of these values divided by their
  number and truncated, or null without any. The aggregated columns exist, those of AVG are
  numeric or null, and the sums stay within 64 bits.
\<close>

lemma aggregated_output:
  assumes src: "row_source nxt rst stream evolves fails" and st: "stream ts c s ts"
    and rows: "\<forall>t \<in> set ts. groupable gb fs t" and order: "\<forall>gs. mset (order gs) = mset gs"
    and fit: "\<forall>k \<in> group_keys gb ts. sums_fit fs (rows_of_group gb ts k)"
  shows "outcome (drain (aggregate_next order nxt) (aggregate_new c gb fs, s))
    (\<lambda>out _. mset out = image_mset (\<lambda>k. tuple_new (k @ map (\<lambda>f. aggregate_value f (rows_of_group gb ts k)) fs))
       (mset_set (group_keys gb ts)))
    (\<lambda>e _. fails e)"
proof -
  let ?states = "\<lambda>k. map (\<lambda>f. state_of f (rows_of_group gb ts k)) fs"
  let ?row = "\<lambda>k. tuple_new (k @ map (\<lambda>f. aggregate_value f (rows_of_group gb ts k)) fs)"
  from group_rows_spec [OF rows] obtain gs where gs: "res_fold (group_row gb fs) ts [] = Ok gs"
    "group_table gb fs ts gs" by blast
  define gs' where "gs' = (if ts = [] \<and> gb = [] then [([], map initial_state fs)] else gs)"
  have dm: "fst ` set gs = key_of gb ` set ts"
  proof -
    have "k \<in> fst ` set gs \<longleftrightarrow> k \<in> key_of gb ` set ts" for k
      using gs(2) map_of_eq_None_iff [of gs k] by (auto simp: group_table_def split: if_splits)
    then show ?thesis by blast
  qed
  have gk: "group_keys gb ts = key_of gb ` set ts" if "\<not> (ts = [] \<and> gb = [])"
    using that by (cases ts) (auto simp: group_keys_def key_of_def)
  have dm': "fst ` set gs' = group_keys gb ts" 
  proof (cases "ts = [] \<and> gb = []")
    case False
    then show ?thesis using dm gk unfolding gs'_def by simp
  qed (simp add: gs'_def group_keys_def)
  have dist: "distinct (map fst gs')" using gs(2) by (simp add: gs'_def group_table_def)
  have st': "snd g = ?states (fst g)" if g: "g \<in> set gs'" for g
  proof (cases "ts = [] \<and> gb = []")
    case True
    then show ?thesis using g by (simp add: gs'_def rows_of_group_def state_of_Nil)
  next
    case False
    then have "gs' = gs" unfolding gs'_def by (rule if_not_P)
    then have "g \<in> set gs" using g by simp
    then have "map_of gs (fst g) = Some (snd g)" using gs(2) unfolding group_table_def by (intro map_of_is_SomeI) auto
    moreover have "fst g \<in> key_of gb ` set ts" using \<open>g \<in> set gs\<close> dm by blast
    ultimately show ?thesis using gs(2) by (simp add: group_table_def rows_of_group_def)
  qed
  have "group_result g = Ok (?row (fst g))" if "g \<in> set (order gs')" for g
  proof -
    have g: "g \<in> set gs'" using that order by (metis set_mset_mset)
    then have "sums_fit fs (rows_of_group gb ts (fst g))" using fit dm' by blast
    then show ?thesis by (simp add: group_result_def st' [OF g] finalize_values)
  qed
  then have "res_map group_result (order gs') = Ok (map (\<lambda>g. ?row (fst g)) (order gs'))" by (rule res_map_Ok)
  then have ag: "aggregate_rows order gb fs ts = Ok (map (\<lambda>g. ?row (fst g)) (order gs'))"
    by (simp add: aggregate_rows_def gs(1) flip: gs'_def)
  have "mset (map fst (order gs')) = mset (map fst gs')" using order by simp
  also have "\<dots> = mset_set (group_keys gb ts)" using dist dm' by (metis mset_set_set list.set_map)
  finally have "image_mset ?row (mset (map fst (order gs'))) = image_mset ?row (mset_set (group_keys gb ts))" by simp
  then have ms: "mset (map (\<lambda>g. ?row (fst g)) (order gs')) = image_mset ?row (mset_set (group_keys gb ts))"
    by (simp add: image_mset.compositionality comp_def)
  have "aggregate_stream order gb fs stream (map (\<lambda>g. ?row (fst g)) (order gs')) (aggregate_new c gb fs) s
      (map (\<lambda>g. ?row (fst g)) (order gs'))"
    using st ag by (auto simp: aggregate_stream_def aggregate_new_def)
  from row_source.drain_stream [OF row_source.aggregate_source [OF src], OF this] show ?thesis
    by (rule outcome_weaken) (use ms in auto)
qed

section \<open>At concrete inputs\<close>

lemma sorted_output_witness:
  "outcome (drain (sort_next values_next) (sort_new ex_values [(0, False)], ()))
    (\<lambda>rows _. mset rows = mset ex_rows \<and> in_order [(0, False)] rows \<and>
       (\<forall>k. filter (same_keys [(0, False)] k) rows = filter (same_keys [(0, False)] k) ex_rows)) (\<lambda>_ _. False)"
  by (rule sorted_output [OF evolves_values ex_values_stream]) (simp add: ex_rows_def wide_def tuple_new_def)

lemma aggregated_output_witness:
  "outcome (drain (aggregate_next id values_next) (aggregate_new ex_values [0] [CountStar, CountCol 1, AverageCol 1], ()))
    (\<lambda>rows _. mset rows = {#tuple_new [VInt 1, VBigInt 1, VBigInt 1, VBigInt 20],
       tuple_new [VInt 2, VBigInt 2, VBigInt 2, VBigInt 7]#}) (\<lambda>_ _. False)"
proof -
  let ?fs = "[CountStar, CountCol 1, AverageCol 1]"
  have k: "group_keys [0] ex_rows = {[VInt 2], [VInt 1]}"
    by (auto simp: group_keys_def ex_rows_def key_of_def tuple_new_def)
  have g: "rows_of_group [0] ex_rows [VInt 2] = [tuple_new [VInt 2, VInt 10], tuple_new [VInt 2, VInt 5]]"
    "rows_of_group [0] ex_rows [VInt 1] = [tuple_new [VInt 1, VInt 20]]"
    by (simp_all add: rows_of_group_def ex_rows_def key_of_def tuple_new_def)
  have c: "cell_ints 1 [tuple_new [VInt 2, VInt 10], tuple_new [VInt 2, VInt 5]] = [10, 5]"
    "cell_ints 1 [tuple_new [VInt 1, VInt 20]] = [20]"
    by (simp_all add: cell_ints_def cells_of_def tuple_new_def)
  have f: "\<forall>k \<in> group_keys [0] ex_rows. sums_fit ?fs (rows_of_group [0] ex_rows k)"
    unfolding k by (simp add: g sums_fit_def c [simplified])
  have d: "(15 :: int) sdiv 2 = 7" "(20 :: int) sdiv 1 = 20" by (simp_all add: signed_divide_int_def)
  have v: "aggregate_value (AverageCol 1) [tuple_new [VInt 2, VInt 10], tuple_new [VInt 2, VInt 5]] = VBigInt 7"
    "aggregate_value (AverageCol 1) [tuple_new [VInt 1, VInt 20]] = VBigInt 20"
    by (simp_all add: c d del: One_nat_def)
  have img: "image_mset (\<lambda>k. tuple_new (k @ map (\<lambda>f. aggregate_value f (rows_of_group [0] ex_rows k)) ?fs)) (mset_set (group_keys [0] ex_rows)) =
      {#tuple_new [VInt 1, VBigInt 1, VBigInt 1, VBigInt 20], tuple_new [VInt 2, VBigInt 2, VBigInt 2, VBigInt 7]#}"
    unfolding k by (simp add: g v del: aggregate_value.simps(3) One_nat_def) (simp add: tuple_new_def)
  have ok: "\<forall>t \<in> set ex_rows. groupable [0] ?fs t" by (simp add: ex_rows_def groupable_def tuple_new_def)
  show ?thesis
    using aggregated_output [OF evolves_values ex_values_stream ok _ f, of id] unfolding img by simp
qed

end
