(* ===== verification/Plan.thy ===== *)
theory Plan
  imports Modify Breakers
begin

text \<open>
  Trees of operators: the trait objects \<open>Box<dyn Executor>\<close> of src/src/execution.rs.

  An executor is a tree whose nodes hold the state of an operator and whose children are
  executors. A call of \<open>next\<close> or \<open>reset\<close> through the trait object is a case analysis on the
  node. It is defined for trees of a height up to \<open>n\<close>: an operator never changes the height of
  its children, so the bound \<open>height\<close> of the tree that the planner returns is enough, and a
  tree above the bound is a panic, never a wrong answer.

  The operators that read keep the contract \<open>row_source\<close>, so every tree of them does: the rows
  of the tree are those of its root over the rows of its children.
\<close>

section \<open>Executors\<close>

datatype executor =
    XSeqScan seq_scan
  | XIndexScan index_scan
  | XValues values_exec
  | XCreate create_exec
  | XDrop drop_exec
  | XShowTables show_exec
  | XShowIndexes show_exec
  | XFilter bound_expr executor
  | XEmit "bound_expr list" executor
  | XLimit "nat option" "nat option" nat nat executor
  | XSort "(nat \<times> bool) list" "tuple list option" executor
  | XAggregate "nat list" "aggregate_func list" "tuple list option" executor
  | XJoin executor executor join_type bound_expr "tuple list" "bool list" "tuple list" nat nat
  | XInsert string schema executor
  | XUpdate string schema "exec_assignment list" executor
  | XDelete string schema executor

fun height :: "executor \<Rightarrow> nat" where
  "height (XFilter _ c) = Suc (height c)"
| "height (XEmit _ c) = Suc (height c)"
| "height (XLimit _ _ _ _ c) = Suc (height c)"
| "height (XSort _ _ c) = Suc (height c)"
| "height (XAggregate _ _ _ c) = Suc (height c)"
| "height (XJoin l r _ _ _ _ _ _ _) = Suc (max (height l) (height r))"
| "height (XInsert _ _ c) = Suc (height c)"
| "height (XUpdate _ _ _ c) = Suc (height c)"
| "height (XDelete _ _ c) = Suc (height c)"
| "height _ = 1"

text \<open>\<open>Box::new\<close> of an operator.\<close>

fun box_filter :: "executor filter_exec \<Rightarrow> executor" where
  "box_filter x = XFilter (fl_predicate x) (fl_child x)"
fun box_emit :: "executor emit_exec \<Rightarrow> executor" where
  "box_emit x = XEmit (em_exprs x) (em_child x)"
fun box_limit :: "executor limit_exec \<Rightarrow> executor" where
  "box_limit x = XLimit (le_limit x) (le_offset x) (le_skipped x) (le_yielded x) (le_child x)"
fun box_sort :: "executor sort_exec \<Rightarrow> executor" where
  "box_sort x = XSort (so_keys x) (so_output x) (so_child x)"
fun box_aggregate :: "executor aggregate_exec \<Rightarrow> executor" where
  "box_aggregate x = XAggregate (ag_group_by x) (ag_funcs x) (ag_output x) (ag_child x)"
fun box_join :: "(executor, executor) join_exec \<Rightarrow> executor" where
  "box_join x = XJoin (jn_left x) (jn_right x) (jn_type x) (jn_condition x) (jn_block x) (jn_matches x)
     (jn_queue x) (jn_block_size x) (jn_right_len x)"
fun box_insert :: "executor insert_exec \<Rightarrow> executor" where
  "box_insert x = XInsert (ins_table x) (ins_schema x) (ins_child x)"
fun box_update :: "executor update_exec \<Rightarrow> executor" where
  "box_update x = XUpdate (up_table x) (up_schema x) (up_assigns x) (up_child x)"
fun box_delete :: "executor delete_exec \<Rightarrow> executor" where
  "box_delete x = XDelete (del_table x) (del_schema x) (del_child x)"

section \<open>Calls through the trait object\<close>

text \<open>What the calls depend on: the pages the caller has pinned, the hash of a string, and the
  orders in which the hash maps are iterated.\<close>

record env =
  ev_pins :: "page_id set"
  ev_hash :: "string \<Rightarrow> u64"
  ev_keys :: "string set \<Rightarrow> string list"
  ev_groups :: "groups \<Rightarrow> groups"

definition next_as :: "'b \<Rightarrow> ('b \<Rightarrow> 'x) \<Rightarrow> ('b \<times> 's, 'r) call \<Rightarrow> ('x \<times> 's, 'r) call" where
  "next_as b box m = focus (\<lambda>(_, s). (b, s)) (\<lambda>(b', s') _. (box b', s')) m"

definition reset_as :: "'b \<Rightarrow> ('b \<Rightarrow> 'x) \<Rightarrow> 'b reset \<Rightarrow> 'x reset" where
  "reset_as b box m = focus (\<lambda>_. b) (\<lambda>b' _. box b') m"

fun node_next :: "env \<Rightarrow> (executor, exec_context) row_call \<Rightarrow> executor reset \<Rightarrow> executor \<Rightarrow>
    (executor \<times> exec_context, tuple option) call" where
  "node_next ev nxt rst (XSeqScan x) = next_as x XSeqScan (seq_scan_next (ev_pins ev))"
| "node_next ev nxt rst (XIndexScan x) = next_as x XIndexScan (index_scan_next (ev_pins ev))"
| "node_next ev nxt rst (XValues x) = next_as x XValues values_next"
| "node_next ev nxt rst (XCreate x) = next_as x XCreate (create_next (ev_pins ev) (ev_keys ev))"
| "node_next ev nxt rst (XDrop x) = next_as x XDrop (drop_next (ev_pins ev))"
| "node_next ev nxt rst (XShowTables x) = next_as x XShowTables (show_tables_next (ev_keys ev))"
| "node_next ev nxt rst (XShowIndexes x) = next_as x XShowIndexes (show_indexes_next (ev_keys ev))"
| "node_next ev nxt rst (XFilter p c) = next_as \<lparr>fl_predicate = p, fl_child = c\<rparr> box_filter (filter_next nxt)"
| "node_next ev nxt rst (XEmit es c) = next_as \<lparr>em_child = c, em_exprs = es\<rparr> box_emit (emit_next nxt)"
| "node_next ev nxt rst (XLimit lim off k y c) =
     next_as \<lparr>le_child = c, le_limit = lim, le_offset = off, le_skipped = k, le_yielded = y\<rparr> box_limit (limit_next nxt)"
| "node_next ev nxt rst (XSort ks out c) =
     next_as \<lparr>so_child = c, so_keys = ks, so_output = out\<rparr> box_sort (sort_next nxt)"
| "node_next ev nxt rst (XAggregate gb fs out c) =
     next_as \<lparr>ag_child = c, ag_group_by = gb, ag_funcs = fs, ag_output = out\<rparr> box_aggregate
       (aggregate_next (ev_groups ev) nxt)"
| "node_next ev nxt rst (XJoin l r jt cond bl ms q n w) =
     next_as \<lparr>jn_left = l, jn_right = r, jn_type = jt, jn_condition = cond, jn_block = bl, jn_matches = ms,
       jn_queue = q, jn_block_size = n, jn_right_len = w\<rparr> box_join (join_next nxt nxt rst)"
| "node_next ev nxt rst (XInsert table sc c) =
     next_as \<lparr>ins_child = c, ins_table = table, ins_schema = sc\<rparr> box_insert
       (insert_next (ev_pins ev) (ev_hash ev) (ev_keys ev) nxt)"
| "node_next ev nxt rst (XUpdate table sc as c) =
     next_as \<lparr>up_child = c, up_table = table, up_schema = sc, up_assigns = as\<rparr> box_update
       (update_next (ev_pins ev) (ev_hash ev) (ev_keys ev) nxt)"
| "node_next ev nxt rst (XDelete table sc c) =
     next_as \<lparr>del_child = c, del_table = table, del_schema = sc\<rparr> box_delete
       (delete_next (ev_pins ev) (ev_hash ev) (ev_keys ev) nxt)"

fun node_reset :: "executor reset \<Rightarrow> executor \<Rightarrow> (executor, unit) call" where
  "node_reset rst (XSeqScan x) = reset_as x XSeqScan seq_scan_reset"
| "node_reset rst (XIndexScan x) = reset_as x XIndexScan index_scan_reset"
| "node_reset rst (XValues x) = reset_as x XValues values_reset"
| "node_reset rst (XCreate x) = reset_as x XCreate create_reset"
| "node_reset rst (XDrop x) = reset_as x XDrop drop_reset"
| "node_reset rst (XShowTables x) = reset_as x XShowTables show_reset"
| "node_reset rst (XShowIndexes x) = reset_as x XShowIndexes show_reset"
| "node_reset rst (XFilter p c) = reset_as \<lparr>fl_predicate = p, fl_child = c\<rparr> box_filter (filter_reset rst)"
| "node_reset rst (XEmit es c) = reset_as \<lparr>em_child = c, em_exprs = es\<rparr> box_emit (emit_reset rst)"
| "node_reset rst (XLimit lim off k y c) =
     reset_as \<lparr>le_child = c, le_limit = lim, le_offset = off, le_skipped = k, le_yielded = y\<rparr> box_limit (limit_reset rst)"
| "node_reset rst (XSort ks out c) =
     reset_as \<lparr>so_child = c, so_keys = ks, so_output = out\<rparr> box_sort (sort_reset rst)"
| "node_reset rst (XAggregate gb fs out c) =
     reset_as \<lparr>ag_child = c, ag_group_by = gb, ag_funcs = fs, ag_output = out\<rparr> box_aggregate (aggregate_reset rst)"
| "node_reset rst (XJoin l r jt cond bl ms q n w) =
     reset_as \<lparr>jn_left = l, jn_right = r, jn_type = jt, jn_condition = cond, jn_block = bl, jn_matches = ms,
       jn_queue = q, jn_block_size = n, jn_right_len = w\<rparr> box_join (join_reset rst rst)"
| "node_reset rst (XInsert table sc c) =
     reset_as \<lparr>ins_child = c, ins_table = table, ins_schema = sc\<rparr> box_insert (insert_reset rst)"
| "node_reset rst (XUpdate table sc as c) =
     reset_as \<lparr>up_child = c, up_table = table, up_schema = sc, up_assigns = as\<rparr> box_update (update_reset rst)"
| "node_reset rst (XDelete table sc c) =
     reset_as \<lparr>del_child = c, del_table = table, del_schema = sc\<rparr> box_delete (delete_reset rst)"

primrec exec_reset :: "nat \<Rightarrow> executor reset" where
  "exec_reset 0 = panic"
| "exec_reset (Suc n) = (\<lambda>x. node_reset (exec_reset n) x x)"

primrec exec_next :: "env \<Rightarrow> nat \<Rightarrow> (executor, exec_context) row_call" where
  "exec_next ev 0 = panic"
| "exec_next ev (Suc n) = (\<lambda>(x, cx). node_next ev (exec_next ev n) (exec_reset n) x (x, cx))"

section \<open>The rows of a tree\<close>

fun node_stream :: "env \<Rightarrow> page_id set \<Rightarrow> page_id set \<Rightarrow>
    (tuple list \<Rightarrow> executor \<Rightarrow> exec_context \<Rightarrow> tuple list \<Rightarrow> bool) \<Rightarrow>
    tuple list \<Rightarrow> executor \<Rightarrow> exec_context \<Rightarrow> tuple list \<Rightarrow> bool" where
  "node_stream ev D F st R (XSeqScan x) = seq_scan_stream D F (sq_schema x) R x"
| "node_stream ev D F st R (XIndexScan x) = index_scan_stream D F (ix_schema x) (ix_op x) (ix_key x) R x"
| "node_stream ev D F st R (XFilter p c) = filter_stream p st R \<lparr>fl_predicate = p, fl_child = c\<rparr>"
| "node_stream ev D F st R (XEmit es c) = emit_stream es st R \<lparr>em_child = c, em_exprs = es\<rparr>"
| "node_stream ev D F st R (XLimit lim off k y c) = limit_stream st R
     \<lparr>le_child = c, le_limit = lim, le_offset = off, le_skipped = k, le_yielded = y\<rparr>"
| "node_stream ev D F st R (XSort ks out c) = sort_stream ks st R \<lparr>so_child = c, so_keys = ks, so_output = out\<rparr>"
| "node_stream ev D F st R (XAggregate gb fs out c) = aggregate_stream (ev_groups ev) gb fs st R
     \<lparr>ag_child = c, ag_group_by = gb, ag_funcs = fs, ag_output = out\<rparr>"
| "node_stream ev D F st R (XJoin l r jt cond bl ms q n w) = join_stream jt cond w n st st R
     \<lparr>jn_left = l, jn_right = r, jn_type = jt, jn_condition = cond, jn_block = bl, jn_matches = ms,
       jn_queue = q, jn_block_size = n, jn_right_len = w\<rparr>"
| "node_stream ev D F st R _ = (\<lambda>_ _. False)"

primrec exec_stream :: "env \<Rightarrow> page_id set \<Rightarrow> page_id set \<Rightarrow> nat \<Rightarrow>
    tuple list \<Rightarrow> executor \<Rightarrow> exec_context \<Rightarrow> tuple list \<Rightarrow> bool" where
  "exec_stream ev D F 0 = (\<lambda>_ _ _ _. False)"
| "exec_stream ev D F (Suc n) = node_stream ev D F (exec_stream ev D F n)"

lemma box_stream:
  "seq_scan_stream D F sc R x s ts \<Longrightarrow> node_stream ev D F st R (XSeqScan x) s ts"
  "index_scan_stream D F sc op k R y s ts \<Longrightarrow> node_stream ev D F st R (XIndexScan y) s ts"
  "filter_stream p st R f s ts \<Longrightarrow> node_stream ev D F st R (box_filter f) s ts"
  "emit_stream es st R e s ts \<Longrightarrow> node_stream ev D F st R (box_emit e) s ts"
  "limit_stream st R l s ts \<Longrightarrow> node_stream ev D F st R (box_limit l) s ts"
  "sort_stream ks st R o' s ts \<Longrightarrow> node_stream ev D F st R (box_sort o') s ts"
  "aggregate_stream (ev_groups ev) gb fs st R a s ts \<Longrightarrow> node_stream ev D F st R (box_aggregate a) s ts"
  "join_stream jt cond w n st st R j s ts \<Longrightarrow> node_stream ev D F st R (box_join j) s ts"
proof -
  show "seq_scan_stream D F sc R x s ts \<Longrightarrow> node_stream ev D F st R (XSeqScan x) s ts"
    by (auto simp: seq_scan_stream_def)
  show "index_scan_stream D F sc op k R y s ts \<Longrightarrow> node_stream ev D F st R (XIndexScan y) s ts"
    by (auto simp: index_scan_stream_def)
  show "filter_stream p st R f s ts \<Longrightarrow> node_stream ev D F st R (box_filter f) s ts"
    by (cases f) (auto simp: filter_stream_def)
  show "emit_stream es st R e s ts \<Longrightarrow> node_stream ev D F st R (box_emit e) s ts"
    by (cases e) (auto simp: emit_stream_def)
  show "limit_stream st R l s ts \<Longrightarrow> node_stream ev D F st R (box_limit l) s ts"
    by (cases l) (auto simp: limit_stream_def)
  show "sort_stream ks st R o' s ts \<Longrightarrow> node_stream ev D F st R (box_sort o') s ts"
    by (cases o') (auto simp: sort_stream_def)
  show "aggregate_stream (ev_groups ev) gb fs st R a s ts \<Longrightarrow> node_stream ev D F st R (box_aggregate a) s ts"
    by (cases a) (auto simp: aggregate_stream_def)
  show "node_stream ev D F st R (box_join j) s ts" if j: "join_stream jt cond w n st st R j s ts"
  proof -
    have "jn_type j = jt" "jn_condition j = cond" "jn_right_len j = w" "jn_block_size j = n"
      using j by (auto simp: join_stream_def join_at_def)
    then show ?thesis using j by (cases j) simp
  qed
qed

lemma as_source:
  assumes src: "row_source nxt rst st evolves fails" and st: "st R b s ts"
    and box: "\<And>b' s ts. st R b' s ts \<Longrightarrow> st' R (box b') s ts"
  shows "outcome (next_as b box nxt (x, s)) (\<lambda>r (x', s'). r = first ts \<and> st' R x' s' (tl ts) \<and> evolves s s')
      (\<lambda>e (x', s'). fails e \<and> evolves s s') \<and>
    (\<exists>x'. reset_as b box rst y = ret () x' \<and> st' R x' s R) \<and> (\<forall>s'. evolves s s' \<longrightarrow> st R b s' ts)"
proof (intro conjI allI impI)
  show "outcome (next_as b box nxt (x, s)) (\<lambda>r (x', s'). r = first ts \<and> st' R x' s' (tl ts) \<and> evolves s s')
      (\<lambda>e (x', s'). fails e \<and> evolves s s')"
    unfolding next_as_def outcome_focus prod.case
    by (rule outcome_weaken, rule row_source.next_stream [OF src st]) (auto intro: box)
  obtain c where "rst b = ret () c" "st R c s R" using row_source.reset_stream [OF src st] by blast
  then show "\<exists>x'. reset_as b box rst y = ret () x' \<and> st' R x' s R"
    using box by (auto simp: reset_as_def focus_def ret_def)
  show "st R b s' ts" if "evolves s s'" for s' by (rule row_source.evolves_stream [OF src st that])
qed

lemma node_source:
  assumes src: "row_source nxt rst st (cx_evolves D F (ev_pins ev)) (\<lambda>e. e = LruEviction)" and F: "F \<subseteq> ev_pins ev"
    and x: "node_stream ev D F st R x cx ts"
  shows "outcome (node_next ev nxt rst x (x, cx))
      (\<lambda>r (x', s'). r = first ts \<and> node_stream ev D F st R x' s' (tl ts) \<and> cx_evolves D F (ev_pins ev) cx s')
      (\<lambda>e (x', s'). e = LruEviction \<and> cx_evolves D F (ev_pins ev) cx s') \<and>
    (\<exists>x'. node_reset rst x x = ret () x' \<and> node_stream ev D F st R x' cx R) \<and>
    (\<forall>s'. cx_evolves D F (ev_pins ev) cx s' \<longrightarrow> node_stream ev D F st R x s' ts)"
proof (cases x)
  case (XSeqScan q)
  show ?thesis unfolding XSeqScan node_next.simps node_reset.simps node_stream.simps
    by (rule as_source [OF seq_scan_source [OF F] x [unfolded XSeqScan node_stream.simps], where st' = "node_stream ev D F st"]) (rule box_stream)
next
  case (XIndexScan q)
  show ?thesis unfolding XIndexScan node_next.simps node_reset.simps node_stream.simps
    by (rule as_source [OF index_scan_source [OF F] x [unfolded XIndexScan node_stream.simps], where st' = "node_stream ev D F st"]) (rule box_stream)
next
  case (XFilter p c)
  show ?thesis unfolding XFilter node_next.simps node_reset.simps node_stream.simps
    by (rule as_source [OF row_source.filter_source [OF src] x [unfolded XFilter node_stream.simps], where st' = "node_stream ev D F st"]) (rule box_stream)
next
  case (XEmit es c)
  show ?thesis unfolding XEmit node_next.simps node_reset.simps node_stream.simps
    by (rule as_source [OF row_source.emit_source [OF src] x [unfolded XEmit node_stream.simps], where st' = "node_stream ev D F st"]) (rule box_stream)
next
  case (XLimit lim off k y c)
  show ?thesis unfolding XLimit node_next.simps node_reset.simps node_stream.simps
    by (rule as_source [OF row_source.limit_source [OF src] x [unfolded XLimit node_stream.simps], where st' = "node_stream ev D F st"]) (rule box_stream)
next
  case (XSort ks out c)
  show ?thesis unfolding XSort node_next.simps node_reset.simps node_stream.simps
    by (rule as_source [OF row_source.sort_source [OF src] x [unfolded XSort node_stream.simps], where st' = "node_stream ev D F st"]) (rule box_stream)
next
  case (XAggregate gb fs out c)
  show ?thesis unfolding XAggregate node_next.simps node_reset.simps node_stream.simps
    by (rule as_source [OF row_source.aggregate_source [OF src] x [unfolded XAggregate node_stream.simps], where st' = "node_stream ev D F st"]) (rule box_stream)
next
  case (XJoin l r jt cond bl ms q n w)
  have j: "join_sources nxt rst st nxt rst st (cx_evolves D F (ev_pins ev)) (\<lambda>e. e = LruEviction)"
    using src src by (rule join_sources.intro)
  show ?thesis unfolding XJoin node_next.simps node_reset.simps node_stream.simps
    by (rule as_source [OF join_sources.join_source [OF j] x [unfolded XJoin node_stream.simps], where st' = "node_stream ev D F st"]) (rule box_stream)
qed (use x in simp_all)

lemma exec_source:
  assumes F: "F \<subseteq> ev_pins ev"
  shows "row_source (exec_next ev n) (exec_reset n) (exec_stream ev D F n) (cx_evolves D F (ev_pins ev)) (\<lambda>e. e = LruEviction)"
proof (induction n)
  case 0
  show ?case by unfold_locales (use cx_evolves_refl cx_evolves_trans in auto)
next
  case (Suc n)
  note node = node_source [OF Suc F]
  show ?case
  proof
    fix R x cx ts assume "exec_stream ev D F (Suc n) R x cx ts"
    from node [OF this [unfolded exec_stream.simps]]
    show "outcome (exec_next ev (Suc n) (x, cx))
        (\<lambda>r (x', s'). r = first ts \<and> exec_stream ev D F (Suc n) R x' s' (tl ts) \<and> cx_evolves D F (ev_pins ev) cx s')
        (\<lambda>e (x', s'). e = LruEviction \<and> cx_evolves D F (ev_pins ev) cx s')"
      and "\<exists>x'. exec_reset (Suc n) x = ret () x' \<and> exec_stream ev D F (Suc n) R x' cx R"
      by simp_all
    show "exec_stream ev D F (Suc n) R x s' ts" if "cx_evolves D F (ev_pins ev) cx s'" for s'
      using node [OF \<open>exec_stream ev D F (Suc n) R x cx ts\<close> [unfolded exec_stream.simps]] that by simp
  qed (use cx_evolves_refl cx_evolves_trans in blast)+
qed

interpretation executors: row_source "exec_next \<lparr>ev_pins = {}, ev_hash = hash, ev_keys = keys, ev_groups = gs\<rparr> n" "exec_reset n"
    "exec_stream \<lparr>ev_pins = {}, ev_hash = hash, ev_keys = keys, ev_groups = gs\<rparr> D {} n" "cx_evolves D {} {}" "\<lambda>e. e = LruEviction"
  for hash keys gs n D
  using exec_source [of "{}" "\<lparr>ev_pins = {}, ev_hash = hash, ev_keys = keys, ev_groups = gs\<rparr>"] by simp

end
