(* ===== verification/Planner.thy ===== *)
theory Planner
  imports Ast Plan
begin

text \<open>
  The planner of src/src/planner.rs: binding of names and literals, the choice between a
  sequential and an index scan, and the plans of the statements.

  A method of \<open>Planner\<close> takes the catalog it borrows; \<open>keys\<close> is the order in which a hash map
  is iterated and \<open>hash\<close> the hash of strings in index keys. The text of an error message does
  not hold the values the code formats into it.
\<close>

section \<open>Binding of expressions\<close>

text \<open>\<open>chars().count()\<close>: strings hold the bytes of their UTF-8 encoding.\<close>

definition char_count :: "string \<Rightarrow> nat" where
  "char_count s = length (filter (\<lambda>b. \<not> cont b) (string_bytes s))"

fun bind_literal :: "ast_literal \<Rightarrow> data_type option \<Rightarrow> u32 option \<Rightarrow> val res" where
  "bind_literal (LString s) ty len =
     (if ty = Some TVarchar \<or> ty = None then
        (case len of
           Some limit \<Rightarrow>
             if char_count s > unat limit then Err (ConstraintViolation ''VARCHAR limit exceeded'')
             else Ok (VVarchar s)
         | None \<Rightarrow> Ok (VVarchar s))
      else Err (SyntaxErr ''type mismatch; cannot coerce string literal''))"
| "bind_literal (LInt n) ty len =
     (if ty = Some TBigInt \<or> ty = None then Ok (VBigInt n)
      else if ty = Some TInt then
        (if sint n \<in> {- (2 ^ 31)..<2 ^ 31} then Ok (VInt (ucast n))
         else Err (SyntaxErr ''integer literal overflows INT type constraints''))
      else Err (SyntaxErr ''type mismatch; cannot coerce integer literal''))"
| "bind_literal LNull ty len = Ok VNull"
| "bind_literal (LBoolean b) ty len =
     (if ty = Some TBoolean \<or> ty = None then Ok (VBoolean b)
      else Err (SyntaxErr ''type mismatch; cannot coerce boolean literal''))"

definition resolve :: "column_reference \<Rightarrow> schema \<Rightarrow> nat res" where
  "resolve c sc = get_col_idx_with_qualifier (cf_qualifier c) (cf_name c) sc"

definition resolve_typed :: "column_reference \<Rightarrow> schema \<Rightarrow> (nat \<times> data_type) res" where
  "resolve_typed c sc = res_bind (resolve c sc) (\<lambda>i.
     res_bind (vec_get (sc_columns sc) i) (\<lambda>col. Ok (i, col_type col)))"

fun infer_expr_type :: "expr \<Rightarrow> schema \<Rightarrow> data_type option res" where
  "infer_expr_type (EColumn c) sc = res_bind (resolve_typed c sc) (\<lambda>(_, ty). Ok (Some ty))"
| "infer_expr_type (ELiteral _) sc = Ok None"
| "infer_expr_type (EBinaryOp _ _ _) sc = Ok (Some TBoolean)"
| "infer_expr_type _ sc = Ok None"

definition or_else :: "'a option \<Rightarrow> 'a option \<Rightarrow> 'a option" where
  "or_else a b = (case a of None \<Rightarrow> b | Some _ \<Rightarrow> a)"

fun bind_expr :: "expr \<Rightarrow> schema \<Rightarrow> data_type option \<Rightarrow> u32 option \<Rightarrow> bound_expr res" where
  "bind_expr (EColumn c) sc ty len = res_bind (resolve_typed c sc) (\<lambda>(i, t). Ok (ColumnRef i t))"
| "bind_expr (ELiteral l) sc ty len = res_bind (bind_literal l ty len) (\<lambda>v. Ok (Constant v))"
| "bind_expr (EBinaryOp l op r) sc ty len =
     res_bind (infer_expr_type r sc) (\<lambda>rt.
     res_bind (infer_expr_type l sc) (\<lambda>lt.
     res_bind (bind_expr l sc (or_else rt ty) len) (\<lambda>bl.
     res_bind (bind_expr r sc (or_else lt ty) len) (\<lambda>br.
     Ok (BinaryOp bl op br)))))"
| "bind_expr _ sc ty len = Err (SyntaxErr ''aggregate functions cannot be used in a linear context'')"

section \<open>Aggregates\<close>

fun extract_aggregates :: "expr \<Rightarrow> expr list \<Rightarrow> expr list" where
  "extract_aggregates (EBinaryOp l _ r) as = extract_aggregates r (extract_aggregates l as)"
| "extract_aggregates (ECount c) as = (if ECount c \<in> set as then as else as @ [ECount c])"
| "extract_aggregates (EAverage c) as = (if EAverage c \<in> set as then as else as @ [EAverage c])"
| "extract_aggregates _ as = as"

record aggregate_context =
  ac_group_bys :: "column_reference list"
  ac_aggregates :: "expr list"

text \<open>An aggregate is the column of the aggregated row it was computed into, and a column must
  be one of the group keys.\<close>

fun bind_emit_expr :: "expr \<Rightarrow> schema \<Rightarrow> data_type option \<Rightarrow> aggregate_context option \<Rightarrow> bound_expr res" where
  "bind_emit_expr e sc ty None = bind_expr e sc ty None"
| "bind_emit_expr e sc ty (Some ac) =
     (case position (\<lambda>a. a = e) (ac_aggregates ac) of
        Some i \<Rightarrow> Ok (ColumnRef (length (ac_group_bys ac) + i) TBigInt)
      | None \<Rightarrow> (case e of
          EColumn c \<Rightarrow>
            (case position (\<lambda>g. g = c) (ac_group_bys ac) of
               Some i \<Rightarrow> res_bind (resolve_typed c sc) (\<lambda>(_, t). Ok (ColumnRef i t))
             | None \<Rightarrow> Err (SyntaxErr ''column must appear in the GROUP BY clause or be used in an aggregate function''))
        | EBinaryOp l op r \<Rightarrow>
            res_bind (infer_expr_type r sc) (\<lambda>rt.
            res_bind (infer_expr_type l sc) (\<lambda>lt.
            res_bind (bind_emit_expr l sc (or_else rt ty) (Some ac)) (\<lambda>bl.
            res_bind (bind_emit_expr r sc (or_else lt ty) (Some ac)) (\<lambda>br.
            Ok (BinaryOp bl op br)))))
        | _ \<Rightarrow> bind_expr e sc ty None))"

fun bind_aggregate :: "schema \<Rightarrow> expr \<Rightarrow> aggregate_func res" where
  "bind_aggregate sc (ECount (Some c)) = res_bind (resolve c sc) (\<lambda>i. Ok (CountCol i))"
| "bind_aggregate sc (ECount None) = Ok CountStar"
| "bind_aggregate sc (EAverage c) = res_bind (resolve_typed c sc) (\<lambda>(i, t).
     if t = TInt \<or> t = TBigInt then Ok (AverageCol i)
     else Err (SyntaxErr ''function AVG() cannot be applied to column''))"
| "bind_aggregate sc _ = Panic"

section \<open>The choice of a scan\<close>

fun flip_op :: "binary_operator \<Rightarrow> binary_operator" where
  "flip_op OpGt = OpLt" | "flip_op OpGte = OpLte" | "flip_op OpLt = OpGt" | "flip_op OpLte = OpGte"
| "flip_op op = op"

fun column_constant :: "bound_expr \<Rightarrow> binary_operator \<Rightarrow> bound_expr \<Rightarrow> (nat \<times> binary_operator \<times> val) option" where
  "column_constant (ColumnRef i _) op (Constant v) = Some (i, op, v)"
| "column_constant (Constant v) op (ColumnRef i _) = Some (i, flip_op op, v)"
| "column_constant _ op _ = None"

fun extract_predicate :: "bound_expr \<Rightarrow> (nat \<times> binary_operator \<times> val) option" where
  "extract_predicate (BinaryOp l op r) =
     (if op \<in> {OpEq, OpGt, OpGte, OpLt, OpLte} then column_constant l op r
      else if op = OpAnd then or_else (extract_predicate l) (extract_predicate r)
      else None)"
| "extract_predicate _ = None"

text \<open>A scan upwards starts at the key, the others at the leftmost leaf.\<close>

definition start_key :: "binary_operator \<Rightarrow> u64 \<Rightarrow> u64 option res" where
  "start_key op k =
     (if op \<in> {OpEq, OpGt, OpGte} then Ok (Some k) else if op \<in> {OpLt, OpLte} then Ok None else Panic)"

fun key_of_value :: "val \<Rightarrow> u64 res" where
  "key_of_value (VBigInt n) = Ok n"
| "key_of_value (VInt n) = Ok (scast n)"
| "key_of_value _ = Err (SyntaxErr ''PRIMARY KEY must be INT or BIGINT'')"

definition build_index_or_seq_pipeline ::
    "(string \<Rightarrow> u64) \<Rightarrow> (string set \<Rightarrow> string list) \<Rightarrow> catalog \<Rightarrow> string \<Rightarrow> schema \<Rightarrow> bound_expr option \<Rightarrow> executor res" where
  "build_index_or_seq_pipeline hash keys c table sc pred =
     res_bind (get_table_root table c) (\<lambda>root.
     let seq_scan = XSeqScan (seq_scan_new (iter_new root) sc) in
     case Option.bind pred extract_predicate of
       None \<Rightarrow> Ok seq_scan
     | Some (i, op, v) \<Rightarrow>
         if Some i = sc_pk_idx sc then
           res_bind (key_of_value v) (\<lambda>k.
           res_bind (start_key op k) (\<lambda>start.
           Ok (XIndexScan (index_scan_new (iter_new_at_key root start) Primary k op sc))))
         else
           res_bind (vec_get (sc_columns sc) i) (\<lambda>col.
           let k = to_index_key hash v in
           res_bind (start_key op k) (\<lambda>start.
           case Option.bind (table_indexes table c) (index_conflict keys (col_name col)) of
             Some m \<Rightarrow> Ok (XIndexScan (index_scan_new (iter_new_at_key (im_root m) start) (Secondary root) k op sc))
           | None \<Rightarrow> Ok seq_scan)))"

section \<open>Joins\<close>

fun compute_table_reference_schema :: "catalog \<Rightarrow> table_reference \<Rightarrow> schema res" where
  "compute_table_reference_schema c (BaseTable name alias) =
     res_bind (table_schema name c) (\<lambda>sc.
     let n = (case alias of Some a \<Rightarrow> a | None \<Rightarrow> name) in
     Ok (sc\<lparr>sc_columns := map (col_table_update (\<lambda>_. Some n)) (sc_columns sc)\<rparr>))"
| "compute_table_reference_schema c (JoinTable l r jt cond) =
     res_bind (compute_table_reference_schema c l) (\<lambda>ls.
     res_bind (compute_table_reference_schema c r) (\<lambda>rs.
     Ok (schema_new (sc_columns ls @ sc_columns rs))))"

fun plan_join_execution ::
    "(string \<Rightarrow> u64) \<Rightarrow> (string set \<Rightarrow> string list) \<Rightarrow> catalog \<Rightarrow> table_reference \<Rightarrow> executor res" where
  "plan_join_execution hash keys c (BaseTable name alias) =
     res_bind (compute_table_reference_schema c (BaseTable name alias)) (\<lambda>sc.
     build_index_or_seq_pipeline hash keys c name sc None)"
| "plan_join_execution hash keys c (JoinTable l r jt cond) =
     res_bind (plan_join_execution hash keys c l) (\<lambda>lx.
     res_bind (plan_join_execution hash keys c r) (\<lambda>rx.
     res_bind (compute_table_reference_schema c l) (\<lambda>ls.
     res_bind (compute_table_reference_schema c r) (\<lambda>rs.
     res_bind (bind_expr cond (schema_new (sc_columns ls @ sc_columns rs)) (Some TBoolean) None) (\<lambda>p.
     Ok (box_join (join_new lx rx jt p (length (sc_columns rs)))))))))"

section \<open>Plans\<close>

record query_plan =
  qp_executor :: executor
  qp_schema :: schema
  qp_is_query :: bool

definition mutation_plan :: "executor \<Rightarrow> query_plan" where
  "mutation_plan x = \<lparr>qp_executor = x, qp_schema = schema_new [], qp_is_query = False\<rparr>"

definition bind_where :: "expr option \<Rightarrow> schema \<Rightarrow> bound_expr option res" where
  "bind_where w sc = (case w of
     Some e \<Rightarrow> res_bind (bind_expr e sc (Some TBoolean) None) (\<lambda>p. Ok (Some p))
   | None \<Rightarrow> Ok None)"

definition add_filter :: "bound_expr option \<Rightarrow> executor \<Rightarrow> executor" where
  "add_filter p x = (case p of Some p \<Rightarrow> box_filter (filter_new x p) | None \<Rightarrow> x)"

text \<open>The bound expression and the output column of an item of the select list.\<close>

definition plan_item :: "schema \<Rightarrow> aggregate_context option \<Rightarrow> nat \<times> derived_column \<Rightarrow> (bound_expr \<times> column) res" where
  "plan_item sc ac = (\<lambda>(idx, d).
     res_bind (infer_expr_type (dc_expr d) sc) (\<lambda>ty.
     res_bind (bind_emit_expr (dc_expr d) sc ty ac) (\<lambda>e.
     let (q, name) = (case dc_alias d of
         Some a \<Rightarrow> (None, a)
       | None \<Rightarrow> (case dc_expr d of
           EColumn c \<Rightarrow> (cf_qualifier c, cf_name c)
         | _ \<Rightarrow> (None, ''col_'' @ decimal idx))) in
     Ok (e, \<lparr>col_table = q, col_name = name, col_type = (case ty of Some t \<Rightarrow> t | None \<Rightarrow> TBigInt),
             col_length = None, col_is_pk = False\<rparr>))))"

definition sort_spec_key :: "schema \<Rightarrow> sort_specification \<Rightarrow> (nat \<times> bool) res" where
  "sort_spec_key sc s = res_bind (resolve (ss_column s) sc) (\<lambda>i. Ok (i, ss_descending s))"

definition add_sort :: "schema \<Rightarrow> sort_specification list \<Rightarrow> executor \<Rightarrow> executor res" where
  "add_sort sc specs x =
     (if specs = [] then Ok x
      else res_bind (res_map (sort_spec_key sc) specs) (\<lambda>ks. Ok (box_sort (sort_new x ks))))"

definition add_limit :: "nat option \<Rightarrow> nat option \<Rightarrow> executor \<Rightarrow> executor" where
  "add_limit lim off x = (if lim \<noteq> None \<or> off \<noteq> None then box_limit (limit_new x lim off) else x)"

definition add_aggregate :: "schema \<Rightarrow> column_reference list \<Rightarrow> expr list \<Rightarrow> executor \<Rightarrow> executor res" where
  "add_aggregate sc gbs as x =
     res_bind (res_map (bind_aggregate sc) as) (\<lambda>fs.
     res_bind (res_map (\<lambda>g. resolve g sc) gbs) (\<lambda>gb.
     Ok (box_aggregate (aggregate_new x gb fs))))"

definition is_star :: "derived_column \<Rightarrow> bool" where
  "is_star d = (case dc_expr d of EColumn c \<Rightarrow> cf_name c = ''*'' | _ \<Rightarrow> False)"

definition plan_source ::
    "(string \<Rightarrow> u64) \<Rightarrow> (string set \<Rightarrow> string list) \<Rightarrow> catalog \<Rightarrow> table_reference \<Rightarrow> schema \<Rightarrow> bound_expr option \<Rightarrow> executor res" where
  "plan_source hash keys c from sc pred = (case from of
     BaseTable name _ \<Rightarrow> build_index_or_seq_pipeline hash keys c name sc pred
   | JoinTable _ _ _ _ \<Rightarrow> plan_join_execution hash keys c from)"

text \<open>Projection, ORDER BY and LIMIT, over the filtered and aggregated rows.\<close>

definition plan_output ::
    "select_stmt \<Rightarrow> schema \<Rightarrow> aggregate_context option \<Rightarrow> executor \<Rightarrow> query_plan res" where
  "plan_output s sc ac x =
     res_bind (res_map (plan_item sc ac) (enumerate 0 (se_list s))) (\<lambda>items.
     let out = schema_new (map snd items) in
     res_bind (add_sort out (se_order_by s) (box_emit (emit_new x (map fst items)))) (\<lambda>x.
     Ok \<lparr>qp_executor = add_limit (se_limit s) (se_offset s) x, qp_schema = out, qp_is_query = True\<rparr>))"

definition plan_select ::
    "(string \<Rightarrow> u64) \<Rightarrow> (string set \<Rightarrow> string list) \<Rightarrow> catalog \<Rightarrow> select_stmt \<Rightarrow> query_plan res" where
  "plan_select hash keys c s = (case se_from s of
     None \<Rightarrow> Err (NotImplementedYet ''SELECT without FROM is not supported'')
   | Some from \<Rightarrow>
       res_bind (compute_table_reference_schema c from) (\<lambda>sc.
       res_bind (bind_where (se_where s) sc) (\<lambda>pred.
       res_bind (plan_source hash keys c from sc pred) (\<lambda>x.
       res_bind (vec_get (se_list s) 0) (\<lambda>item.
       let as = fold extract_aggregates (map dc_expr (se_list s)) [];
           aggregated = (se_group_by s \<noteq> [] \<or> as \<noteq> []) in
       if is_star item \<and> aggregated
       then Err (SyntaxErr ''cannot use 'SELECT *' with GROUP BY or aggregate functions'')
       else
         res_bind (if aggregated then add_aggregate sc (se_group_by s) as (add_filter pred x)
                   else Ok (add_filter pred x)) (\<lambda>x.
         if length (se_list s) = 1 \<and> is_star item
         then Ok \<lparr>qp_executor = x, qp_schema = sc, qp_is_query = True\<rparr>
         else plan_output s sc
           (if aggregated then Some \<lparr>ac_group_bys = se_group_by s, ac_aggregates = as\<rparr> else None) x))))))"

text \<open>A row of VALUES: the target columns take their expressions, and the others are null.\<close>

definition plan_values :: "schema \<Rightarrow> nat list \<Rightarrow> expr list \<Rightarrow> bound_expr list res" where
  "plan_values sc targets es =
     (if length es \<noteq> length targets then Err (SyntaxErr ''INSERT has more/less expressions than target columns'')
      else res_fold (\<lambda>(i, e) row.
             res_bind (vec_get (sc_columns sc) i) (\<lambda>col.
             res_bind (bind_expr e sc (Some (col_type col)) (col_length col)) (\<lambda>b.
             Ok (row[i := b])))) (zip targets es) (replicate (length (sc_columns sc)) (Constant VNull)))"

definition plan_insert :: "catalog \<Rightarrow> insert_stmt \<Rightarrow> query_plan res" where
  "plan_insert c s =
     res_bind (table_schema (is_table s) c) (\<lambda>sc.
     res_bind (if is_columns s = [] then Ok [0..<length (sc_columns sc)]
               else res_map (\<lambda>name. get_col_idx name sc) (is_columns s)) (\<lambda>targets.
     res_bind (res_map (plan_values sc targets) (is_values s)) (\<lambda>rows.
     Ok (mutation_plan (box_insert (insert_new (XValues (values_new rows)) (is_table s) sc))))))"

definition plan_delete ::
    "(string \<Rightarrow> u64) \<Rightarrow> (string set \<Rightarrow> string list) \<Rightarrow> catalog \<Rightarrow> delete_stmt \<Rightarrow> query_plan res" where
  "plan_delete hash keys c s =
     res_bind (table_schema (ds_table s) c) (\<lambda>sc.
     res_bind (bind_where (ds_where s) sc) (\<lambda>pred.
     res_bind (build_index_or_seq_pipeline hash keys c (ds_table s) sc pred) (\<lambda>x.
     Ok (mutation_plan (box_delete (delete_new (add_filter pred x) (ds_table s) sc))))))"

definition bind_assignment :: "schema \<Rightarrow> assignment \<Rightarrow> exec_assignment res" where
  "bind_assignment sc a =
     res_bind (get_col_idx (as_column a) sc) (\<lambda>i.
     res_bind (vec_get (sc_columns sc) i) (\<lambda>col.
     res_bind (bind_expr (as_value a) sc (Some (col_type col)) (col_length col)) (\<lambda>b. Ok (i, b))))"

definition plan_update ::
    "(string \<Rightarrow> u64) \<Rightarrow> (string set \<Rightarrow> string list) \<Rightarrow> catalog \<Rightarrow> update_stmt \<Rightarrow> query_plan res" where
  "plan_update hash keys c s =
     res_bind (table_schema (us_table s) c) (\<lambda>sc.
     res_bind (bind_where (us_where s) sc) (\<lambda>pred.
     res_bind (build_index_or_seq_pipeline hash keys c (us_table s) sc pred) (\<lambda>x.
     res_bind (res_map (bind_assignment sc) (us_assignments s)) (\<lambda>as.
     Ok (mutation_plan (box_update (update_new (add_filter pred x) (us_table s) sc as)))))))"

definition plan_column :: "column_definition \<Rightarrow> column res" where
  "plan_column d =
     (if cd_is_pk d \<and> cd_type d \<notin> {TBigInt, TInt} then Err (SyntaxErr ''PRIMARY KEY must be INT or BIGINT'')
      else Ok \<lparr>col_table = None, col_name = cd_name d, col_type = cd_type d, col_length = cd_length d,
               col_is_pk = cd_is_pk d\<rparr>)"

definition plan_create_table :: "create_table_stmt \<Rightarrow> query_plan res" where
  "plan_create_table s = res_bind (res_map plan_column (ct_columns s)) (\<lambda>cols.
     Ok (mutation_plan (XCreate (create_new (CreateTableOp (ct_table s) (schema_new cols))))))"

definition plan_create_index :: "create_index_stmt \<Rightarrow> query_plan" where
  "plan_create_index s = mutation_plan
     (XCreate (create_new (CreateIndexOp (ci_table s) (ci_index s) (ci_unique s) (ci_column s))))"

definition show_column :: "string \<Rightarrow> data_type \<Rightarrow> column" where
  "show_column name ty = \<lparr>col_table = None, col_name = name, col_type = ty, col_length = None, col_is_pk = False\<rparr>"

definition plan_statement ::
    "(string \<Rightarrow> u64) \<Rightarrow> (string set \<Rightarrow> string list) \<Rightarrow> catalog \<Rightarrow> statement \<Rightarrow> query_plan res" where
  "plan_statement hash keys c stmt = (case stmt of
     CreateTable s \<Rightarrow> plan_create_table s
   | CreateIndex s \<Rightarrow> Ok (plan_create_index s)
   | Select s \<Rightarrow> plan_select hash keys c s
   | Insert s \<Rightarrow> plan_insert c s
   | Delete s \<Rightarrow> plan_delete hash keys c s
   | Update s \<Rightarrow> plan_update hash keys c s
   | DropTable table \<Rightarrow> Ok (mutation_plan (XDrop (drop_new table)))
   | ShowTables \<Rightarrow> Ok \<lparr>qp_executor = XShowTables show_new,
       qp_schema = schema_new [show_column ''table_name'' TVarchar], qp_is_query = True\<rparr>
   | ShowIndexes \<Rightarrow> Ok \<lparr>qp_executor = XShowIndexes show_new,
       qp_schema = schema_new [show_column ''table_name'' TVarchar, show_column ''index_name'' TVarchar,
         show_column ''column_name'' TVarchar, show_column ''is_unique'' TBoolean], qp_is_query = True\<rparr>
   | _ \<Rightarrow> Err (NotImplementedYet ''only select statements are currently supported by the planner''))"

end
