(* ===== verification/Queries.thy ===== *)
theory Queries
  imports Planner Example
begin

text \<open>
  What planned queries compute: binding is type sound, and the plan of a query, whichever scan
  it uses, yields the rows the query asks for.
\<close>

section \<open>The predicate an index can serve\<close>

lemma and_true: "eval_binary_op a OpAnd b = Ok (VBoolean True) \<Longrightarrow> a = VBoolean True \<and> b = VBoolean True"
  by (cases a rule: kleene.cases; cases b rule: kleene.cases)
    (simp_all add: eval_binary_op_def eval_logical_op_def)

lemma flip_compare:
  "op \<in> {OpEq, OpGt, OpGte, OpLt, OpLte} \<Longrightarrow>
   flip_op op \<in> {OpEq, OpGt, OpGte, OpLt, OpLte} \<and> eval_binary_op a (flip_op op) b = eval_binary_op b op a"
  by (auto simp: eval_binary_op_def)

lemma column_constant_sound:
  "column_constant l op r = Some (i, op', v) \<Longrightarrow> op \<in> {OpEq, OpGt, OpGte, OpLt, OpLte} \<Longrightarrow>
   evaluate (BinaryOp l op r) vs = Ok (VBoolean True) \<Longrightarrow>
   i < length vs \<and> op' \<in> {OpEq, OpGt, OpGte, OpLt, OpLte} \<and> eval_binary_op (vs ! i) op' v = Ok (VBoolean True)"
  using flip_compare [of op] by (cases "(l, op, r)" rule: column_constant.cases) (auto split: if_splits)

lemma extract_predicate_sound:
  "extract_predicate p = Some (i, op, v) \<Longrightarrow> evaluate p vs = Ok (VBoolean True) \<Longrightarrow>
   i < length vs \<and> op \<in> {OpEq, OpGt, OpGte, OpLt, OpLte} \<and> eval_binary_op (vs ! i) op v = Ok (VBoolean True)"
proof (induction p rule: extract_predicate.induct)
  case (1 l op' r)
  show ?case
  proof (cases "op' = OpAnd")
    case True
    obtain a b where "evaluate l vs = Ok a" "evaluate r vs = Ok b" "eval_binary_op a op' b = Ok (VBoolean True)"
      using 1(4) by (auto simp: res_bind_eq_Ok)
    with and_true [of a b] True have "evaluate l vs = Ok (VBoolean True)" "evaluate r vs = Ok (VBoolean True)" by auto
    then show ?thesis using 1 True by (auto simp: or_else_def split: option.splits)
  next
    case False
    then have op: "op' \<in> {OpEq, OpGt, OpGte, OpLt, OpLte}" "column_constant l op' r = Some (i, op, v)"
      using 1(3) by (auto split: if_splits)
    show ?thesis by (rule column_constant_sound [OF op(2,1) 1(4)])
  qed
qed simp_all

lemma extract_predicate_typed:
  "extract_predicate p = Some (i, op, v) \<Longrightarrow> expr_ok cols p TBoolean \<Longrightarrow> i < length cols \<and> has_type v (cols ! i)"
proof (induction p rule: extract_predicate.induct)
  case (1 l op' r)
  show ?case
  proof (cases "op' = OpAnd")
    case True
    then show ?thesis using 1 by (auto simp: or_else_def split: option.splits)
  next
    case False
    then have op: "op' \<in> {OpEq, OpGt, OpGte, OpLt, OpLte}" "column_constant l op' r = Some (i, op, v)"
      using 1(3) by (auto split: if_splits)
    with 1(4) show ?thesis by (cases "(l, op', r)" rule: column_constant.cases) auto
  qed
qed simp_all

section \<open>Keys and their order\<close>

lemma sint_small: "k < 2 ^ 63 \<Longrightarrow> sint (k :: 64 word) = uint k"
proof -
  assume k: "k < 2 ^ 63"
  then have "uint k < 2 ^ 63" by (simp add: word_less_def)
  moreover have "- (2 ^ 63) \<le> uint k" by (rule order_trans [OF _ uint_ge_0]) simp
  ultimately show "sint k = uint k"
    using signed_take_bit_int_eq_self [of 63 "uint k"] by (simp add: sint_uint)
qed

lemma key_in_range:
  assumes "has_type a ty" "has_type v ty" "key_of_value a = Ok k" "key_of_value v = Ok k'"
    "eval_binary_op a op v = Ok (VBoolean True)" "op \<in> {OpEq, OpGt, OpGte, OpLt, OpLte}"
    "op = OpEq \<or> k < 2 ^ 63 \<and> k' < 2 ^ 63"
  shows "in_range op k' k"
proof -
  have less: "a < v \<longleftrightarrow> sint k < sint k'" "a \<le> v \<longleftrightarrow> sint k \<le> sint k'"
    using assms(1-4) by (cases a; cases v; force simp: has_type_def less_val_def less_eq_val_def sint_scast_i32)+
  have eq: "a = v \<Longrightarrow> k = k'" using assms(3,4) by simp
  have ord: "sint k < sint k' \<longleftrightarrow> k < k'" "sint k \<le> sint k' \<longleftrightarrow> k \<le> k'" if "k < 2 ^ 63" "k' < 2 ^ 63"
    using that by (simp_all add: sint_small word_less_def word_le_def)
  show ?thesis
    using assms(5-7) less eq ord by (auto simp: eval_binary_op_def res_bind_eq_Ok not_less not_le split: if_splits)
qed

text \<open>The rows of a table are typed and carry their keys.\<close>

lemma decode_value_typed: "decode_value ty bs = Ok (v, rest) \<Longrightarrow> has_type v ty"
  by (auto simp: decode_value_def has_type_def res_bind_eq_Ok split: if_splits data_type.splits)

lemma decode_values_typed: "decode_values cols bs = Ok vs \<Longrightarrow> list_all2 has_type vs (map col_type cols)"
  by (induction cols arbitrary: bs vs) (auto simp: res_bind_eq_Ok decode_value_typed split: prod.splits)

lemma row_of_typed: "row_of sc c = Ok t \<Longrightarrow>
    list_all2 has_type (tp_values t) (map col_type (sc_columns sc)) \<and> tp_row_id t = Some (row_id c)"
  by (auto simp: row_of_def decode_row_def tuple_decode_def res_bind_eq_Ok tuple_new_def decode_values_typed)

lemma decode_values_rename: "decode_values (map (col_table_update f) cols) bs = decode_values cols bs"
  by (induction cols arbitrary: bs) simp_all

lemma row_of_rename: "row_of (sc\<lparr>sc_columns := map (col_table_update f) (sc_columns sc)\<rparr>) = row_of sc"
  by (rule ext) (simp add: row_of_def decode_row_def tuple_decode_def decode_values_rename)

lemma rows_of_rename: "rows_of (sc\<lparr>sc_columns := map (col_table_update f) (sc_columns sc)\<rparr>) = rows_of sc"
  by (rule ext) (simp add: rows_of_def row_of_rename)
section \<open>Typing\<close>

text \<open>A source expression whose columns have types that fit: the two sides of a comparison
  agree, and the operands of AND and OR are conditions. Literals fit wherever they stand.\<close>

fun cols_typed :: "schema \<Rightarrow> expr \<Rightarrow> data_type \<Rightarrow> bool" where
  "cols_typed sc (EColumn c) ty \<longleftrightarrow> (\<exists>i. resolve_typed c sc = Ok (i, ty))"
| "cols_typed sc (EBinaryOp l op r) ty \<longleftrightarrow> ty = TBoolean \<and>
     (if op = OpAnd \<or> op = OpOr then cols_typed sc l TBoolean \<and> cols_typed sc r TBoolean
      else (\<exists>t \<in> {TBigInt, TInt, TBoolean, TVarchar}. cols_typed sc l t \<and> cols_typed sc r t))"
| "cols_typed sc _ ty \<longleftrightarrow> True"

lemma bind_literal_typed: "bind_literal l (Some ty) len = Ok v \<Longrightarrow> has_type v ty"
proof (cases l)
  case (LString s)
  then show "bind_literal l (Some ty) len = Ok v \<Longrightarrow> has_type v ty"
    by (cases "ty = TVarchar"; cases len) (auto simp: has_type_def split: if_splits)
next
  case (LInt n)
  then show "bind_literal l (Some ty) len = Ok v \<Longrightarrow> has_type v ty"
    by (cases ty) (auto simp: has_type_def simp del: atLeastLessThan_iff split: if_splits)
qed (cases ty; auto simp: has_type_def)+

lemma bind_known:
  "infer_expr_type e sc = Ok (Some s) \<Longrightarrow> cols_typed sc e t \<Longrightarrow>
   bind_expr e sc (Some TBoolean) len = bind_expr e sc (Some t) len"
proof (cases e)
  case (EBinaryOp l op r)
  then show "cols_typed sc e t \<Longrightarrow> bind_expr e sc (Some TBoolean) len = bind_expr e sc (Some t) len"
    by (simp only: cols_typed.simps)
qed simp_all

lemma resolve_typed_bound:
  "resolve_typed c sc = Ok (i, ty) \<longleftrightarrow> resolve c sc = Ok i \<and> i < length (sc_columns sc) \<and> col_type (sc_columns sc ! i) = ty"
  by (auto simp: resolve_typed_def res_bind_eq_Ok vec_get_def split: if_splits)

lemma infer_typed:
  "infer_expr_type e sc = Ok ty \<Longrightarrow> cols_typed sc e t \<Longrightarrow> ty = None \<or> ty = Some t"
  by (cases e) (auto simp: res_bind_eq_Ok)

lemma infer_None: "infer_expr_type e sc = Ok None \<Longrightarrow> bind_expr e sc ty len = Ok b \<Longrightarrow> \<exists>l. e = ELiteral l"
  by (cases e) (auto simp: res_bind_eq_Ok)

lemma bind_expr_ok:
  "bind_expr e sc (Some ty) len = Ok b \<Longrightarrow> cols_typed sc e ty \<Longrightarrow> expr_ok (map col_type (sc_columns sc)) b ty"
proof (induction e arbitrary: ty b)
  case (EColumn c)
  then show ?case by (auto simp: res_bind_eq_Ok resolve_typed_bound)
next
  case (ELiteral l)
  then show ?case using bind_literal_typed by (auto simp: res_bind_eq_Ok)
next
  case (EBinaryOp l op r)
  then obtain rt lt bl br where b: "infer_expr_type r sc = Ok rt" "infer_expr_type l sc = Ok lt"
    "bind_expr l sc (or_else rt (Some ty)) len = Ok bl" "bind_expr r sc (or_else lt (Some ty)) len = Ok br"
    "b = BinaryOp bl op br" by (auto simp: res_bind_eq_Ok)
  have ty: "ty = TBoolean" using EBinaryOp.prems(2) by simp
  have sides: "expr_ok (map col_type (sc_columns sc)) bl t \<and> expr_ok (map col_type (sc_columns sc)) br t"
    if t: "cols_typed sc l t" "cols_typed sc r t" and some: "rt = None \<Longrightarrow> lt = None \<Longrightarrow> t = ty"
    for t
  proof -
    have l: "bind_expr l sc (Some t) len = Ok bl"
    proof (cases rt)
      case None
      show ?thesis
      proof (cases lt)
        case None
        with \<open>rt = None\<close> b(3) some show ?thesis by (simp add: or_else_def)
      next
        case (Some s)
        then show ?thesis using b(2,3) bind_known [of l sc s t] t(1) ty \<open>rt = None\<close> by (simp add: or_else_def)
      qed
    next
      case (Some s)
      then show ?thesis using infer_typed [OF b(1) t(2)] b(3) by (simp add: or_else_def)
    qed
    have r: "bind_expr r sc (Some t) len = Ok br"
    proof (cases lt)
      case None
      show ?thesis
      proof (cases rt)
        case None
        with \<open>lt = None\<close> b(4) some show ?thesis by (simp add: or_else_def)
      next
        case (Some s)
        then show ?thesis using b(1,4) bind_known [of r sc s t] t(2) ty \<open>lt = None\<close> by (simp add: or_else_def)
      qed
    next
      case (Some s)
      then show ?thesis using infer_typed [OF b(2) t(1)] b(4) by (simp add: or_else_def)
    qed
    from EBinaryOp.IH(1) [OF l t(1)] EBinaryOp.IH(2) [OF r t(2)] show ?thesis ..
  qed
  show ?case
  proof (cases "op = OpAnd \<or> op = OpOr")
    case True
    then show ?thesis using sides [of TBoolean] EBinaryOp.prems(2) b(5) ty by simp
  next
    case False
    then obtain t where t: "cols_typed sc l t" "cols_typed sc r t" using EBinaryOp.prems(2) by auto
    show ?thesis
    proof (cases "rt = None \<and> lt = None")
      case True
      then obtain x y where "l = ELiteral x" "r = ELiteral y" using b infer_None by metis
      then show ?thesis using sides [of TBoolean] False b(5) ty by simp
    next
      case False
      then have "expr_ok (map col_type (sc_columns sc)) bl t \<and> expr_ok (map col_type (sc_columns sc)) br t"
        using sides [OF t] by blast
      moreover have "t \<in> {TBigInt, TInt, TBoolean, TVarchar}" by (cases t) simp_all
      ultimately have "\<exists>t \<in> {TBigInt, TInt, TBoolean, TVarchar}.
          expr_ok (map col_type (sc_columns sc)) bl t \<and> expr_ok (map col_type (sc_columns sc)) br t" by (rule bexI)
      with \<open>\<not> (op = OpAnd \<or> op = OpOr)\<close> b(5) ty show ?thesis by (simp only: expr_ok.simps if_False simp_thms)
    qed
  qed
qed simp_all

section \<open>The choice of a scan does not show\<close>

text \<open>The rows of a tree as a cursor finds them: in key order from the leftmost leaf, and from any
  key on those with at least that key.\<close>

definition searchable :: "(page_id \<Rightarrow> btree_node option) \<Rightarrow> page_id \<Rightarrow> cell list \<Rightarrow> bool" where
  "searchable c root cs \<longleftrightarrow> start_cells c root None cs \<and> sorted_wrt (<) (map row_id (live_cells cs)) \<and>
     (\<forall>k. \<exists>cs'. start_cells c root (Some k) cs' \<and> live_cells cs' = filter (\<lambda>r. k \<le> row_id r) (live_cells cs))"

text \<open>A row is stored under its primary key.\<close>

definition keyed_row :: "schema \<Rightarrow> tuple \<Rightarrow> bool" where
  "keyed_row sc t \<longleftrightarrow> (\<forall>i. sc_pk_idx sc = Some i \<longrightarrow> i < length (tp_values t) \<and>
     (\<exists>k. tp_row_id t = Some k \<and> key_of_value (tp_values t ! i) = Ok k))"

text \<open>An index on the searched column is the primary key, compared for equality or with keys that
  are not negative.\<close>

definition primary_only :: "catalog \<Rightarrow> string \<Rightarrow> schema \<Rightarrow> tuple list \<Rightarrow> bound_expr option \<Rightarrow> bool" where
  "primary_only c table sc ts pred \<longleftrightarrow> (\<forall>i op v. Option.bind pred extract_predicate = Some (i, op, v) \<longrightarrow>
     (if Some i = sc_pk_idx sc
      then op = OpEq \<or> (\<forall>k. key_of_value v = Ok k \<longrightarrow> k < 2 ^ 63) \<and> (\<forall>t \<in> set ts. the (tp_row_id t) < 2 ^ 63)
      else ct_indexes c table = None))"

definition wanted :: "bound_expr option \<Rightarrow> tuple \<Rightarrow> bool" where
  "wanted pred t \<longleftrightarrow> (case pred of None \<Rightarrow> True | Some p \<Rightarrow> selects p t)"

lemma res_map_filter:
  "res_map f xs = Ok ys \<Longrightarrow> (\<And>x y. f x = Ok y \<Longrightarrow> P x = Q y) \<Longrightarrow> res_map f (filter P xs) = Ok (filter Q ys)"
  by (induction xs arbitrary: ys) (auto simp: res_bind_eq_Ok)

lemma range_cells_from:
  assumes "live_cells cs' = filter (\<lambda>r. k \<le> row_id r) (live_cells cs)" "op \<in> {OpEq, OpGt, OpGte}"
  shows "range_cells op k cs' = range_cells op k cs"
proof -
  have "(in_range op k (row_id r) \<and> k \<le> row_id r) = in_range op k (row_id r)" for r
    using assms(2) by auto
  then show ?thesis unfolding range_cells_def assms(1) filter_filter by (intro filter_cong refl) blast
qed

lemma in_range_rows:
  assumes "rows_of sc cs = Ok ts"
  shows "res_map (row_of sc) (range_cells op k cs) = Ok (filter (\<lambda>t. in_range op k (the (tp_row_id t))) ts)"
  unfolding range_cells_def
  by (rule res_map_filter [OF assms [unfolded rows_of_def]]) (use row_of_typed in auto)

lemma primary_stream:
  assumes s: "searchable (db D (cx_pool cx)) root cs" and rows: "rows_of sc cs = Ok ts"
    and inv: "pool_inv D F (cx_pool cx)" and start: "start_key op k = Ok start"
  shows "index_scan_stream D F sc op k (filter (\<lambda>t. in_range op k (the (tp_row_id t))) ts)
     (index_scan_new (iter_new_at_key root start) Primary k op sc) cx
     (filter (\<lambda>t. in_range op k (the (tp_row_id t))) ts)"
proof -
  have "\<exists>cs'. start_cells (db D (cx_pool cx)) root start cs' \<and> scannable op k cs' \<and> range_cells op k cs' = range_cells op k cs"
  proof (cases "op \<in> {OpEq, OpGt, OpGte}")
    case True
    with start have st: "start = Some k" by (simp add: start_key_def)
    obtain cs' where cs': "start_cells (db D (cx_pool cx)) root (Some k) cs'"
      "live_cells cs' = filter (\<lambda>r. k \<le> row_id r) (live_cells cs)" using s unfolding searchable_def by blast
    have "sorted_wrt (<) (map row_id (live_cells cs))" using s by (simp add: searchable_def)
    then have "scannable op k cs'" using True cs'(2)
      by (auto simp: scannable_def sorted_wrt_map sorted_wrt_filter)
    with cs' range_cells_from [OF cs'(2) True] st show ?thesis by blast
  next
    case False
    with start have "start = None" "op \<in> {OpLt, OpLte}" by (auto simp: start_key_def split: if_splits)
    with s show ?thesis by (intro exI [of _ cs]) (auto simp: searchable_def scannable_def)
  qed
  then obtain cs' where cs': "start_cells (db D (cx_pool cx)) root start cs'" "scannable op k cs'"
    "range_cells op k cs' = range_cells op k cs" by blast
  show ?thesis
    by (rule index_scan_streamI [where all = cs' and rest = cs'])
      (use cs' in_range_rows [OF rows] inv in \<open>simp_all add: index_scan_new_def iter_new_at_key_def iter_at_def\<close>)
qed

lemma seq_stream:
  assumes s: "start_cells (db D (cx_pool cx)) root None cs" and rows: "rows_of sc cs = Ok ts" and inv: "pool_inv D F (cx_pool cx)"
  shows "seq_scan_stream D F sc ts (seq_scan_new (iter_new root) sc) cx ts"
  by (rule seq_scan_streamI [where all = cs and rest = cs])
    (use assms in \<open>simp_all add: seq_scan_new_def iter_new_def iter_at_def\<close>)

lemma rows_typed:
  assumes "rows_of sc cs = Ok ts" "t \<in> set ts"
  shows "list_all2 has_type (tp_values t) (map col_type (sc_columns sc))"
proof -
  obtain i where "i < length ts" "t = ts ! i" using assms(2) by (auto simp: in_set_conv_nth)
  with res_map_nth [OF assms(1) [unfolded rows_of_def]] row_of_typed show ?thesis by metis
qed

text \<open>A row the predicate selects is in the range of the index.\<close>

lemma selected_in_range:
  assumes "extract_predicate p = Some (i, op, v)" "sc_pk_idx sc = Some i" "key_of_value v = Ok k"
    "expr_ok (map col_type (sc_columns sc)) p TBoolean" "list_all2 has_type (tp_values t) (map col_type (sc_columns sc))"
    "keyed_row sc t" "op = OpEq \<or> k < 2 ^ 63 \<and> the (tp_row_id t) < 2 ^ 63" "selects p t"
  shows "in_range op k (the (tp_row_id t))"
proof -
  have e: "evaluate p (tp_values t) = Ok (VBoolean True)" using assms(8) by (simp add: selects_def)
  note x = extract_predicate_sound [OF assms(1) e]
  have "i < length (map col_type (sc_columns sc))" "has_type v (map col_type (sc_columns sc) ! i)"
    using extract_predicate_typed [OF assms(1,4)] by auto
  note ty = this
  have "has_type (tp_values t ! i) (map col_type (sc_columns sc) ! i)"
    using list_all2_nthD [OF assms(5)] x by blast
  note tv = this
  obtain k' where k': "tp_row_id t = Some k'" "key_of_value (tp_values t ! i) = Ok k'"
    using assms(2,6) by (auto simp: keyed_row_def)
  have "in_range op k k'"
    by (rule key_in_range [OF tv ty(2) k'(2) assms(3)]) (use x assms(7) k'(1) in auto)
  then show ?thesis using k'(1) by simp
qed

lemma scan_choice:
  assumes plan: "build_index_or_seq_pipeline hash keys c table sc pred = Ok x"
    and root: "ct_roots c table = Some root" and s: "searchable (db D (cx_pool cx)) root cs"
    and rows: "rows_of sc cs = Ok ts" and inv: "pool_inv D F (cx_pool cx)"
    and keyed: "\<forall>t \<in> set ts. keyed_row sc t" and prim: "primary_only c table sc ts pred"
    and typed: "\<And>p. pred = Some p \<Longrightarrow> expr_ok (map col_type (sc_columns sc)) p TBoolean"
  obtains rs where "node_stream ev D F st rs x cx rs" "set rs \<subseteq> set ts" "filter (wanted pred) rs = filter (wanted pred) ts"
    "height x = 1"
proof (cases "x = XSeqScan (seq_scan_new (iter_new root) sc)")
  case True
  have "seq_scan_stream D F sc ts (seq_scan_new (iter_new root) sc) cx ts"
    using s by (intro seq_stream [OF _ rows inv]) (simp add: searchable_def)
  with True that [of ts] show ?thesis by (simp add: seq_scan_new_def)
next
  case False
  then obtain p i op v where p: "pred = Some p" "extract_predicate p = Some (i, op, v)"
    using plan root by (cases pred; cases "Option.bind pred extract_predicate")
      (auto simp: build_index_or_seq_pipeline_def get_table_root_def)
  have pk: "Some i = sc_pk_idx sc"
    using plan root False p prim
    by (auto simp: build_index_or_seq_pipeline_def get_table_root_def primary_only_def table_indexes_def
        res_bind_eq_Ok Let_def split: if_splits)
  then obtain k start where k: "key_of_value v = Ok k" "start_key op k = Ok start"
    "x = XIndexScan (index_scan_new (iter_new_at_key root start) Primary k op sc)"
    using plan root p by (auto simp: build_index_or_seq_pipeline_def get_table_root_def res_bind_eq_Ok Let_def)
  let ?rs = "filter (\<lambda>t. in_range op k (the (tp_row_id t))) ts"
  have "in_range op k (the (tp_row_id t))" if "t \<in> set ts" "selects p t" for t
    by (rule selected_in_range [OF p(2) _ k(1) typed [OF p(1)] rows_typed [OF rows]])
      (use that pk keyed prim p k(1) in \<open>auto simp: primary_only_def\<close>)
  then have "filter (wanted pred) ?rs = filter (wanted pred) ts"
    by (auto simp: wanted_def p(1) intro!: filter_cong)
  moreover have "node_stream ev D F st ?rs x cx ?rs"
    using primary_stream [OF s rows inv k(2)] by (simp add: k(3) index_scan_new_def)
  ultimately show ?thesis using that [of ?rs] by (auto simp: k(3))
qed

section \<open>The rows of a planned tree\<close>

lemma exec_filter:
  assumes "exec_stream ev D F n R c cx R" "\<forall>t \<in> set R. decides p t"
  shows "exec_stream ev D F (Suc n) (filter (selects p) R) (box_filter (filter_new c p)) cx (filter (selects p) R)"
  unfolding exec_stream.simps
  by (rule box_stream(3), rule filter_streamI) (use assms in \<open>simp_all add: filter_new_def\<close>)

lemma exec_emit:
  assumes "exec_stream ev D F n R c cx R" "res_map (project es) R = Ok us"
  shows "exec_stream ev D F (Suc n) us (box_emit (emit_new c es)) cx us"
  unfolding exec_stream.simps
  by (rule box_stream(4)) (use assms in \<open>auto simp: emit_stream_def emit_new_def\<close>)

lemma exec_limit:
  assumes "exec_stream ev D F n R c cx R"
  shows "exec_stream ev D F (Suc n) (page_rows lim off R) (box_limit (limit_new c lim off)) cx (page_rows lim off R)"
  unfolding exec_stream.simps
  by (rule box_stream(5)) (use assms in \<open>auto simp: limit_stream_def limit_new_def option.map_ident\<close>)

lemma exec_sort:
  assumes "exec_stream ev D F n R c cx R" "sort_by (compare_rows ks) R = Ok us"
  shows "exec_stream ev D F (Suc n) us (box_sort (sort_new c ks)) cx us"
  unfolding exec_stream.simps
  by (rule box_stream(6)) (use assms in \<open>auto simp: sort_stream_def sort_new_def\<close>)

lemma exec_drain:
  assumes "F \<subseteq> ev_pins ev" "exec_stream ev D F n R x cx ts"
  shows "outcome (drain (exec_next ev n) (x, cx)) (\<lambda>us (_, cx'). us = ts \<and> cx_evolves D F (ev_pins ev) cx cx')
    (\<lambda>e (_, cx'). e = LruEviction \<and> cx_evolves D F (ev_pins ev) cx cx')"
  by (rule outcome_weaken, rule row_source.drain_stream [OF exec_source [OF assms(1)] assms(2)]) auto

lemma decides_typed:
  assumes "expr_ok cols p TBoolean" "list_all2 has_type (tp_values t) cols"
  shows "decides p t"
proof -
  obtain v where "evaluate p (tp_values t) = Ok v" "kleene v \<noteq> None"
    using evaluate_has_type [OF assms(2,1)] by (auto simp: has_type_boolean)
  then show ?thesis by (cases v rule: kleene.cases) (auto simp: decides_def selects_def)
qed

text \<open>The hypotheses about a table: its tree and its rows, as the scans find them.\<close>

definition table_at ::
    "page_id set \<Rightarrow> page_id set \<Rightarrow> catalog \<Rightarrow> string \<Rightarrow> schema \<Rightarrow> exec_context \<Rightarrow> tuple list \<Rightarrow> bool" where
  "table_at D F c table sc cx ts \<longleftrightarrow> pool_inv D F (cx_pool cx) \<and> (\<forall>t \<in> set ts. keyed_row sc t) \<and>
     (\<exists>root cs. ct_roots c table = Some root \<and> searchable (db D (cx_pool cx)) root cs \<and> rows_of sc cs = Ok ts)"

lemma bind_where_ok:
  assumes "bind_where w sc = Ok pred" "\<forall>e. w = Some e \<longrightarrow> cols_typed sc e TBoolean" "pred = Some p"
  shows "expr_ok (map col_type (sc_columns sc)) p TBoolean"
  using assms by (auto simp: bind_where_def res_bind_eq_Ok bind_expr_ok split: option.splits)

lemma filtered_scan:
  assumes plan: "build_index_or_seq_pipeline hash keys c table sc pred = Ok x"
    and t: "table_at D F c table sc cx ts" and prim: "primary_only c table sc ts pred"
    and w: "bind_where w sc = Ok pred" "\<forall>e. w = Some e \<longrightarrow> cols_typed sc e TBoolean"
  shows "exec_stream ev D F (height (add_filter pred x)) (filter (wanted pred) ts) (add_filter pred x) cx (filter (wanted pred) ts)"
proof -
  note typed = bind_where_ok [OF w]
  obtain root cs where r: "ct_roots c table = Some root" "searchable (db D (cx_pool cx)) root cs" "rows_of sc cs = Ok ts"
    using t by (auto simp: table_at_def)
  have inv: "pool_inv D F (cx_pool cx)" "\<forall>t \<in> set ts. keyed_row sc t" using t by (simp_all add: table_at_def)
  obtain rs where rs: "node_stream ev D F (exec_stream ev D F 0) rs x cx rs" "set rs \<subseteq> set ts"
    "filter (wanted pred) rs = filter (wanted pred) ts" "height x = 1"
    using scan_choice [OF plan r inv prim typed] by blast
  then have x: "exec_stream ev D F (height x) rs x cx rs" by simp
  show ?thesis
  proof (cases pred)
    case None
    then have "filter (wanted pred) ts = rs" using rs(3) by (simp add: wanted_def)
    then show ?thesis using x None by (simp add: add_filter_def)
  next
    case (Some p)
    have "\<forall>t \<in> set rs. decides p t" using rs(2) decides_typed [OF typed [OF Some] rows_typed [OF r(3)]] by blast
    note f = exec_filter [OF x this]
    have "wanted pred = selects p" by (rule ext) (simp add: Some wanted_def)
    then show ?thesis using f rs(3) Some by (simp add: add_filter_def filter_new_def)
  qed
qed

text \<open>SELECT * from one table yields exactly the rows of the table that satisfy WHERE, in key
  order, so that the index search the planner may choose does not show; ORDER BY, LIMIT and
  OFFSET of such a query have no effect.\<close>

lemma select_star:
  assumes plan: "plan_select hash keys (cx_catalog cx) s = Ok plan"
    and s: "se_from s = Some (BaseTable table alias)" "se_list s = [d]" "is_star d" "se_group_by s = []"
    and sc: "compute_table_reference_schema (cx_catalog cx) (BaseTable table alias) = Ok sc"
    and t: "table_at D F (cx_catalog cx) table sc cx ts" and F: "F \<subseteq> ev_pins ev"
    and typed: "\<forall>e. se_where s = Some e \<longrightarrow> cols_typed sc e TBoolean"
    and prim: "\<forall>p. bind_where (se_where s) sc = Ok p \<longrightarrow> primary_only (cx_catalog cx) table sc ts p"
  shows "\<exists>pred. bind_where (se_where s) sc = Ok pred \<and> qp_schema plan = sc \<and>
    outcome (drain (exec_next ev (height (qp_executor plan))) (qp_executor plan, cx))
      (\<lambda>us (_, cx'). us = filter (wanted pred) ts \<and> cx_evolves D F (ev_pins ev) cx cx')
      (\<lambda>e (_, cx'). e = LruEviction \<and> cx_evolves D F (ev_pins ev) cx cx')"
proof -
  have none: "extract_aggregates (dc_expr d) [] = []"
    using s(3) by (auto simp: is_star_def split: expr.splits)
  obtain pred x where p: "bind_where (se_where s) sc = Ok pred"
    "build_index_or_seq_pipeline hash keys (cx_catalog cx) table sc pred = Ok x"
    "plan = \<lparr>qp_executor = add_filter pred x, qp_schema = sc, qp_is_query = True\<rparr>"
    using plan s none sc by (auto simp: plan_select_def res_bind_eq_Ok plan_source_def)
  from exec_drain [OF F filtered_scan [OF p(2) t _ p(1) typed]] prim p show ?thesis by auto
qed

section \<open>Projection, order and page\<close>

lemma resolve_bound: "resolve c sc = Ok i \<Longrightarrow> i < length (sc_columns sc)"
  unfolding resolve_def get_col_idx_with_qualifier_def find_col_matching
  by (cases "matching (cf_qualifier c) (cf_name c) (sc_columns sc)") (auto simp: matching_def split: list.splits dest!: arg_cong [where f = set])

lemma project_item:
  assumes "plan_item sc None (i, d) = Ok (e, col)" "cols_typed sc (dc_expr d) ty"
    "list_all2 has_type vs (map col_type (sc_columns sc))"
  shows "\<exists>v. evaluate e vs = Ok v"
proof -
  obtain t where t: "infer_expr_type (dc_expr d) sc = Ok t" "bind_expr (dc_expr d) sc t None = Ok e"
    using assms(1) by (auto simp: plan_item_def res_bind_eq_Ok Let_def split_def)
  show ?thesis
  proof (cases t)
    case None
    with t infer_None obtain l where "dc_expr d = ELiteral l" by metis
    then show ?thesis using t(2) by (auto simp: res_bind_eq_Ok)
  next
    case (Some s)
    with infer_typed [OF t(1) assms(2)] have "expr_ok (map col_type (sc_columns sc)) e ty"
      using bind_expr_ok [OF _ assms(2)] t(2) by simp
    then show ?thesis using evaluate_has_type [OF assms(3)] by blast
  qed
qed

lemma project_items:
  assumes "res_map (plan_item sc None) ids = Ok items"
    "\<forall>(i, d) \<in> set ids. \<exists>ty. cols_typed sc (dc_expr d) ty"
    "list_all2 has_type (tp_values t) (map col_type (sc_columns sc))"
  shows "\<exists>u. project (map fst items) t = Ok u \<and> length (tp_values u) = length items"
proof -
  have "\<exists>vs. res_map (\<lambda>e. evaluate e (tp_values t)) (map fst items) = Ok vs \<and> length vs = length items"
    using assms(1,2)
  proof (induction ids arbitrary: items)
    case (Cons x ids)
    then obtain y ys where y: "plan_item sc None x = Ok y" "res_map (plan_item sc None) ids = Ok ys" "items = y # ys"
      by (auto simp: res_bind_eq_Ok)
    obtain i d e col where x: "x = (i, d)" "y = (e, col)" by (cases x; cases y)
    with Cons.prems(2) obtain ty where ty: "cols_typed sc (dc_expr d) ty" by auto
    obtain v where "evaluate e (tp_values t) = Ok v"
      using project_item [OF y(1) [unfolded x] ty assms(3)] by blast
    moreover obtain vs where "res_map (\<lambda>e. evaluate e (tp_values t)) (map fst ys) = Ok vs" "length vs = length ys"
      using Cons.IH [OF y(2)] Cons.prems(2) by auto
    ultimately show ?case by (simp add: y(3) x)
  qed simp
  then show ?thesis by (auto simp: project_def tuple_new_def)
qed

lemma res_map_ex:
  "(\<And>x. x \<in> set xs \<Longrightarrow> \<exists>y. f x = Ok y \<and> P y) \<Longrightarrow> \<exists>ys. res_map f xs = Ok ys \<and> (\<forall>y \<in> set ys. P y)"
  by (induction xs) fastforce+

lemma sort_spec_key_bound:
  "res_map (sort_spec_key sc) specs = Ok ks \<Longrightarrow> k \<in> set ks \<Longrightarrow> fst k < length (sc_columns sc)"
proof (induction specs arbitrary: ks)
  case (Cons a specs)
  then obtain i ks' where i: "resolve (ss_column a) sc = Ok i" "res_map (sort_spec_key sc) specs = Ok ks'"
    "ks = (i, ss_descending a) # ks'" by (auto simp: res_bind_eq_Ok sort_spec_key_def [of sc a])
  with Cons.IH [OF i(2)] Cons.prems(2) resolve_bound [OF i(1)] show ?case by auto
qed simp


section \<open>A table of two rows\<close>

definition ex_user_data :: "u64 \<Rightarrow> bool \<Rightarrow> u8 list" where
  "ex_user_data k b = 0 # u64_to_le k @ [0, if b then 1 else 0]"

definition ex_users :: leaf_node where
  "ex_users = (new_empty_leaf 8192)\<lparr>
     lf_records := [\<lparr>row_id = 9, cell_data = ex_user_data 9 False, is_deleted = False\<rparr>,
       \<lparr>row_id = 5, cell_data = ex_user_data 5 True, is_deleted = False\<rparr>], lf_slots := [1, 0],
     lf_free := 8000, lf_dirty := False\<rparr>"

definition ex_user_schema :: schema where
  "ex_user_schema = schema_new
     [\<lparr>col_table = Some ''t'', col_name = ''id'', col_type = TBigInt, col_length = None, col_is_pk = True\<rparr>,
      \<lparr>col_table = Some ''t'', col_name = ''flag'', col_type = TBoolean, col_length = None, col_is_pk = False\<rparr>]"

definition ex_user_context :: exec_context where
  "ex_user_context = context_new (leaf_pool ex_users)
     (catalog_new\<lparr>ct_roots := [''t'' \<mapsto> 8192], ct_schemas := [''t'' \<mapsto> ex_user_schema]\<rparr>) 1"

definition ex_user :: "u64 \<Rightarrow> bool \<Rightarrow> tuple" where
  "ex_user k b = \<lparr>tp_values = [VBigInt k, VBoolean b], tp_row_id = Some k\<rparr>"

lemma ex_users_cells: "leaf_cells ex_users =
    [\<lparr>row_id = 5, cell_data = ex_user_data 5 True, is_deleted = False\<rparr>,
     \<lparr>row_id = 9, cell_data = ex_user_data 9 False, is_deleted = False\<rparr>]"
  by (simp add: leaf_cells_def ex_users_def new_empty_leaf_def)

lemma ex_users_wf: "leaf_wf ex_users"
  by (simp add: leaf_wf_def ex_users_cells cells_size_def page_sizes ex_user_data_def u64_to_le_8)
    (simp add: ex_users_def new_empty_leaf_def)

lemma ex_user_inv: "pool_inv {8192} {} (cx_pool ex_user_context)"
  using leaf_pool_inv [OF ex_users_wf] by (simp add: ex_user_context_def context_new_def)

lemma leaf_searchable:
  assumes l: "c root = Some (Leaf l)" "\<not> lf_has_next l" and sorted: "sorted_wrt (<) (map row_id (leaf_cells l))"
  shows "searchable c root (leaf_cells l)"
  unfolding searchable_def
proof (intro conjI allI)
  have ch: "leaf_chain c root [l]" using l by simp
  show "start_cells c root None (leaf_cells l)"
    unfolding start_cells_def
    by (intro exI [of _ 0] exI [of _ root] exI [of _ l] exI [of _ "[]"] conjI ch) (simp add: l)
  show "sorted_wrt (<) (map row_id (live_cells (leaf_cells l)))"
    using sorted by (simp add: live_cells_def sorted_wrt_map sorted_wrt_filter)
  fix k
  have "start_cells c root (Some k) (dropWhile (\<lambda>r. row_id r < k) (leaf_cells l))"
    unfolding start_cells_def
    by (intro exI [of _ 0] exI [of _ root] exI [of _ l] exI [of _ "[]"] conjI ch) (simp add: l)
  moreover have "live_cells (dropWhile (\<lambda>r. row_id r < k) cs) = filter (\<lambda>r. k \<le> row_id r) (live_cells cs)"
    if "sorted_wrt (<) (map row_id cs)" for cs :: "cell list"
    using that
  proof (induction cs)
    case (Cons a cs)
    show ?case
    proof (cases "row_id a < k")
      case True
      then show ?thesis using Cons by (auto dest: leD)
    next
      case False
      then have "\<forall>r \<in> set (a # cs). k \<le> row_id r" using Cons.prems by fastforce
      then have "filter (\<lambda>r. k \<le> row_id r) (live_cells (a # cs)) = live_cells (a # cs)"
        by (intro filter_True) (auto simp: live_cells_def)
      then show ?thesis using False by simp
    qed
  qed simp
  ultimately show "\<exists>cs'. start_cells c root (Some k) cs' \<and>
      live_cells cs' = filter (\<lambda>r. k \<le> row_id r) (live_cells (leaf_cells l))" using sorted by blast
qed

lemma ex_user_row: "row_of ex_user_schema \<lparr>row_id = k, cell_data = ex_user_data n b, is_deleted = d\<rparr> =
    Ok \<lparr>tp_values = [VBigInt n, VBoolean b], tp_row_id = Some k\<rparr>"
  by (simp add: row_of_def decode_row_def tuple_decode_def ex_user_schema_def schema_new_def ex_user_data_def
      decode_value_def read_exact_def u64_to_le_8 tuple_new_def)

lemma ex_user_table: "table_at {8192} {} (cx_catalog ex_user_context) ''t'' ex_user_schema ex_user_context
    [ex_user 5 True, ex_user 9 False]"
proof -
  let ?l = "reloaded_leaf ex_users"
  have l: "leaf_cells ?l = leaf_cells ex_users" "\<not> lf_has_next ?l"
    by (simp_all add: reloaded_leaf_def leaf_cells_def) (simp add: ex_users_def new_empty_leaf_def)
  have c: "db {8192} (cx_pool ex_user_context) 8192 = Some (Leaf ?l)"
    by (simp add: db_def ex_user_context_def context_new_def leaf_content)
  have "searchable (db {8192} (cx_pool ex_user_context)) 8192 (leaf_cells ?l)"
    by (rule leaf_searchable, rule c, rule l(2)) (simp add: l ex_users_cells)
  moreover have "rows_of ex_user_schema (leaf_cells ?l) = Ok [ex_user 5 True, ex_user 9 False]"
    by (simp add: l rows_of_def ex_users_cells ex_user_row ex_user_def)
  moreover have "ct_roots (cx_catalog ex_user_context) ''t'' = Some 8192"
    by (simp add: ex_user_context_def context_new_def)
  ultimately show ?thesis
    using ex_user_inv unfolding table_at_def
    by (auto simp: keyed_row_def ex_user_def ex_user_schema_def schema_new_def)
qed

definition ex_env :: env where
  "ex_env = \<lparr>ev_pins = {}, ev_hash = \<lambda>_. 0, ev_keys = sorted_list_of_set, ev_groups = \<lambda>gs. gs\<rparr>"

definition ex_column :: "string \<Rightarrow> expr" where
  "ex_column name = EColumn \<lparr>cf_qualifier = None, cf_name = name\<rparr>"

text \<open>\<open>SELECT * FROM t WHERE 6 <= id\<close>, and \<open>SELECT flag AS f FROM t WHERE id >= 1 ORDER BY f LIMIT 1\<close>.\<close>

definition ex_star :: select_stmt where
  "ex_star = \<lparr>se_list = [\<lparr>dc_expr = ex_column ''*'', dc_alias = None\<rparr>], se_from = Some (BaseTable ''t'' None),
     se_where = Some (EBinaryOp (ELiteral (LInt 6)) OpLte (ex_column ''id'')), se_group_by = [], se_order_by = [],
     se_limit = None, se_offset = None\<rparr>"

definition ex_page :: select_stmt where
  "ex_page = \<lparr>se_list = [\<lparr>dc_expr = ex_column ''flag'', dc_alias = Some ''f''\<rparr>], se_from = Some (BaseTable ''t'' None),
     se_where = Some (EBinaryOp (ex_column ''id'') OpGte (ELiteral (LInt 1))), se_group_by = [],
     se_order_by = [\<lparr>ss_column = \<lparr>cf_qualifier = None, cf_name = ''f''\<rparr>, ss_descending = False\<rparr>],
     se_limit = Some 1, se_offset = None\<rparr>"

lemma ex_user_compute: "compute_table_reference_schema (cx_catalog ex_user_context) (BaseTable ''t'' None) = Ok ex_user_schema"
  by (simp add: table_schema_def ex_user_context_def context_new_def ex_user_schema_def schema_new_def)

lemma ex_resolve: "resolve_typed \<lparr>cf_qualifier = None, cf_name = ''id''\<rparr> ex_user_schema = Ok (0, TBigInt)"
  "resolve_typed \<lparr>cf_qualifier = None, cf_name = ''flag''\<rparr> ex_user_schema = Ok (1, TBoolean)"
  by (simp_all add: resolve_typed_def resolve_def get_col_idx_with_qualifier_def ex_user_schema_def schema_new_def)

lemma ex_root: "get_table_root ''t'' (cx_catalog ex_user_context) = Ok 8192"
  by (simp add: get_table_root_def ex_user_context_def context_new_def)

lemma ex_pk: "sc_pk_idx ex_user_schema = Some 0"
  by (simp add: ex_user_schema_def schema_new_def)

lemma ex_bind:
  "bind_where (se_where ex_star) ex_user_schema = Ok (Some (BinaryOp (Constant (VBigInt 6)) OpLte (ColumnRef 0 TBigInt)))"
  "bind_where (se_where ex_page) ex_user_schema = Ok (Some (BinaryOp (ColumnRef 0 TBigInt) OpGte (Constant (VBigInt 1))))"
  by (simp_all add: bind_where_def ex_star_def ex_page_def ex_column_def ex_resolve or_else_def)

lemma ex_scan:
  assumes "extract_predicate p = Some (0, OpGte, VBigInt k)"
  shows "build_index_or_seq_pipeline hash keys (cx_catalog ex_user_context) ''t'' ex_user_schema (Some p) =
    Ok (XIndexScan (index_scan_new (iter_new_at_key 8192 (Some k)) Primary k OpGte ex_user_schema))"
  by (simp add: build_index_or_seq_pipeline_def ex_root ex_pk assms start_key_def)

definition ex_star_result :: query_plan where
  "ex_star_result =
     \<lparr>qp_executor = XFilter (BinaryOp (Constant (VBigInt 6)) OpLte (ColumnRef 0 TBigInt))
          (XIndexScan (index_scan_new (iter_new_at_key 8192 (Some 6)) Primary 6 OpGte ex_user_schema)),
        qp_schema = ex_user_schema, qp_is_query = True\<rparr>"

lemma ex_star_plan: "plan_select hash keys (cx_catalog ex_user_context) ex_star = Ok ex_star_result"
  using ex_bind(1) unfolding ex_star_def ex_column_def ex_star_result_def
  by (simp add: plan_select_def ex_user_compute plan_source_def ex_scan is_star_def add_filter_def filter_new_def
      del: compute_table_reference_schema.simps)

definition ex_page_result :: query_plan where
  "ex_page_result =
     \<lparr>qp_executor = XLimit (Some 1) None 0 0 (XSort [(0, False)] None (XEmit [ColumnRef 1 TBoolean]
         (XFilter (BinaryOp (ColumnRef 0 TBigInt) OpGte (Constant (VBigInt 1)))
           (XIndexScan (index_scan_new (iter_new_at_key 8192 (Some 1)) Primary 1 OpGte ex_user_schema))))),
        qp_schema = schema_new [show_column ''f'' TBoolean], qp_is_query = True\<rparr>"

lemma ex_page_plan: "plan_select hash keys (cx_catalog ex_user_context) ex_page = Ok ex_page_result"
  using ex_bind(2) unfolding ex_page_def ex_column_def ex_page_result_def
  by (simp add: plan_select_def ex_user_compute plan_source_def ex_scan is_star_def add_filter_def filter_new_def
      plan_output_def plan_item_def ex_resolve show_column_def add_sort_def sort_spec_key_def resolve_def
      get_col_idx_with_qualifier_def schema_new_def emit_new_def sort_new_def add_limit_def limit_new_def
      del: compute_table_reference_schema.simps)

lemma ex_primary: "primary_only c ''t'' ex_user_schema [ex_user 5 True, ex_user 9 False]
    (Some (BinaryOp (Constant (VBigInt 6)) OpLte (ColumnRef 0 TBigInt)))"
  "primary_only c ''t'' ex_user_schema [ex_user 5 True, ex_user 9 False]
    (Some (BinaryOp (ColumnRef 0 TBigInt) OpGte (Constant (VBigInt 1))))"
  by (simp_all add: primary_only_def ex_pk ex_user_def)

lemma ex_typed: "\<forall>e. se_where ex_star = Some e \<longrightarrow> cols_typed ex_user_schema e TBoolean"
  "\<forall>e. se_where ex_page = Some e \<longrightarrow> cols_typed ex_user_schema e TBoolean"
  by (auto simp: ex_star_def ex_page_def ex_column_def ex_resolve)

lemma ex_wanted:
  "filter (wanted (Some (BinaryOp (Constant (VBigInt 6)) OpLte (ColumnRef 0 TBigInt)))) [ex_user 5 True, ex_user 9 False] =
     [ex_user 9 False]"
  "filter (wanted (Some (BinaryOp (ColumnRef 0 TBigInt) OpGte (Constant (VBigInt 1))))) [ex_user 5 True, ex_user 9 False] =
     [ex_user 5 True, ex_user 9 False]"
  by (simp_all add: wanted_def selects_def ex_user_def eval_binary_op_def less_eq_val_def)

lemma two_rows: "mset out = {#a, b#} \<Longrightarrow> out = [a, b] \<or> out = [b, a]"
proof -
  assume m: "mset out = {#a, b#}"
  then have "length out = 2" by (metis size_mset size_add_mset size_empty numeral_2_eq_2)
  then obtain x y where "out = [x, y]" by (auto simp: length_Suc_conv numeral_2_eq_2)
  with m show ?thesis by (auto simp: add_eq_conv_ex)
qed


section \<open>Binding is type sound\<close>

text \<open>
  C38: Binding is type sound: an expression whose columns have fitting types, once bound to an
  expected type, evaluates on every typed row without an error or panic to null or a value of
  that type, literals having been coerced.
\<close>

lemma bind_sound:
  assumes "bind_expr e sc (Some ty) len = Ok b" "cols_typed sc e ty"
    "list_all2 has_type vs (map col_type (sc_columns sc))"
  shows "\<exists>v. evaluate b vs = Ok v \<and> has_type v ty"
  by (rule evaluate_has_type [OF assms(3) bind_expr_ok [OF assms(1,2)]])

lemma bind_sound_witness:
  "\<exists>b v. bind_expr (EBinaryOp (ELiteral (LInt 6)) OpLte (ex_column ''id'')) ex_user_schema (Some TBoolean) None = Ok b \<and>
     evaluate b [VBigInt 9, VNull] = Ok v \<and> has_type v TBoolean"
proof -
  have b: "bind_expr (EBinaryOp (ELiteral (LInt 6)) OpLte (ex_column ''id'')) ex_user_schema (Some TBoolean) None =
      Ok (BinaryOp (Constant (VBigInt 6)) OpLte (ColumnRef 0 TBigInt))"
    by (simp add: ex_column_def ex_resolve or_else_def)
  have "cols_typed ex_user_schema (EBinaryOp (ELiteral (LInt 6)) OpLte (ex_column ''id'')) TBoolean"
    by (simp add: ex_column_def ex_resolve)
  moreover have "list_all2 has_type [VBigInt 9, VNull] (map col_type (sc_columns ex_user_schema))"
    by (simp add: ex_user_schema_def schema_new_def has_type_def)
  ultimately show ?thesis using bind_sound [OF b] b by blast
qed

end
