(* ===== verification/Lexer.thy ===== *)
theory Lexer
  imports Tuples
begin

text \<open>
  The lexer of src/src/sql/lexer.rs and the tokens of src/src/sql/token.rs.

  The input is a list of characters, each its code point. The Unicode properties that the
  standard library looks up in its tables are the parameter \<open>unicode\<close>. A failed call leaves no input behind, since the parser that
  owns the lexer is dropped on the first error.
\<close>

section \<open>Tokens\<close>

datatype token =
    KSelect | KInsert | KInto | KValues | KUpdate | KSet | KDelete | KFrom | KAs | KWhere | KAnd | KOr
  | KCreate | KTable | KTables | KDatabase | KDatabases | KUse | KShow | KDrop | KIndex | KIndexes | KUnique | KOn
  | KCommit | KBegin | KTransaction | KRollback | KCount | KAvg | KOffset | KLimit | KOrder | KBy | KGroup
  | KAsc | KDesc | KInner | KLeft | KRight | KJoin | KPrimary | KKey
  | KBigIntType | KIntType | KBooleanType | KVarcharType
  | StringLit string | Ident string | IntLit i64 | BoolLit bool
  | Asterisk | Comma | Dot | LParen | RParen | SEq | SNeq | SGt | SLt | SGte | SLte | Semicolon | Eof

definition keyword_table :: "(string \<times> token) list" where
  "keyword_table =
    [(''SELECT'', KSelect), (''INSERT'', KInsert), (''INTO'', KInto), (''VALUES'', KValues), (''UPDATE'', KUpdate),
     (''SET'', KSet), (''DELETE'', KDelete), (''FROM'', KFrom), (''AS'', KAs), (''WHERE'', KWhere), (''AND'', KAnd),
     (''OR'', KOr), (''COUNT'', KCount), (''AVG'', KAvg), (''CREATE'', KCreate), (''TABLE'', KTable),
     (''DATABASE'', KDatabase), (''DATABASES'', KDatabases), (''INDEX'', KIndex), (''INDEXES'', KIndexes),
     (''UNIQUE'', KUnique), (''ON'', KOn), (''COMMIT'', KCommit), (''BEGIN'', KBegin), (''TRANSACTION'', KTransaction),
     (''ROLLBACK'', KRollback), (''OFFSET'', KOffset), (''LIMIT'', KLimit), (''ORDER'', KOrder), (''BY'', KBy),
     (''GROUP'', KGroup), (''ASC'', KAsc), (''DESC'', KDesc), (''INNER'', KInner), (''LEFT'', KLeft),
     (''RIGHT'', KRight), (''JOIN'', KJoin), (''TABLES'', KTables), (''SHOW'', KShow), (''USE'', KUse),
     (''DROP'', KDrop), (''PRIMARY'', KPrimary), (''KEY'', KKey), (''BIGINT'', KBigIntType), (''INT'', KIntType),
     (''VARCHAR'', KVarcharType), (''BOOLEAN'', KBooleanType), (''TRUE'', BoolLit True), (''FALSE'', BoolLit False)]"

section \<open>Characters\<close>

record unicode =
  uc_whitespace :: "nat \<Rightarrow> bool"
  uc_alphabetic :: "nat \<Rightarrow> bool"
  uc_numeric :: "nat \<Rightarrow> bool"
  uc_uppercase :: "nat list \<Rightarrow> nat list"

definition chars :: "string \<Rightarrow> nat list" where
  "chars s = map of_char s"

abbreviation code :: "char \<Rightarrow> nat" where "code c \<equiv> of_char c"

text \<open>The UTF-8 bytes of a character, as \<open>String::push\<close> appends them.\<close>

definition utf8_char :: "nat \<Rightarrow> u8 list" where
  "utf8_char n =
     (if n < 128 then [of_nat n]
      else if n < 2048 then [of_nat (192 + n div 64), of_nat (128 + n mod 64)]
      else if n < 65536 then [of_nat (224 + n div 4096), of_nat (128 + n div 64 mod 64), of_nat (128 + n mod 64)]
      else [of_nat (240 + n div 262144), of_nat (128 + n div 4096 mod 64), of_nat (128 + n div 64 mod 64),
            of_nat (128 + n mod 64)])"

definition push_all :: "nat list \<Rightarrow> string" where
  "push_all cs = bytes_string (concat (map utf8_char cs))"

definition is_ascii_digit :: "nat \<Rightarrow> bool" where
  "is_ascii_digit c \<longleftrightarrow> code (CHR ''0'') \<le> c \<and> c \<le> code (CHR ''9'')"

definition ident_start :: "unicode \<Rightarrow> nat \<Rightarrow> bool" where
  "ident_start u c \<longleftrightarrow> uc_alphabetic u c \<or> c = code (CHR ''_'')"

definition ident_part :: "unicode \<Rightarrow> nat \<Rightarrow> bool" where
  "ident_part u c \<longleftrightarrow> uc_alphabetic u c \<or> uc_numeric u c \<or> c = code (CHR ''_'')"

definition is_quote :: "nat \<Rightarrow> bool" where
  "is_quote c \<longleftrightarrow> c = 39 \<or> c = 34"

section \<open>The lexer\<close>

definition skip_whitespace :: "unicode \<Rightarrow> nat list \<Rightarrow> nat list" where
  "skip_whitespace u = dropWhile (uc_whitespace u)"

definition ident_token :: "unicode \<Rightarrow> nat list \<Rightarrow> token" where
  "ident_token u w = (case map_of (map (\<lambda>(s, t). (chars s, t)) keyword_table) (uc_uppercase u w) of
     Some t \<Rightarrow> t | None \<Rightarrow> Ident (push_all w))"

definition consume_ident_or_keyword :: "unicode \<Rightarrow> nat list \<Rightarrow> (token \<times> nat list) res" where
  "consume_ident_or_keyword u cs =
     Ok (ident_token u (takeWhile (ident_part u) cs), dropWhile (ident_part u) cs)"

definition number :: "nat list \<Rightarrow> nat" where
  "number ds = fold (\<lambda>d n. 10 * n + (d - code (CHR ''0''))) ds 0"

definition consume_number :: "nat list \<Rightarrow> (token \<times> nat list) res" where
  "consume_number cs =
     (let n = number (takeWhile is_ascii_digit cs) in
      if n < 2 ^ 63 then Ok (IntLit (of_nat n), dropWhile is_ascii_digit cs)
      else Err (ParseErr ''invalid integer literal''))"

definition consume_string :: "nat list \<Rightarrow> (token \<times> nat list) res" where
  "consume_string cs =
     (case dropWhile (\<lambda>c. \<not> is_quote c) (tl cs) of
        [] \<Rightarrow> Err (ParseErr ''unclosed string literal'')
      | q # rest \<Rightarrow> Ok (StringLit (push_all (takeWhile (\<lambda>c. \<not> is_quote c) (tl cs))), rest))"

text \<open>A token of one character, and one that an equals sign may follow.\<close>

definition symbol :: "nat \<Rightarrow> token option" where
  "symbol c = map_of
     [(code (CHR ''*''), Asterisk), (code (CHR '',''), Comma), (code (CHR ''(''), LParen), (code (CHR '')''), RParen),
      (code (CHR '';''), Semicolon), (code (CHR ''=''), SEq), (code (CHR ''.''), Dot)] c"

definition with_eq :: "token \<Rightarrow> token res \<Rightarrow> nat list \<Rightarrow> (token \<times> nat list) res" where
  "with_eq yes no r =
     (if r \<noteq> [] \<and> hd r = code (CHR ''='') then Ok (yes, tl r) else res_bind no (\<lambda>t. Ok (t, r)))"

definition next_token :: "unicode \<Rightarrow> nat list \<Rightarrow> (token \<times> nat list) res" where
  "next_token u cs = (case skip_whitespace u cs of
     [] \<Rightarrow> Ok (Eof, [])
   | c # r \<Rightarrow>
       case symbol c of
         Some t \<Rightarrow> Ok (t, r)
       | None \<Rightarrow>
           if c = code (CHR ''<'') then with_eq SLte (Ok SLt) r
           else if c = code (CHR ''>'') then with_eq SGte (Ok SGt) r
           else if c = code (CHR ''!'') then with_eq SNeq (Err (ParseErr ''unexpected character: ! without ='')) r
           else if is_quote c then consume_string (c # r)
           else if ident_start u c then consume_ident_or_keyword u (c # r)
           else if is_ascii_digit c then consume_number (c # r)
           else Err (ParseErr ''unrecognized character''))"

end
