(* ===== verification/Parser.thy ===== *)
theory Parser
  imports Lexer Ast StateErr
begin

text \<open>
  The recursive descent parser of src/src/sql/parser.rs.

  A parsing function is a call on the state of the parser: the rest of the input, the current
  token and the next one. The loops are partial functions, and so is the mutual recursion of
  the expression levels, which is one function with the level as its argument; that parsing
  ends on every input is a theorem. \<open>check\<close> compares the variants of tokens; every expected
  token of the code is one without content, so that it is equality here.
\<close>

section \<open>The token stream\<close>

record parser =
  ps_input :: "nat list"
  ps_curr :: token
  ps_peek :: token

type_synonym 'a parse = "(parser, 'a) call"

definition parser_new :: "unicode \<Rightarrow> nat list \<Rightarrow> parser res" where
  "parser_new u cs =
     res_bind (next_token u cs) (\<lambda>(curr, cs).
     res_bind (next_token u cs) (\<lambda>(peek, cs).
     Ok \<lparr>ps_input = cs, ps_curr = curr, ps_peek = peek\<rparr>))"

definition advance :: "unicode \<Rightarrow> unit parse" where
  "advance u =
     seq (gets (\<lambda>p. next_token u (ps_input p))) (\<lambda>r.
     seq (lift r) (\<lambda>(t, cs).
     modify (\<lambda>p. \<lparr>ps_input = cs, ps_curr = ps_peek p, ps_peek = t\<rparr>)))"

definition check :: "token \<Rightarrow> bool parse" where
  "check t = gets (\<lambda>p. ps_curr p = t)"

definition match_token :: "unicode \<Rightarrow> token \<Rightarrow> bool parse" where
  "match_token u t = seq (check t) (\<lambda>b. if b then seq (advance u) (\<lambda>_. ret True) else ret False)"

definition consume :: "unicode \<Rightarrow> token \<Rightarrow> unit parse" where
  "consume u t = seq (check t) (\<lambda>b. if b then advance u else fail (SyntaxErr ''unexpected token''))"

definition parse_identifier :: "unicode \<Rightarrow> string parse" where
  "parse_identifier u = seq (gets ps_curr) (\<lambda>t. case t of
     Ident name \<Rightarrow> seq (advance u) (\<lambda>_. ret name)
   | _ \<Rightarrow> fail (SyntaxErr ''expected identifier''))"

text \<open>A loop over items that are separated by commas.\<close>

partial_function (option) comma_list :: "unicode \<Rightarrow> 'a parse \<Rightarrow> 'a list parse" where
  "comma_list u item s =
     seq item (\<lambda>x.
     seq (match_token u Comma) (\<lambda>more s.
       if more then seq (comma_list u item) (\<lambda>xs. ret (x # xs)) s else ret [x] s)) s"

declare comma_list.simps [code]

section \<open>Expressions\<close>

definition parse_column_reference :: "unicode \<Rightarrow> column_reference parse" where
  "parse_column_reference u =
     seq (parse_identifier u) (\<lambda>name.
     seq (match_token u Dot) (\<lambda>dot.
       if dot then seq (parse_identifier u) (\<lambda>col. ret \<lparr>cf_qualifier = Some name, cf_name = col\<rparr>)
       else ret \<lparr>cf_qualifier = None, cf_name = name\<rparr>))"

definition parse_count :: "unicode \<Rightarrow> expr parse" where
  "parse_count u =
     seq (consume u LParen) (\<lambda>_.
     seq (match_token u Asterisk) (\<lambda>star.
       if star then seq (consume u RParen) (\<lambda>_. ret (ECount None))
       else seq (parse_column_reference u) (\<lambda>c. seq (consume u RParen) (\<lambda>_. ret (ECount (Some c))))))"

definition parse_avg :: "unicode \<Rightarrow> expr parse" where
  "parse_avg u =
     seq (consume u LParen) (\<lambda>_.
     seq (parse_column_reference u) (\<lambda>c.
     seq (consume u RParen) (\<lambda>_. ret (EAverage c))))"

definition literal :: "unicode \<Rightarrow> ast_literal \<Rightarrow> expr parse" where
  "literal u l = seq (advance u) (\<lambda>_. ret (ELiteral l))"

fun comparison :: "token \<Rightarrow> binary_operator option" where
  "comparison SGte = Some OpGte" | "comparison SGt = Some OpGt" | "comparison SLte = Some OpLte"
| "comparison SLt = Some OpLt" | "comparison SNeq = Some OpNeq" | "comparison SEq = Some OpEq"
| "comparison _ = None"

text \<open>The levels: OR, AND, comparisons, primaries, and the loops of OR and AND with what they
  have parsed so far.\<close>

datatype level = OrLevel | AndLevel | ComparisonLevel | PrimaryLevel | OrLoop expr | AndLoop expr

partial_function (option) parse_at :: "unicode \<Rightarrow> level \<Rightarrow> expr parse" where
  "parse_at u lvl s = (case lvl of
     OrLevel \<Rightarrow> seq (parse_at u AndLevel) (\<lambda>l. parse_at u (OrLoop l)) s
   | OrLoop l \<Rightarrow>
       seq (match_token u KOr) (\<lambda>b s.
         if b then seq (parse_at u AndLevel) (\<lambda>r. parse_at u (OrLoop (EBinaryOp l OpOr r))) s else ret l s) s
   | AndLevel \<Rightarrow> seq (parse_at u ComparisonLevel) (\<lambda>l. parse_at u (AndLoop l)) s
   | AndLoop l \<Rightarrow>
       seq (match_token u KAnd) (\<lambda>b s.
         if b then seq (parse_at u ComparisonLevel) (\<lambda>r. parse_at u (AndLoop (EBinaryOp l OpAnd r))) s else ret l s) s
   | ComparisonLevel \<Rightarrow>
       seq (parse_at u PrimaryLevel) (\<lambda>l s. case comparison (ps_curr s) of
         None \<Rightarrow> ret l s
       | Some op \<Rightarrow> seq (advance u) (\<lambda>_. seq (parse_at u PrimaryLevel) (\<lambda>r. ret (EBinaryOp l op r))) s) s
   | PrimaryLevel \<Rightarrow>
       seq (match_token u KCount) (\<lambda>count s.
         if count then parse_count u s
         else seq (match_token u KAvg) (\<lambda>avg s.
           if avg then parse_avg u s
           else (case ps_curr s of
             StringLit v \<Rightarrow> literal u (LString v) s
           | IntLit v \<Rightarrow> literal u (LInt v) s
           | BoolLit v \<Rightarrow> literal u (LBoolean v) s
           | Ident _ \<Rightarrow> seq (parse_column_reference u) (\<lambda>c. ret (EColumn c)) s
           | LParen \<Rightarrow>
               seq (advance u) (\<lambda>_. seq (parse_at u OrLevel) (\<lambda>e. seq (consume u RParen) (\<lambda>_. ret e))) s
           | _ \<Rightarrow> fail (SyntaxErr ''expected literal, identifier, or ('') s)) s) s)"

declare parse_at.simps [code]

definition parse_primary :: "unicode \<Rightarrow> expr parse" where "parse_primary u = parse_at u PrimaryLevel"
definition parse_comparison_predicate :: "unicode \<Rightarrow> expr parse" where
  "parse_comparison_predicate u = parse_at u ComparisonLevel"
definition parse_and_condition :: "unicode \<Rightarrow> expr parse" where "parse_and_condition u = parse_at u AndLevel"
definition parse_or_condition :: "unicode \<Rightarrow> expr parse" where "parse_or_condition u = parse_at u OrLevel"
definition parse_expressions :: "unicode \<Rightarrow> expr parse" where "parse_expressions u = parse_or_condition u"

section \<open>Clauses\<close>

definition parse_where_clause :: "unicode \<Rightarrow> expr option parse" where
  "parse_where_clause u =
     seq (match_token u KWhere) (\<lambda>b.
       if b then seq (parse_expressions u) (\<lambda>e. ret (Some e)) else ret None)"

definition parse_alias :: "unicode \<Rightarrow> string option parse" where
  "parse_alias u =
     seq (match_token u KAs) (\<lambda>b. if b then seq (parse_identifier u) (\<lambda>a. ret (Some a)) else ret None)"

definition parse_derived_column :: "unicode \<Rightarrow> derived_column parse" where
  "parse_derived_column u =
     seq (parse_expressions u) (\<lambda>e.
     seq (gets ps_curr) (\<lambda>t.
     seq (case t of
            Ident name \<Rightarrow> seq (advance u) (\<lambda>_. ret (Some name))
          | _ \<Rightarrow> parse_alias u) (\<lambda>alias.
     ret \<lparr>dc_expr = e, dc_alias = alias\<rparr>)))"

definition parse_select_list :: "unicode \<Rightarrow> derived_column list parse" where
  "parse_select_list u =
     seq (match_token u Asterisk) (\<lambda>star.
       if star
       then ret [\<lparr>dc_expr = EColumn \<lparr>cf_qualifier = None, cf_name = ''*''\<rparr>, dc_alias = None\<rparr>]
       else comma_list u (parse_derived_column u))"

definition parse_base_table :: "unicode \<Rightarrow> table_reference parse" where
  "parse_base_table u =
     seq (parse_identifier u) (\<lambda>name.
     seq (parse_alias u) (\<lambda>alias.
     ret (BaseTable name alias)))"

definition parse_join_type :: "unicode \<Rightarrow> join_type parse" where
  "parse_join_type u = seq (gets ps_curr) (\<lambda>t. case t of
     KRight \<Rightarrow> seq (advance u) (\<lambda>_. ret RightJoin)
   | KInner \<Rightarrow> seq (advance u) (\<lambda>_. ret InnerJoin)
   | KLeft \<Rightarrow> seq (advance u) (\<lambda>_. ret LeftJoin)
   | _ \<Rightarrow> ret InnerJoin)"

text \<open>The join tree grows to the left.\<close>

partial_function (option) parse_joins :: "unicode \<Rightarrow> table_reference \<Rightarrow> table_reference parse" where
  "parse_joins u lhs s =
     seq (parse_join_type u) (\<lambda>jt.
     seq (match_token u KJoin) (\<lambda>b s.
       if b then
         seq (parse_base_table u) (\<lambda>rhs.
         seq (consume u KOn) (\<lambda>_.
         seq (parse_expressions u) (\<lambda>cond.
         parse_joins u (JoinTable lhs rhs jt cond)))) s
       else ret lhs s)) s"

declare parse_joins.simps [code]

definition parse_from_clause :: "unicode \<Rightarrow> table_reference option parse" where
  "parse_from_clause u =
     seq (consume u KFrom) (\<lambda>_.
     seq (parse_base_table u) (\<lambda>base.
     seq (parse_joins u base) (\<lambda>from. ret (Some from))))"

definition parse_group_by :: "unicode \<Rightarrow> column_reference list parse" where
  "parse_group_by u =
     seq (match_token u KGroup) (\<lambda>b.
       if \<not> b then ret [] else seq (consume u KBy) (\<lambda>_. comma_list u (parse_column_reference u)))"

definition parse_sort_specification :: "unicode \<Rightarrow> sort_specification parse" where
  "parse_sort_specification u =
     seq (parse_column_reference u) (\<lambda>c.
     seq (match_token u KDesc) (\<lambda>desc.
     seq (if desc then ret False else match_token u KAsc) (\<lambda>_.
     ret \<lparr>ss_column = c, ss_descending = desc\<rparr>)))"

definition parse_order_by :: "unicode \<Rightarrow> sort_specification list parse" where
  "parse_order_by u =
     seq (match_token u KOrder) (\<lambda>b.
       if \<not> b then ret [] else seq (consume u KBy) (\<lambda>_. comma_list u (parse_sort_specification u)))"

definition parse_usize_literal :: "unicode \<Rightarrow> nat parse" where
  "parse_usize_literal u = seq (gets ps_curr) (\<lambda>t. case t of
     IntLit v \<Rightarrow>
       if sint v < 0 then fail (SyntaxErr ''value cannot be negative'')
       else seq (advance u) (\<lambda>_. ret (unat v))
   | _ \<Rightarrow> fail (SyntaxErr ''expected positive integer''))"

partial_function (option) limit_offset_loop ::
    "unicode \<Rightarrow> nat option \<Rightarrow> nat option \<Rightarrow> (nat option \<times> nat option) parse" where
  "limit_offset_loop u lim off s =
     (if ps_curr s = KLimit \<and> lim = None then
        seq (advance u) (\<lambda>_. seq (parse_usize_literal u) (\<lambda>n. limit_offset_loop u (Some n) off)) s
      else if ps_curr s = KOffset \<and> off = None then
        seq (advance u) (\<lambda>_. seq (parse_usize_literal u) (\<lambda>n. limit_offset_loop u lim (Some n))) s
      else ret (lim, off) s)"

declare limit_offset_loop.simps [code]

definition parse_limit_offset :: "unicode \<Rightarrow> (nat option \<times> nat option) parse" where
  "parse_limit_offset u = limit_offset_loop u None None"

section \<open>Statements\<close>

definition parse_select :: "unicode \<Rightarrow> select_stmt parse" where
  "parse_select u =
     seq (consume u KSelect) (\<lambda>_.
     seq (parse_select_list u) (\<lambda>items.
     seq (attempt (parse_from_clause u)) (\<lambda>r.
     seq (case r of Ok from \<Rightarrow> ret from
          | _ \<Rightarrow> fail (SyntaxErr ''expected FROM clause or end of statement'')) (\<lambda>from.
     seq (parse_where_clause u) (\<lambda>w.
     seq (parse_group_by u) (\<lambda>gb.
     seq (parse_order_by u) (\<lambda>ob.
     seq (parse_limit_offset u) (\<lambda>(lim, off).
     ret \<lparr>se_list = items, se_from = from, se_where = w, se_group_by = gb, se_order_by = ob,
          se_limit = lim, se_offset = off\<rparr>))))))))"

definition parse_parenthesized :: "unicode \<Rightarrow> 'a parse \<Rightarrow> 'a list parse" where
  "parse_parenthesized u item =
     seq (consume u LParen) (\<lambda>_.
     seq (comma_list u item) (\<lambda>xs.
     seq (consume u RParen) (\<lambda>_. ret xs)))"

definition parse_insert :: "unicode \<Rightarrow> insert_stmt parse" where
  "parse_insert u =
     seq (consume u KInsert) (\<lambda>_.
     seq (consume u KInto) (\<lambda>_.
     seq (parse_identifier u) (\<lambda>table.
     seq (match_token u LParen) (\<lambda>b.
     seq (if b then seq (comma_list u (parse_identifier u)) (\<lambda>cols. seq (consume u RParen) (\<lambda>_. ret cols))
          else ret []) (\<lambda>cols.
     seq (consume u KValues) (\<lambda>_.
     seq (comma_list u (parse_parenthesized u (parse_expressions u))) (\<lambda>rows.
     ret \<lparr>is_table = table, is_columns = cols, is_values = rows\<rparr>)))))))"

definition parse_assignment :: "unicode \<Rightarrow> assignment parse" where
  "parse_assignment u =
     seq (parse_identifier u) (\<lambda>col.
     seq (consume u SEq) (\<lambda>_.
     seq (parse_expressions u) (\<lambda>e.
     ret \<lparr>as_column = col, as_value = e\<rparr>)))"

definition parse_update :: "unicode \<Rightarrow> update_stmt parse" where
  "parse_update u =
     seq (consume u KUpdate) (\<lambda>_.
     seq (parse_identifier u) (\<lambda>table.
     seq (consume u KSet) (\<lambda>_.
     seq (comma_list u (parse_assignment u)) (\<lambda>as.
     seq (parse_where_clause u) (\<lambda>w.
     ret \<lparr>us_table = table, us_assignments = as, us_where = w\<rparr>)))))"

definition parse_delete :: "unicode \<Rightarrow> delete_stmt parse" where
  "parse_delete u =
     seq (consume u KDelete) (\<lambda>_.
     seq (consume u KFrom) (\<lambda>_.
     seq (parse_identifier u) (\<lambda>table.
     seq (parse_where_clause u) (\<lambda>w.
     ret \<lparr>ds_table = table, ds_where = w\<rparr>))))"

definition parse_varchar :: "unicode \<Rightarrow> u32 parse" where
  "parse_varchar u =
     seq (consume u LParen) (\<lambda>_.
     seq (gets ps_curr) (\<lambda>t. case t of
       IntLit v \<Rightarrow>
         if sint v \<le> 0 then fail (SyntaxErr ''VARCHAR length must be greater than 0'')
         else seq (advance u) (\<lambda>_. seq (consume u RParen) (\<lambda>_. ret (ucast v)))
     | _ \<Rightarrow> fail (SyntaxErr ''expected integer length for VARCHAR'')))"

definition parse_data_type :: "unicode \<Rightarrow> (data_type \<times> u32 option) parse" where
  "parse_data_type u =
     seq (gets ps_curr) (\<lambda>t.
     seq (advance u) (\<lambda>_. case t of
       KBigIntType \<Rightarrow> ret (TBigInt, None)
     | KIntType \<Rightarrow> ret (TInt, None)
     | KBooleanType \<Rightarrow> ret (TBoolean, None)
     | KVarcharType \<Rightarrow> seq (parse_varchar u) (\<lambda>n. ret (TVarchar, Some n))
     | _ \<Rightarrow> fail (SyntaxErr ''expected data type'')))"

definition parse_column_definition :: "unicode \<Rightarrow> column_definition parse" where
  "parse_column_definition u =
     seq (parse_identifier u) (\<lambda>name.
     seq (parse_data_type u) (\<lambda>(ty, len).
     seq (match_token u KPrimary) (\<lambda>pk.
     seq (if pk then consume u KKey else ret ()) (\<lambda>_.
     ret \<lparr>cd_name = name, cd_type = ty, cd_length = len, cd_is_pk = pk\<rparr>))))"

definition parse_create_table :: "unicode \<Rightarrow> create_table_stmt parse" where
  "parse_create_table u =
     seq (parse_identifier u) (\<lambda>table.
     seq (parse_parenthesized u (parse_column_definition u)) (\<lambda>cols.
     ret \<lparr>ct_table = table, ct_columns = cols\<rparr>))"

definition parse_create_index :: "unicode \<Rightarrow> create_index_stmt parse" where
  "parse_create_index u =
     seq (parse_identifier u) (\<lambda>index.
     seq (consume u KOn) (\<lambda>_.
     seq (parse_identifier u) (\<lambda>table.
     seq (consume u LParen) (\<lambda>_.
     seq (parse_identifier u) (\<lambda>col.
     seq (consume u RParen) (\<lambda>_.
     ret \<lparr>ci_index = index, ci_table = table, ci_column = col, ci_unique = False\<rparr>))))))"

definition parse_create_unique_index :: "unicode \<Rightarrow> create_index_stmt parse" where
  "parse_create_unique_index u = seq (parse_create_index u) (\<lambda>c. ret (c\<lparr>ci_unique := True\<rparr>))"

text \<open>COMMIT, BEGIN and ROLLBACK with an optional TRANSACTION, and the statements after CREATE.\<close>

definition parse_transaction :: "unicode \<Rightarrow> statement \<Rightarrow> statement parse" where
  "parse_transaction u st = seq (advance u) (\<lambda>_. seq (match_token u KTransaction) (\<lambda>_. ret st))"

definition parse_create :: "unicode \<Rightarrow> statement parse" where
  "parse_create u =
     seq (advance u) (\<lambda>_.
     seq (gets ps_curr) (\<lambda>t. case t of
       KTable \<Rightarrow> seq (advance u) (\<lambda>_. seq (parse_create_table u) (\<lambda>c. ret (CreateTable c)))
     | KUnique \<Rightarrow> seq (advance u) (\<lambda>_. seq (consume u KIndex) (\<lambda>_.
         seq (parse_create_unique_index u) (\<lambda>c. ret (CreateIndex c))))
     | KIndex \<Rightarrow> seq (advance u) (\<lambda>_. seq (parse_create_index u) (\<lambda>c. ret (CreateIndex c)))
     | KDatabase \<Rightarrow> seq (advance u) (\<lambda>_. seq (parse_identifier u) (\<lambda>name. ret (UseDatabase name)))
     | _ \<Rightarrow> fail (SyntaxErr ''expected TABLE or INDEX after CREATE'')))"

definition parse_show :: "unicode \<Rightarrow> statement parse" where
  "parse_show u =
     seq (advance u) (\<lambda>_.
     seq (match_token u KIndexes) (\<lambda>b.
       if b then ret ShowIndexes
       else seq (match_token u KTables) (\<lambda>b.
         if b then ret ShowTables
         else fail (SyntaxErr ''expected TABLES, INDEXES or DATABASES after SHOW''))))"

definition parse_statement :: "unicode \<Rightarrow> statement parse" where
  "parse_statement u = seq (gets ps_curr) (\<lambda>t. case t of
     KSelect \<Rightarrow> seq (parse_select u) (\<lambda>s. ret (Select s))
   | KInsert \<Rightarrow> seq (parse_insert u) (\<lambda>s. ret (Insert s))
   | KUpdate \<Rightarrow> seq (parse_update u) (\<lambda>s. ret (Update s))
   | KDelete \<Rightarrow> seq (parse_delete u) (\<lambda>s. ret (Delete s))
   | KCommit \<Rightarrow> parse_transaction u Commit
   | KBegin \<Rightarrow> parse_transaction u Begin
   | KRollback \<Rightarrow> parse_transaction u Rollback
   | KCreate \<Rightarrow> parse_create u
   | KDrop \<Rightarrow> seq (advance u) (\<lambda>_. seq (consume u KTable) (\<lambda>_.
       seq (parse_identifier u) (\<lambda>table. ret (DropTable table))))
   | KUse \<Rightarrow> seq (advance u) (\<lambda>_. seq (parse_identifier u) (\<lambda>name. ret (UseDatabase name)))
   | KShow \<Rightarrow> parse_show u
   | _ \<Rightarrow> fail (SyntaxErr ''unexpected token at start of statement''))"

partial_function (option) parse_script :: "unicode \<Rightarrow> statement list parse" where
  "parse_script u s =
     (if ps_curr s = Eof then ret [] s
      else seq (match_token u Semicolon) (\<lambda>b s.
        if b then parse_script u s
        else seq (parse_statement u) (\<lambda>st.
             seq (match_token u Semicolon) (\<lambda>_.
             seq (parse_script u) (\<lambda>sts. ret (st # sts)))) s) s)"

declare parse_script.simps [code]

text \<open>The front half of \<open>execute_batch\<close>: lexer, parser and all statements of the script.\<close>

definition parse_batch :: "unicode \<Rightarrow> nat list \<Rightarrow> statement list res option" where
  "parse_batch u cs = (case parser_new u cs of
     Ok p \<Rightarrow> map_option fst (parse_script u p)
   | Err e \<Rightarrow> Some (Err e)
   | Panic \<Rightarrow> Some Panic)"

end
