(* ===== verification/Parsing.thy ===== *)
theory Parsing
  imports Parser
begin

text \<open>
  Parsing ends: lexer and parser return statements or an error on every input, and never panic.
  The measure is what is left of the input, with the two tokens that are ahead of it.
\<close>

section \<open>Progress\<close>

definition pending :: "parser \<Rightarrow> nat" where
  "pending p = length (ps_input p) + (if ps_peek p = Eof then 0 else 1) + (if ps_curr p = Eof then 0 else 1)"

lemma length_dropWhile_lt: "P (hd cs) \<Longrightarrow> cs \<noteq> [] \<Longrightarrow> length (dropWhile P cs) < length cs"
  by (cases cs) (simp_all add: length_dropWhile_le le_imp_less_Suc)

lemma symbol_not_Eof: "symbol c = Some t \<Longrightarrow> t \<noteq> Eof"
  by (auto simp: symbol_def split: if_splits)

lemma ident_token_not_Eof: "ident_token u w \<noteq> Eof"
proof -
  have "Eof \<notin> snd ` set (map (\<lambda>(s, t). (chars s, t)) keyword_table)"
    by (simp add: keyword_table_def)
  then show ?thesis
    by (auto simp: ident_token_def split: option.splits dest!: map_of_SomeD) force
qed

lemma with_eq_length: "with_eq yes no r = Ok (t, cs) \<Longrightarrow> length cs \<le> length r"
  by (auto simp: with_eq_def res_bind_eq_Ok split: if_splits)

lemma with_eq_no_panic: "no \<noteq> Panic \<Longrightarrow> with_eq yes no r \<noteq> Panic"
  by (cases no) (simp_all add: with_eq_def)

lemma consume_string_length: "consume_string (c # r) = Ok (t, cs) \<Longrightarrow> length cs \<le> length r"
proof -
  assume "consume_string (c # r) = Ok (t, cs)"
  then obtain q where "dropWhile (\<lambda>c. \<not> is_quote c) r = q # cs"
    by (auto simp: consume_string_def split: list.splits)
  then show ?thesis using length_dropWhile_le [of "\<lambda>c. \<not> is_quote c" r] by simp
qed

lemma next_token_length:
  assumes "next_token u cs = Ok (t, cs')"
  shows "length cs' + (if t = Eof then 0 else 1) \<le> length cs"
proof (cases "skip_whitespace u cs")
  case Nil
  then show ?thesis using assms by (simp add: next_token_def)
next
  case (Cons c r)
  have le: "length (c # r) \<le> length cs"
    using length_dropWhile_le [of "uc_whitespace u" cs] Cons by (simp add: skip_whitespace_def)
  have "length cs' \<le> length r"
  proof (cases "symbol c")
    case (Some t')
    then show ?thesis using assms Cons by (simp add: next_token_def)
  next
    case None
    have part: "ident_start u c \<Longrightarrow> ident_part u c" by (auto simp: ident_start_def ident_part_def)
    show ?thesis
      using assms Cons None part
      by (auto simp: next_token_def consume_number_def consume_ident_or_keyword_def Let_def length_dropWhile_le
          dest!: with_eq_length consume_string_length split: if_splits)
  qed
  with le show ?thesis by simp
qed

lemma next_token_no_panic: "next_token u cs \<noteq> Panic"
  by (cases "skip_whitespace u cs"; cases "symbol (hd (skip_whitespace u cs))")
    (auto simp: next_token_def consume_number_def consume_ident_or_keyword_def consume_string_def Let_def
      with_eq_no_panic split: list.splits)

text \<open>Calls that fail or do not go back in the input, and calls that fail or go forward.\<close>

definition keeps :: "'a parse \<Rightarrow> bool" where
  "keeps m \<longleftrightarrow> (\<forall>s. outcome (m s) (\<lambda>_ s'. pending s' \<le> pending s) (\<lambda>_ _. True))"

definition eats :: "'a parse \<Rightarrow> bool" where
  "eats m \<longleftrightarrow> (\<forall>s. outcome (m s) (\<lambda>_ s'. pending s' < pending s) (\<lambda>_ _. True))"

definition eats_at :: "token \<Rightarrow> 'a parse \<Rightarrow> bool" where
  "eats_at t m \<longleftrightarrow> (\<forall>s. ps_curr s = t \<longrightarrow> outcome (m s) (\<lambda>_ s'. pending s' < pending s) (\<lambda>_ _. True))"

named_theorems progress \<open>which calls go forward in the input\<close>

lemma advance_pending:
  "outcome (advance u s) (\<lambda>_ s'. pending s' + (if ps_curr s = Eof then 0 else 1) \<le> pending s) (\<lambda>_ _. True)"
proof (cases "next_token u (ps_input s)")
  case (Ok r)
  obtain t cs where r: "r = (t, cs)" by (cases r)
  with next_token_length [of u "ps_input s" t cs] Ok show ?thesis
    by (simp add: advance_def pending_def)
qed (use next_token_no_panic in \<open>simp_all add: advance_def\<close>)

lemma keeps_simps [progress]:
  "keeps (ret x)" "keeps (fail e)" "eats (fail e)" "keeps (gets f)"
  by (simp_all add: keeps_def eats_def)

lemma eats_keeps: "eats m \<Longrightarrow> keeps m"
  unfolding eats_def keeps_def by (auto intro: outcome_weaken less_imp_le)

lemma eats_eats_at: "eats m \<Longrightarrow> eats_at t m"
  by (simp add: eats_def eats_at_def)

lemma keeps_advance [progress]: "keeps (advance u)"
  unfolding keeps_def by (auto intro: outcome_weaken [OF advance_pending])

lemma eats_advance: "t \<noteq> Eof \<Longrightarrow> eats_at t (advance u)"
  unfolding eats_at_def by (auto intro!: outcome_weaken [OF advance_pending])

lemma seq_pending:
  assumes "outcome (m s) (\<lambda>_ s'. pending s' \<le> k) (\<lambda>_ _. True)"
    "\<And>a s'. pending s' \<le> k \<Longrightarrow> outcome (f a s') (\<lambda>_. Q) (\<lambda>_ _. True)"
  shows "outcome (seq m f s) (\<lambda>_. Q) (\<lambda>_ _. True)"
  using assms by (rule outcome_seqI [where R = "\<lambda>_ s'. pending s' \<le> k"])

lemma keeps_below: "keeps m \<Longrightarrow> pending s \<le> k \<Longrightarrow> outcome (m s) (\<lambda>_ s'. pending s' \<le> k) (\<lambda>_ _. True)"
  unfolding keeps_def by (erule allE, erule outcome_weaken) simp_all

lemma eats_below: "eats m \<Longrightarrow> pending s \<le> k \<Longrightarrow> outcome (m s) (\<lambda>_ s'. pending s' < k) (\<lambda>_ _. True)"
  unfolding eats_def by (erule allE, erule outcome_weaken) simp_all

lemma eats_below_Suc: "eats m \<Longrightarrow> pending s \<le> Suc k \<Longrightarrow> outcome (m s) (\<lambda>_ s'. pending s' \<le> k) (\<lambda>_ _. True)"
  unfolding eats_def by (erule allE, erule outcome_weaken) simp_all

lemma keeps_seq [progress]: "keeps m \<Longrightarrow> (\<And>a. keeps (f a)) \<Longrightarrow> keeps (seq m f)"
  unfolding keeps_def [of "seq m f"] by (intro allI seq_pending [OF keeps_below] keeps_below) simp_all

lemma eats_then: "keeps m \<Longrightarrow> (\<And>a. eats (f a)) \<Longrightarrow> eats (seq m f)"
  unfolding eats_def [of "seq m f"] by (intro allI seq_pending [OF keeps_below] eats_below) simp_all

lemma outcome_below:
  "outcome (m s) (\<lambda>_ s'. pending s' < k) (\<lambda>_ _. True) \<Longrightarrow> (\<And>a. keeps (f a)) \<Longrightarrow>
   outcome (seq m f s) (\<lambda>_ s'. pending s' < k) (\<lambda>_ _. True)"
proof (rule outcome_seqI [where R = "\<lambda>_ s'. pending s' < k"])
  fix a s' assume "\<And>a. keeps (f a)" "pending s' < k"
  then show "outcome (f a s') (\<lambda>_ s'. pending s' < k) (\<lambda>_ _. True)"
    by (intro outcome_weaken [OF keeps_below [of "f a" s' "pending s'"]]) simp_all
qed

lemma eats_seq: "eats m \<Longrightarrow> (\<And>a. keeps (f a)) \<Longrightarrow> eats (seq m f)"
  unfolding eats_def by (blast intro: outcome_below)

lemma eats_at_seq: "eats_at t m \<Longrightarrow> (\<And>a. keeps (f a)) \<Longrightarrow> eats_at t (seq m f)"
  unfolding eats_at_def by (blast intro: outcome_below)

lemma eats_at_fail: "eats_at t (fail e)"
  by (simp add: eats_at_def)

lemma eats_curr: "(\<And>t. eats_at t (f t)) \<Longrightarrow> eats (seq (gets ps_curr) f)"
  unfolding eats_def eats_at_def by simp

lemma keeps_if [progress]: "keeps m \<Longrightarrow> keeps m' \<Longrightarrow> keeps (if b then m else m')" by simp

lemma match_token_spec:
  "t \<noteq> Eof \<Longrightarrow> outcome (match_token u t s) (\<lambda>b s'. pending s' + (if b then 1 else 0) \<le> pending s) (\<lambda>_ _. True)"
  by (auto simp: match_token_def check_def outcome_seq intro!: outcome_weaken [OF advance_pending])

lemma keeps_match [progress]: "keeps (match_token u t)"
  by (auto simp: match_token_def check_def intro!: progress)

lemma eats_match_seq:
  assumes "t \<noteq> Eof" "keeps (f True)" "eats (f False)"
  shows "eats (seq (match_token u t) f)"
  unfolding eats_def
proof (intro allI outcome_seqI, rule match_token_spec [OF assms(1)])
  fix s b s' assume "pending s' + (if b then 1 else 0) \<le> pending s"
  with assms(2,3) show "outcome (f b s') (\<lambda>_ s'. pending s' < pending s) (\<lambda>_ _. True)"
    by (cases b) (auto intro: eats_below outcome_weaken [OF keeps_below])
qed

lemma eats_consume: "t \<noteq> Eof \<Longrightarrow> eats (consume u t)"
  by (auto simp: eats_def consume_def check_def intro!: outcome_weaken [OF advance_pending])

lemma keeps_consume [progress]: "keeps (consume u t)"
  by (auto simp: consume_def check_def intro!: progress)

lemma eats_identifier: "eats (parse_identifier u)"
  unfolding parse_identifier_def
  by (rule eats_curr) (auto split: token.split intro!: progress eats_at_seq eats_advance eats_at_fail)

lemmas keeps_identifier [progress] = eats_identifier [THEN eats_keeps]

lemma eats_column_reference: "eats (parse_column_reference u)"
  unfolding parse_column_reference_def by (rule eats_seq [OF eats_identifier]) (auto intro!: progress)

lemmas keeps_column_reference [progress] = eats_column_reference [THEN eats_keeps]

lemma keeps_count [progress]: "keeps (parse_count u)"
  unfolding parse_count_def by (auto intro!: progress)

lemma keeps_avg [progress]: "keeps (parse_avg u)"
  unfolding parse_avg_def by (auto intro!: progress)

section \<open>Expressions\<close>

fun rank :: "level \<Rightarrow> nat" where
  "rank OrLevel = 3" | "rank AndLevel = 2" | "rank ComparisonLevel = 1" | "rank _ = 0"

fun in_loop :: "level \<Rightarrow> bool" where
  "in_loop (OrLoop _) = True" | "in_loop (AndLoop _) = True" | "in_loop _ = False"

lemma literal_pending: "ps_curr s \<noteq> Eof \<Longrightarrow> outcome (literal u l s) (\<lambda>_ s'. pending s' < pending s) (\<lambda>_ _. True)"
  using eats_at_seq [OF eats_advance, of "ps_curr s" "\<lambda>_. ret (ELiteral l)" u]
  by (simp add: literal_def eats_at_def keeps_simps)

lemma pending_le_less: "outcome x (\<lambda>_ s'. pending s' < k) (\<lambda>_ _. True) \<Longrightarrow> outcome x (\<lambda>_ s'. pending s' \<le> k) (\<lambda>_ _. True)"
  by (erule outcome_weaken) simp_all

text \<open>A comparison, when primaries go forward, and a primary, when nested expressions do.\<close>

lemma comparison_pending:
  assumes primary: "\<And>s'. pending s' \<le> pending s \<Longrightarrow>
      outcome (parse_at u PrimaryLevel s') (\<lambda>_ s''. pending s'' < pending s') (\<lambda>_ _. True)"
  shows "outcome (parse_at u ComparisonLevel s) (\<lambda>_ s'. pending s' < pending s) (\<lambda>_ _. True)"
  unfolding parse_at.simps [of u ComparisonLevel s] level.case
proof (rule outcome_seqI, rule primary [OF order_refl])
  fix l s1 assume s1: "pending s1 < pending s"
  have "outcome (seq (advance u) (\<lambda>_. seq (parse_at u PrimaryLevel) (\<lambda>r. ret (EBinaryOp l op r))) s1)
      (\<lambda>_ s'. pending s' < pending s) (\<lambda>_ _. True)" for op
  proof (rule outcome_seqI, rule keeps_below [OF keeps_advance order_refl])
    fix s2 assume s2: "pending s2 \<le> pending s1"
    show "outcome (seq (parse_at u PrimaryLevel) (\<lambda>r. ret (EBinaryOp l op r)) s2) (\<lambda>_ s'. pending s' < pending s) (\<lambda>_ _. True)"
      by (rule outcome_seqI, rule primary) (use s1 s2 in auto)
  qed
  then show "outcome (case comparison (ps_curr s1) of None \<Rightarrow> ret l s1
      | Some op \<Rightarrow> seq (advance u) (\<lambda>_. seq (parse_at u PrimaryLevel) (\<lambda>r. ret (EBinaryOp l op r))) s1)
    (\<lambda>_ s'. pending s' < pending s) (\<lambda>_ _. True)"
    using s1 by (simp split: option.split)
qed

lemma primary_pending:
  assumes nested: "\<And>s'. pending s' < pending s \<Longrightarrow>
      outcome (parse_at u OrLevel s') (\<lambda>_ s''. pending s'' < pending s') (\<lambda>_ _. True)"
  shows "outcome (parse_at u PrimaryLevel s) (\<lambda>_ s'. pending s' < pending s) (\<lambda>_ _. True)"
  unfolding parse_at.simps [of u PrimaryLevel s] level.case
proof (rule outcome_seqI, rule match_token_spec [of KCount], simp, split if_split, intro conjI impI)
  fix b s1 assume s1: "pending s1 + (if b then 1 else 0) \<le> pending s"
  then show "b \<Longrightarrow> outcome (parse_count u s1) (\<lambda>_ s'. pending s' < pending s) (\<lambda>_ _. True)"
    using outcome_weaken [OF keeps_below [OF keeps_count order_refl, of u s1]] by auto
  show "outcome (seq (match_token u KAvg) (\<lambda>avg s.
      if avg then parse_avg u s
      else (case ps_curr s of
         StringLit v \<Rightarrow> literal u (LString v) s
       | IntLit v \<Rightarrow> literal u (LInt v) s
       | BoolLit v \<Rightarrow> literal u (LBoolean v) s
       | Ident _ \<Rightarrow> seq (parse_column_reference u) (\<lambda>c. ret (EColumn c)) s
       | LParen \<Rightarrow>
           seq (advance u) (\<lambda>_. seq (parse_at u OrLevel) (\<lambda>e. seq (consume u RParen) (\<lambda>_. ret e))) s
       | _ \<Rightarrow> fail (SyntaxErr ''expected literal, identifier, or ('') s)) s1)
    (\<lambda>_ s'. pending s' < pending s) (\<lambda>_ _. True)"
  proof (rule outcome_seqI, rule match_token_spec [of KAvg], simp)
    fix c s2 assume s2: "pending s2 + (if c then 1 else 0) \<le> pending s1"
    then have le: "pending s2 \<le> pending s" using s1 by simp
    have column: "outcome (seq (parse_column_reference u) (\<lambda>c. ret (EColumn c)) s2) (\<lambda>_ s'. pending s' < pending s) (\<lambda>_ _. True)"
      by (rule outcome_below) (use eats_below [OF eats_column_reference le] in \<open>auto intro!: progress\<close>)
    have lit: "outcome (literal u l s2) (\<lambda>_ s'. pending s' < pending s) (\<lambda>_ _. True)" if "ps_curr s2 \<noteq> Eof" for l
      by (rule outcome_weaken [OF literal_pending [OF that]]) (use le in auto)
    have avg: "c \<Longrightarrow> outcome (parse_avg u s2) (\<lambda>_ s'. pending s' < pending s) (\<lambda>_ _. True)"
      by (rule outcome_weaken [OF keeps_below [OF keeps_avg order_refl]]) (use s2 s1 in auto)
    have paren: "outcome (seq (advance u) (\<lambda>_. seq (parse_at u OrLevel) (\<lambda>e. seq (consume u RParen) (\<lambda>_. ret e))) s2)
        (\<lambda>_ s''. pending s'' < pending s) (\<lambda>_ _. True)" if "ps_curr s2 \<noteq> Eof"
    proof (rule outcome_seqI, rule advance_pending)
      fix s3 assume s3: "pending s3 + (if ps_curr s2 = Eof then 0 else 1) \<le> pending s2"
      then have "outcome (parse_at u OrLevel s3) (\<lambda>_ s''. pending s'' < pending s) (\<lambda>_ _. True)"
        using that le by (intro outcome_weaken [OF nested]) auto
      then show "outcome (seq (parse_at u OrLevel) (\<lambda>e. seq (consume u RParen) (\<lambda>_. ret e)) s3)
          (\<lambda>_ s''. pending s'' < pending s) (\<lambda>_ _. True)"
        by (rule outcome_below) (auto intro!: progress)
    qed
    show "outcome (if c then parse_avg u s2
        else (case ps_curr s2 of
           StringLit v \<Rightarrow> literal u (LString v) s2
         | IntLit v \<Rightarrow> literal u (LInt v) s2
         | BoolLit v \<Rightarrow> literal u (LBoolean v) s2
         | Ident _ \<Rightarrow> seq (parse_column_reference u) (\<lambda>c. ret (EColumn c)) s2
         | LParen \<Rightarrow>
             seq (advance u) (\<lambda>_. seq (parse_at u OrLevel) (\<lambda>e. seq (consume u RParen) (\<lambda>_. ret e))) s2
         | _ \<Rightarrow> fail (SyntaxErr ''expected literal, identifier, or ('') s2))
        (\<lambda>_ s'. pending s' < pending s) (\<lambda>_ _. True)"
      using avg lit column paren le by (cases c; cases "ps_curr s2") simp_all
  qed
qed

lemma parse_at_pending:
  "outcome (parse_at u lvl s) (\<lambda>_ s'. pending s' + (if in_loop lvl then 0 else 1) \<le> pending s) (\<lambda>_ _. True)"
proof (induction "4 * pending s + rank lvl" arbitrary: s lvl rule: less_induct)
  case less
  have lower: "outcome (parse_at u lvl' s') (\<lambda>_ s''. pending s'' < pending s') (\<lambda>_ _. True)"
    if "pending s' < pending s \<or> pending s' \<le> pending s \<and> rank lvl' < rank lvl" "\<not> in_loop lvl'" for lvl' s'
    using less [of s' lvl'] that by (cases lvl'; cases lvl) (auto simp: Suc_le_eq)
  have loop: "outcome (parse_at u lvl' s') (\<lambda>_ s''. pending s'' \<le> pending s') (\<lambda>_ _. True)"
    if "pending s' < pending s" "in_loop lvl'" for lvl' s'
    using less [of s' lvl'] that by (cases lvl'; cases lvl) auto
  have then_loop: "outcome (seq (parse_at u lvl') (\<lambda>r. parse_at u (f r)) s') (\<lambda>_ s''. pending s'' < k) (\<lambda>_ _. True)"
    if "pending s' < pending s \<or> pending s' \<le> pending s \<and> rank lvl' < rank lvl" "\<not> in_loop lvl'" "\<And>r. in_loop (f r)"
      "pending s' \<le> k" for lvl' f s' k
  proof (rule outcome_seqI, rule lower [OF that(1,2)])
    fix r s1 assume "pending s1 < pending s'"
    then show "outcome (parse_at u (f r) s1) (\<lambda>_ s''. pending s'' < k) (\<lambda>_ _. True)"
      using that by (intro outcome_weaken [OF loop]) auto
  qed
  have loop_step: "outcome (seq (match_token u t) (\<lambda>b s. if b then seq (parse_at u lvl') (\<lambda>r. parse_at u (f r)) s else ret l s) s)
      (\<lambda>_ s'. pending s' \<le> pending s) (\<lambda>_ _. True)" if "t \<noteq> Eof" "\<not> in_loop lvl'" "\<And>r. in_loop (f r)" for t lvl' f l
  proof (rule outcome_seqI, rule match_token_spec [OF that(1)])
    fix b s1 assume "pending s1 + (if b then 1 else 0) \<le> pending s"
    then show "outcome (if b then seq (parse_at u lvl') (\<lambda>r. parse_at u (f r)) s1 else ret l s1)
        (\<lambda>_ s'. pending s' \<le> pending s) (\<lambda>_ _. True)"
      using pending_le_less [OF then_loop [of s1 lvl' f "pending s"]] that by (cases b) simp_all
  qed
  show ?case
  proof (cases lvl)
    case OrLevel
    then show ?thesis using then_loop [of s AndLevel OrLoop "pending s"]
      unfolding parse_at.simps [of u lvl s] by (simp add: Suc_le_eq)
  next
    case AndLevel
    then show ?thesis using then_loop [of s ComparisonLevel AndLoop "pending s"]
      unfolding parse_at.simps [of u lvl s] by (simp add: Suc_le_eq)
  next
    case (OrLoop l)
    then show ?thesis using loop_step [of KOr] unfolding parse_at.simps [of u lvl s] by simp
  next
    case (AndLoop l)
    then show ?thesis using loop_step [of KAnd] unfolding parse_at.simps [of u lvl s] by simp
  next
    case ComparisonLevel
    then show ?thesis using comparison_pending [of s u] lower by (simp add: Suc_le_eq)
  next
    case PrimaryLevel
    then show ?thesis using primary_pending [of s u] lower by (simp add: Suc_le_eq)
  qed
qed

lemma eats_expressions: "eats (parse_expressions u)"
  using parse_at_pending [of u OrLevel]
  by (simp add: eats_def parse_expressions_def parse_or_condition_def Suc_le_eq)

lemmas keeps_expressions [progress] = eats_expressions [THEN eats_keeps]

section \<open>Clauses and statements\<close>

lemma comma_list_pending:
  assumes "eats item"
  shows "eats (comma_list u item)"
  unfolding eats_def
proof (rule allI)
  fix s show "outcome (comma_list u item s) (\<lambda>_ s'. pending s' < pending s) (\<lambda>_ _. True)"
  proof (induction "pending s" arbitrary: s rule: less_induct)
    case less
    show ?case
      unfolding comma_list.simps [of u item s]
    proof (rule outcome_seqI, rule eats_below [OF assms order_refl], rule outcome_seqI, rule keeps_below [OF keeps_match order_refl])
      fix x s1 and b :: bool and s2 assume s: "pending s1 < pending s" "pending s2 \<le> pending s1"
      note ih = less [of s2]
      show "outcome (if b then seq (comma_list u item) (\<lambda>xs. ret (x # xs)) s2 else ret [x] s2)
          (\<lambda>_ s'. pending s' < pending s) (\<lambda>_ _. True)"
        using s outcome_weaken [OF ih, of "\<lambda>_ s'. pending s' < pending s" "\<lambda>_ _. True"] by (auto simp: outcome_seq)
    qed
  qed
qed

lemmas keeps_comma_list [progress] = comma_list_pending [THEN eats_keeps]

lemma keeps_where [progress]: "keeps (parse_where_clause u)"
  unfolding parse_where_clause_def by (auto intro!: progress)

lemma keeps_alias [progress]: "keeps (parse_alias u)"
  unfolding parse_alias_def by (auto intro!: progress)

lemma eats_derived_column [progress]: "eats (parse_derived_column u)"
  unfolding parse_derived_column_def
  by (rule eats_seq [OF eats_expressions]) (auto intro!: progress split: token.split)

lemma keeps_select_list [progress]: "keeps (parse_select_list u)"
  unfolding parse_select_list_def by (auto intro!: progress)

lemma keeps_base_table [progress]: "keeps (parse_base_table u)"
  unfolding parse_base_table_def by (auto intro!: progress)

lemma keeps_join_type [progress]: "keeps (parse_join_type u)"
  unfolding parse_join_type_def by (auto intro!: progress split: token.split)

lemma keeps_joins [progress]: "keeps (parse_joins u lhs)"
  unfolding keeps_def
proof (rule allI)
  fix s show "outcome (parse_joins u lhs s) (\<lambda>_ s'. pending s' \<le> pending s) (\<lambda>_ _. True)"
  proof (induction "pending s" arbitrary: s lhs rule: less_induct)
    case less
    show ?case
      unfolding parse_joins.simps [of u lhs s]
    proof (rule outcome_seqI, rule keeps_below [OF keeps_join_type order_refl], rule outcome_seqI, rule match_token_spec [of KJoin], simp)
      fix jt s1 b s2 assume s: "pending s1 \<le> pending s" "pending s2 + (if b then 1 else 0) \<le> pending s1"
      have "outcome (seq (parse_base_table u) (\<lambda>rhs. seq (consume u KOn) (\<lambda>_. seq (parse_expressions u) (\<lambda>cond.
          parse_joins u (JoinTable lhs rhs jt cond)))) s2) (\<lambda>_ s'. pending s' \<le> pending s) (\<lambda>_ _. True)" if b
      proof (rule outcome_seqI, rule keeps_below [OF keeps_base_table order_refl], rule outcome_seqI,
          rule keeps_below [OF keeps_consume order_refl], rule outcome_seqI, rule keeps_below [OF keeps_expressions order_refl])
        fix rhs s3 a s4 cond s5 assume "pending s3 \<le> pending s2" "pending s4 \<le> pending s3" "pending s5 \<le> pending s4"
        with s that show "outcome (parse_joins u (JoinTable lhs rhs jt cond) s5) (\<lambda>_ s'. pending s' \<le> pending s) (\<lambda>_ _. True)"
          by (intro outcome_weaken [OF less]) auto
      qed
      then show "outcome (if b then seq (parse_base_table u) (\<lambda>rhs. seq (consume u KOn) (\<lambda>_. seq (parse_expressions u) (\<lambda>cond.
          parse_joins u (JoinTable lhs rhs jt cond)))) s2 else ret lhs s2) (\<lambda>_ s'. pending s' \<le> pending s) (\<lambda>_ _. True)"
        using s by (cases b) simp_all
    qed
  qed
qed

lemma keeps_from [progress]: "keeps (parse_from_clause u)"
  unfolding parse_from_clause_def by (auto intro!: progress)

lemma keeps_group_by [progress]: "keeps (parse_group_by u)"
  unfolding parse_group_by_def by (auto intro!: progress eats_column_reference)

lemma eats_sort_specification [progress]: "eats (parse_sort_specification u)"
  unfolding parse_sort_specification_def by (rule eats_seq [OF eats_column_reference]) (auto intro!: progress)

lemma keeps_order_by [progress]: "keeps (parse_order_by u)"
  unfolding parse_order_by_def by (auto intro!: progress)

lemma keeps_usize [progress]: "keeps (parse_usize_literal u)"
  unfolding parse_usize_literal_def by (auto intro!: progress split: token.split)

lemma keeps_limit_offset_loop:
  "keeps (limit_offset_loop u lim off)"
proof (induction "length (filter ((=) None) [lim, off])" arbitrary: lim off rule: less_induct)
  case less
  have step: "keeps (seq (advance u) (\<lambda>_. seq (parse_usize_literal u) (\<lambda>n. limit_offset_loop u (f n) (g n))))"
    if "\<And>n. length (filter ((=) None) [f n, g n]) < length (filter ((=) None) [lim, off])" for f g
    by (intro keeps_seq keeps_advance keeps_usize less that)
  show ?case
    unfolding keeps_def
  proof (rule allI)
    fix s show "outcome (limit_offset_loop u lim off s) (\<lambda>_ s'. pending s' \<le> pending s) (\<lambda>_ _. True)"
      unfolding limit_offset_loop.simps [of u lim off s]
      using step [of Some "\<lambda>_. off"] step [of "\<lambda>_. lim" Some] by (auto simp: keeps_def)
  qed
qed

lemma keeps_limit_offset [progress]: "keeps (parse_limit_offset u)"
  unfolding parse_limit_offset_def by (rule keeps_limit_offset_loop)

lemma eats_parenthesized [progress]: "eats item \<Longrightarrow> eats (parse_parenthesized u item)"
  unfolding parse_parenthesized_def by (rule eats_seq [OF eats_consume]) (auto intro!: progress)

lemma eats_assignment [progress]: "eats (parse_assignment u)"
  unfolding parse_assignment_def by (rule eats_seq [OF eats_identifier]) (auto intro!: progress)

lemma keeps_varchar [progress]: "keeps (parse_varchar u)"
  unfolding parse_varchar_def by (auto intro!: progress split: token.split)

lemma keeps_data_type [progress]: "keeps (parse_data_type u)"
  unfolding parse_data_type_def by (auto intro!: progress split: token.split)

lemma eats_column_definition [progress]: "eats (parse_column_definition u)"
  unfolding parse_column_definition_def
  by (rule eats_seq [OF eats_identifier]) (auto intro!: progress split: prod.split)

lemma keeps_create_table [progress]: "keeps (parse_create_table u)"
  unfolding parse_create_table_def by (auto intro!: progress intro: eats_parenthesized [THEN eats_keeps])

lemma keeps_create_index [progress]: "keeps (parse_create_index u)"
  unfolding parse_create_index_def by (auto intro!: progress)

lemma keeps_create_unique_index [progress]: "keeps (parse_create_unique_index u)"
  unfolding parse_create_unique_index_def by (auto intro!: progress)

lemma eats_insert [progress]: "eats (parse_insert u)"
  unfolding parse_insert_def by (rule eats_seq [OF eats_consume]) (auto intro!: progress intro: eats_identifier eats_expressions)

lemma eats_update [progress]: "eats (parse_update u)"
  unfolding parse_update_def by (rule eats_seq [OF eats_consume]) (auto intro!: progress)

lemma eats_delete [progress]: "eats (parse_delete u)"
  unfolding parse_delete_def by (rule eats_seq [OF eats_consume]) (auto intro!: progress)

lemma attempt_keeps:
  "keeps m \<Longrightarrow> outcome (attempt m s) (\<lambda>r s'. r = Panic \<or> (\<exists>e. r = Err e) \<or> pending s' \<le> pending s) (\<lambda>_ _. True)"
  unfolding outcome_attempt keeps_def by (erule allE, erule outcome_weaken) simp_all

lemma eats_select [progress]: "eats (parse_select u)"
  unfolding parse_select_def
proof (rule eats_seq [OF eats_consume])
  fix a
  have rest: "keeps (seq (parse_where_clause u) (\<lambda>w. seq (parse_group_by u) (\<lambda>gb. seq (parse_order_by u) (\<lambda>ob.
     seq (parse_limit_offset u) (\<lambda>(lim, off).
     ret \<lparr>se_list = items, se_from = frm, se_where = w, se_group_by = gb, se_order_by = ob,
          se_limit = lim, se_offset = off\<rparr>)))))" for items frm
    by (auto intro!: progress split: prod.split)
  have "keeps (seq (attempt (parse_from_clause u)) (\<lambda>r.
     seq (case r of Ok from \<Rightarrow> ret from
          | _ \<Rightarrow> fail (SyntaxErr ''expected FROM clause or end of statement'')) (\<lambda>from.
     seq (parse_where_clause u) (\<lambda>w. seq (parse_group_by u) (\<lambda>gb. seq (parse_order_by u) (\<lambda>ob.
     seq (parse_limit_offset u) (\<lambda>(lim, off).
     ret \<lparr>se_list = items, se_from = from, se_where = w, se_group_by = gb, se_order_by = ob,
          se_limit = lim, se_offset = off\<rparr>)))))))" for items
    unfolding keeps_def
  proof (rule allI, rule outcome_seqI, rule attempt_keeps [OF keeps_from])
    fix s s1 :: parser and r :: "table_reference option res"
    assume "r = Panic \<or> (\<exists>e. r = Err e) \<or> pending s1 \<le> pending s"
    then show "outcome (seq (case r of Ok from \<Rightarrow> ret from
          | _ \<Rightarrow> fail (SyntaxErr ''expected FROM clause or end of statement'')) (\<lambda>from.
       seq (parse_where_clause u) (\<lambda>w. seq (parse_group_by u) (\<lambda>gb. seq (parse_order_by u) (\<lambda>ob.
       seq (parse_limit_offset u) (\<lambda>(lim, off).
       ret \<lparr>se_list = items, se_from = from, se_where = w, se_group_by = gb, se_order_by = ob,
            se_limit = lim, se_offset = off\<rparr>))))) s1) (\<lambda>_ s'. pending s' \<le> pending s) (\<lambda>_ _. True)"
      using keeps_below [OF rest, of s1] by (cases r) simp_all
  qed
  then show "keeps (seq (parse_select_list u) (\<lambda>items. seq (attempt (parse_from_clause u)) (\<lambda>r.
     seq (case r of Ok from \<Rightarrow> ret from
          | _ \<Rightarrow> fail (SyntaxErr ''expected FROM clause or end of statement'')) (\<lambda>from.
     seq (parse_where_clause u) (\<lambda>w. seq (parse_group_by u) (\<lambda>gb. seq (parse_order_by u) (\<lambda>ob.
     seq (parse_limit_offset u) (\<lambda>(lim, off).
     ret \<lparr>se_list = items, se_from = from, se_where = w, se_group_by = gb, se_order_by = ob,
          se_limit = lim, se_offset = off\<rparr>))))))))" by (rule keeps_seq [OF keeps_select_list])
qed simp

lemma eats_transaction [progress]: "t \<noteq> Eof \<Longrightarrow> eats_at t (parse_transaction u st)"
  unfolding parse_transaction_def by (rule eats_at_seq [OF eats_advance]) (auto intro!: progress)

lemma eats_create [progress]: "t \<noteq> Eof \<Longrightarrow> eats_at t (parse_create u)"
  unfolding parse_create_def by (rule eats_at_seq [OF eats_advance]) (auto intro!: progress split: token.split)

lemma eats_show [progress]: "t \<noteq> Eof \<Longrightarrow> eats_at t (parse_show u)"
  unfolding parse_show_def by (rule eats_at_seq [OF eats_advance]) (auto intro!: progress)

lemma eats_statement: "eats (parse_statement u)"
  unfolding parse_statement_def
proof (rule eats_curr)
  note stmt = eats_select eats_insert eats_update eats_delete
  fix t show "eats_at t (case t of
     KSelect \<Rightarrow> seq (parse_select u) (\<lambda>s. ret (Select s))
   | KInsert \<Rightarrow> seq (parse_insert u) (\<lambda>s. ret (Insert s))
   | KUpdate \<Rightarrow> seq (parse_update u) (\<lambda>s. ret (Update s))
   | KDelete \<Rightarrow> seq (parse_delete u) (\<lambda>s. ret (Delete s))
   | KCommit \<Rightarrow> parse_transaction u Commit
   | KBegin \<Rightarrow> parse_transaction u Begin
   | KRollback \<Rightarrow> parse_transaction u Rollback
   | KCreate \<Rightarrow> parse_create u
   | KDrop \<Rightarrow> seq (advance u) (\<lambda>_. seq (consume u KTable) (\<lambda>_.
       seq (parse_identifier u) (\<lambda>table. ret (DropTable table))))
   | KUse \<Rightarrow> seq (advance u) (\<lambda>_. seq (parse_identifier u) (\<lambda>name. ret (UseDatabase name)))
   | KShow \<Rightarrow> parse_show u
   | _ \<Rightarrow> fail (SyntaxErr ''unexpected token at start of statement''))"
    by (cases t) (simp_all add: eats_at_fail eats_transaction eats_create eats_show,
      auto intro!: progress eats_at_seq eats_advance stmt [THEN eats_eats_at])
qed

lemma res_bind_eq_Panic:
  "res_bind m f = Panic \<longleftrightarrow> m = Panic \<or> (\<exists>a. m = Ok a \<and> f a = Panic)"
  by (cases m) simp_all

lemma parse_script_returns: "outcome (parse_script u s) (\<lambda>_ _. True) (\<lambda>_ _. True)"
proof (induction "pending s" arbitrary: s rule: less_induct)
  case less
  show ?case
  proof (cases "ps_curr s = Eof")
    case True
    then show ?thesis by (simp add: parse_script.simps [of u s])
  next
    case False
    have "outcome (seq (match_token u Semicolon) (\<lambda>b s.
        if b then parse_script u s
        else seq (parse_statement u) (\<lambda>st. seq (match_token u Semicolon) (\<lambda>_.
             seq (parse_script u) (\<lambda>sts. ret (st # sts)))) s) s) (\<lambda>_ _. True) (\<lambda>_ _. True)"
    proof (rule outcome_seqI, rule match_token_spec [of Semicolon], simp)
      fix b s1 assume s1: "pending s1 + (if b then 1 else 0) \<le> pending s"
      have "outcome (seq (parse_statement u) (\<lambda>st. seq (match_token u Semicolon) (\<lambda>_.
             seq (parse_script u) (\<lambda>sts. ret (st # sts)))) s1) (\<lambda>_ _. True) (\<lambda>_ _. True)"
      proof (rule outcome_seqI, rule eats_below [OF eats_statement order_refl], rule outcome_seqI,
          rule keeps_below [OF keeps_match order_refl])
        fix st s2 a s3 assume "pending s2 < pending s1" "pending s3 \<le> pending s2"
        with less [of s3] s1 show "outcome (seq (parse_script u) (\<lambda>sts. ret (st # sts)) s3) (\<lambda>_ _. True) (\<lambda>_ _. True)"
          by (simp add: outcome_seq split: if_splits)
      qed
      then show "outcome (if b then parse_script u s1
        else seq (parse_statement u) (\<lambda>st. seq (match_token u Semicolon) (\<lambda>_.
             seq (parse_script u) (\<lambda>sts. ret (st # sts)))) s1) (\<lambda>_ _. True) (\<lambda>_ _. True)"
        using less [of s1] s1 by (cases b) simp_all
    qed
    with False show ?thesis by (simp add: parse_script.simps [of u s])
  qed
qed

text \<open>
  C16: Lexing and parsing end on every input, whatever the Unicode tables, with statements or an
  error and never with a panic.
\<close>

lemma parse_batch_total: "\<exists>r. parse_batch u cs = Some r \<and> r \<noteq> Panic"
proof (cases "parser_new u cs")
  case (Ok p)
  with parse_script_returns [of u p] show ?thesis
    by (cases "parse_script u p") (auto simp: parse_batch_def outcome_def split: res.splits)
next
  case Panic
  then show ?thesis
    using next_token_no_panic by (auto simp: parser_new_def res_bind_eq_Panic)
qed (simp add: parse_batch_def)

end
