(* ===== verification/Printing.thy ===== *)
theory Printing
  imports Parsing
begin

text \<open>
  What the parser accepts: a printer of statements, and the proof that lexer and parser take the
  printed text back to the statements it was made from.

  Tokens are printed with a space before each, keywords in upper case, expressions with
  parentheses only where the precedence of an operator asks for them. On such a text the state of
  the parser is a function \<open>feed\<close> of the tokens that are left, and every parsing function is an
  equation over \<open>feed\<close>. Of the Unicode tables the proof uses their ASCII part, \<open>ascii_tables\<close>.
\<close>

section \<open>Characters\<close>

definition upper :: "nat \<Rightarrow> nat" where
  "upper c = (if 97 \<le> c \<and> c \<le> 122 then c - 32 else c)"

definition letter :: "nat \<Rightarrow> bool" where
  "letter c \<longleftrightarrow> 65 \<le> c \<and> c \<le> 90 \<or> 97 \<le> c \<and> c \<le> 122"

definition word_char :: "nat \<Rightarrow> bool" where
  "word_char c \<longleftrightarrow> letter c \<or> 48 \<le> c \<and> c \<le> 57 \<or> c = 95"

definition ascii_tables :: "unicode \<Rightarrow> bool" where
  "ascii_tables u \<longleftrightarrow>
     (\<forall>c < 128. (uc_whitespace u c \<longleftrightarrow> c = 32 \<or> 9 \<le> c \<and> c \<le> 13) \<and> (uc_alphabetic u c \<longleftrightarrow> letter c) \<and>
        (uc_numeric u c \<longleftrightarrow> 48 \<le> c \<and> c \<le> 57)) \<and>
     (\<forall>w. (\<forall>c \<in> set w. c < 128) \<longrightarrow> uc_uppercase u w = map upper w)"

lemma chars_simps [simp]: "chars [] = []" "chars (c # s) = code c # chars s" "chars (s @ t) = chars s @ chars t"
  by (simp_all add: chars_def)

lemma inj_chars: "chars s = chars t \<longleftrightarrow> s = t"
  unfolding chars_def by (rule inj_map_eq_map) (auto intro!: injI)

lemma push_all_chars: "\<forall>c \<in> set s. code c < 128 \<Longrightarrow> push_all (chars s) = s"
proof (induction s)
  case (Cons c s)
  have "unat (word_of_nat (of_char c) :: u8) = of_char c"
    using Cons.prems by (simp add: unat_of_nat take_bit_nat_eq_self)
  with Cons show ?case
    by (simp add: push_all_def chars_def utf8_char_def bytes_string_def)
qed (simp add: push_all_def bytes_string_def)

text \<open>The rest of the input after a printed token.\<close>

definition spaced :: "nat list \<Rightarrow> bool" where
  "spaced cs \<longleftrightarrow> cs = [] \<or> hd cs = 32"

lemma word_char_bound: "word_char c \<Longrightarrow> c < 128"
  by (auto simp: word_char_def letter_def)

lemma ident_part_ascii: "ascii_tables u \<Longrightarrow> c < 128 \<Longrightarrow> ident_part u c \<longleftrightarrow> word_char c"
  by (auto simp: ascii_tables_def ident_part_def word_char_def)

lemma white_ascii: "ascii_tables u \<Longrightarrow> c < 128 \<Longrightarrow> uc_whitespace u c \<longleftrightarrow> c = 32 \<or> 9 \<le> c \<and> c \<le> 13"
  by (auto simp: ascii_tables_def)

lemma take_word:
  assumes "\<forall>c \<in> set w. P c" "cs = [] \<or> \<not> P (hd cs)"
  shows "takeWhile P (w @ cs) = w" "dropWhile P (w @ cs) = cs"
proof -
  have "takeWhile P cs = []" "dropWhile P cs = cs" using assms(2) by (cases cs; simp)+
  then show "takeWhile P (w @ cs) = w" "dropWhile P (w @ cs) = cs"
    using assms(1) by (simp_all add: takeWhile_append2 dropWhile_append2)
qed

lemma symbol_word: "word_char c \<Longrightarrow> symbol c = None"
  by (auto simp: symbol_def word_char_def letter_def)

lemma next_word:
  assumes u: "ascii_tables u" and w: "\<forall>c \<in> set w. word_char c" "w \<noteq> []" "\<not> (48 \<le> hd w \<and> hd w \<le> 57)"
    and cs: "spaced cs"
  shows "next_token u (w @ cs) = Ok (ident_token u w, cs)"
proof -
  obtain c v where c: "w = c # v" using w(2) by (cases w) auto
  then have wc: "word_char c" "c < 128" using w(1) word_char_bound by auto
  have part: "\<forall>x \<in> set w. ident_part u x" using w(1) u ident_part_ascii word_char_bound by blast
  have stop: "cs = [] \<or> \<not> ident_part u (hd cs)"
    using cs ident_part_ascii [OF u, of 32] by (auto simp: spaced_def word_char_def letter_def)
  have "skip_whitespace u (c # v @ cs) = c # v @ cs"
    using white_ascii [OF u wc(2)] wc(1) by (auto simp: skip_whitespace_def word_char_def letter_def)
  moreover have "ident_start u c"
    using u wc w(3) c by (auto simp: ascii_tables_def ident_start_def word_char_def)
  moreover have "\<not> is_quote c" "c \<noteq> 60" "c \<noteq> 62" "c \<noteq> 33"
    using wc(1) by (auto simp: is_quote_def word_char_def letter_def)
  ultimately have "next_token u (c # v @ cs) = consume_ident_or_keyword u (w @ cs)"
    using symbol_word [OF wc(1)] c by (simp add: next_token_def)
  then show ?thesis
    using take_word [OF part stop] c by (simp add: consume_ident_or_keyword_def)
qed

section \<open>Printing tokens\<close>

text \<open>A table name or column name: an ASCII word that is no keyword.\<close>

definition name_ok :: "string \<Rightarrow> bool" where
  "name_ok s \<longleftrightarrow> s \<noteq> [] \<and> (\<forall>c \<in> set (chars s). word_char c) \<and> \<not> (48 \<le> hd (chars s) \<and> hd (chars s) \<le> 57) \<and>
     map upper (chars s) \<notin> (\<lambda>(k, _). chars k) ` set keyword_table"

lemma ident_token_name: "ascii_tables u \<Longrightarrow> name_ok s \<Longrightarrow> ident_token u (chars s) = Ident s"
proof -
  assume u: "ascii_tables u" and s: "name_ok s"
  then have up: "uc_uppercase u (chars s) = map upper (chars s)"
    using word_char_bound by (auto simp: ascii_tables_def name_ok_def)
  have "map_of (map (\<lambda>(s, t). (chars s, t)) keyword_table) (map upper (chars s)) = None"
    using s by (force simp: name_ok_def map_of_eq_None_iff)
  moreover have "push_all (chars s) = s"
    by (rule push_all_chars) (use s word_char_bound in \<open>auto simp: name_ok_def chars_def\<close>)
  ultimately show ?thesis using up by (simp add: ident_token_def)
qed

lemma keyword_text:
  "\<forall>(s, t) \<in> set keyword_table. s \<noteq> [] \<and> map upper (chars s) = chars s \<and> (\<forall>c \<in> set (chars s). word_char c \<and> \<not> (48 \<le> c \<and> c \<le> 57))"
  "distinct (map fst keyword_table)"
  by (simp_all add: keyword_table_def upper_def word_char_def letter_def)

lemma ident_token_keyword: "ascii_tables u \<Longrightarrow> (s, t) \<in> set keyword_table \<Longrightarrow> ident_token u (chars s) = t"
proof -
  assume u: "ascii_tables u" and s: "(s, t) \<in> set keyword_table"
  have s': "map upper (chars s) = chars s" "\<forall>c \<in> set (chars s). word_char c" using keyword_text(1) s by auto
  have up: "uc_uppercase u (chars s) = chars s"
    using u s' word_char_bound by (auto simp: ascii_tables_def)
  have "map fst (map (\<lambda>(s, t). (chars s, t)) keyword_table) = map chars (map fst keyword_table)"
    by (simp add: case_prod_beta comp_def)
  then have "distinct (map fst (map (\<lambda>(s, t). (chars s, t)) keyword_table))"
    using keyword_text(2) by (simp add: distinct_map inj_on_def inj_chars)
  then have "map_of (map (\<lambda>(s, t). (chars s, t)) keyword_table) (chars s) = Some t"
    using s by (intro map_of_is_SomeI) (auto simp: image_iff intro: bexI [of _ "(s, t)"])
  then show ?thesis using up by (simp add: ident_token_def)
qed

definition keyword_of :: "token \<Rightarrow> string" where
  "keyword_of t = the (map_of (map prod.swap keyword_table) t)"

lemma keyword_of: "t \<in> snd ` set keyword_table \<Longrightarrow> (keyword_of t, t) \<in> set keyword_table"
proof -
  assume "t \<in> snd ` set keyword_table"
  then obtain s where "(s, t) \<in> set keyword_table" by force
  then have "(t, s) \<in> set (map prod.swap keyword_table)" by force
  then obtain s' where s': "map_of (map prod.swap keyword_table) t = Some s'" by (metis weak_map_of_SomeI)
  then have "(t, s') \<in> set (map prod.swap keyword_table)" by (rule map_of_SomeD)
  with s' show ?thesis by (auto simp: keyword_of_def)
qed

fun print_token :: "token \<Rightarrow> string" where
  "print_token (StringLit s) = CHR 0x27 # s @ [CHR 0x27]"
| "print_token (Ident s) = s"
| "print_token (IntLit v) = decimal (unat v)"
| "print_token Asterisk = ''*''"
| "print_token Comma = '',''"
| "print_token Dot = ''.''"
| "print_token LParen = ''(''"
| "print_token RParen = '')''"
| "print_token SEq = ''=''"
| "print_token SNeq = ''!=''"
| "print_token SGt = ''>''"
| "print_token SLt = ''<''"
| "print_token SGte = ''>=''"
| "print_token SLte = ''<=''"
| "print_token Semicolon = '';''"
| "print_token t = keyword_of t"

fun token_ok :: "token \<Rightarrow> bool" where
  "token_ok (StringLit s) \<longleftrightarrow> (\<forall>c \<in> set (chars s). c < 128 \<and> \<not> is_quote c)"
| "token_ok (Ident s) \<longleftrightarrow> name_ok s"
| "token_ok (IntLit v) \<longleftrightarrow> 0 \<le> sint v"
| "token_ok Eof \<longleftrightarrow> False"
| "token_ok _ \<longleftrightarrow> True"

lemma next_keyword:
  "ascii_tables u \<Longrightarrow> t \<in> snd ` set keyword_table \<Longrightarrow> spaced cs \<Longrightarrow> next_token u (chars (keyword_of t) @ cs) = Ok (t, cs)"
proof -
  assume u: "ascii_tables u" and t: "t \<in> snd ` set keyword_table" and cs: "spaced cs"
  have k: "(keyword_of t, t) \<in> set keyword_table" using keyword_of [OF t] .
  then have w: "\<forall>c \<in> set (chars (keyword_of t)). word_char c \<and> \<not> (48 \<le> c \<and> c \<le> 57)" "chars (keyword_of t) \<noteq> []"
    using keyword_text(1) by (fastforce simp: chars_def)+
  then have "hd (chars (keyword_of t)) \<in> set (chars (keyword_of t))" by simp
  then have hd: "\<not> (48 \<le> hd (chars (keyword_of t)) \<and> hd (chars (keyword_of t)) \<le> 57)" using w(1) by blast
  show ?thesis
    using next_word [OF u _ w(2) hd cs] w(1) ident_token_keyword [OF u k] by simp
qed

text \<open>Numbers.\<close>

lemma decimal_digits: "\<forall>c \<in> set (chars (decimal n)). 48 \<le> c \<and> c \<le> 57"
proof (induction n rule: decimal.induct)
  case (1 n)
  have "48 + n mod 10 < 256" by simp
  then show ?case using 1 by (subst decimal.simps) (auto simp: take_bit_nat_eq_self)
qed

lemma number_append: "number (xs @ [d]) = 10 * number xs + (d - 48)"
  by (simp add: number_def)

lemma number_decimal: "number (chars (decimal n)) = n"
proof (induction n rule: decimal.induct)
  case (1 n)
  have d: "of_char (char_of (48 + n mod 10) :: char) = 48 + n mod 10" by (simp add: take_bit_nat_eq_self)
  show ?case
  proof (cases "n < 10")
    case True
    then show ?thesis using d by (subst decimal.simps) (simp add: number_def)
  next
    case False
    then show ?thesis using 1 [OF False] d by (subst decimal.simps) (simp add: number_append)
  qed
qed

lemma next_number:
  assumes u: "ascii_tables u" and v: "0 \<le> sint (v :: i64)" and cs: "spaced cs"
  shows "next_token u (chars (decimal (unat v)) @ cs) = Ok (IntLit v, cs)"
proof -
  let ?w = "chars (decimal (unat v))"
  have w: "\<forall>c \<in> set ?w. 48 \<le> c \<and> c \<le> 57" by (rule decimal_digits)
  have "decimal (unat v) \<noteq> []" by (subst decimal.simps) simp
  then obtain c x where c: "?w = c # x" by (cases ?w) (auto simp: chars_def)
  then have c9: "48 \<le> c" "c \<le> 57" using w by auto
  have "skip_whitespace u (c # x @ cs) = c # x @ cs"
    using white_ascii [OF u, of c] c9 by (auto simp: skip_whitespace_def)
  moreover have "symbol c = None" "\<not> is_quote c" "c \<noteq> 60" "c \<noteq> 62" "c \<noteq> 33" "is_ascii_digit c"
    using c9 by (auto simp: symbol_def is_quote_def is_ascii_digit_def)
  moreover have "\<not> ident_start u c"
    using u c9 by (auto simp: ascii_tables_def ident_start_def letter_def)
  ultimately have n: "next_token u (c # x @ cs) = consume_number (?w @ cs)"
    using c by (simp add: next_token_def)
  have d: "\<forall>x \<in> set ?w. is_ascii_digit x" "cs = [] \<or> \<not> is_ascii_digit (hd cs)"
    using w cs by (auto simp: is_ascii_digit_def spaced_def)
  have "sint v < 2 ^ 63" using sint_lt [of v] by simp
  then have "uint v < 2 ^ 63" using v take_bit_int_eq_self [of "sint v" 64] by (simp add: uint_sint)
  then have "unat v < 2 ^ 63" by (simp flip: nat_uint_eq add: nat_less_iff)
  then show ?thesis
    using n c take_word [OF d] number_decimal [of "unat v"] by (simp add: consume_number_def)
qed

lemma next_string:
  assumes u: "ascii_tables u" and s: "\<forall>c \<in> set (chars s). c < 128 \<and> \<not> is_quote c"
  shows "next_token u (39 # chars s @ 39 # cs) = Ok (StringLit s, cs)"
proof -
  have w: "\<forall>c \<in> set (chars s). \<not> is_quote c" "39 # cs = [] \<or> \<not> \<not> is_quote (hd (39 # cs))"
    using s by (auto simp: is_quote_def)
  have "skip_whitespace u (39 # chars s @ 39 # cs) = 39 # chars s @ 39 # cs"
    using white_ascii [OF u, of 39] by (simp add: skip_whitespace_def)
  moreover have "push_all (chars s) = s" by (rule push_all_chars) (use s in \<open>auto simp: chars_def\<close>)
  ultimately show ?thesis
    using take_word [OF w] by (simp add: next_token_def symbol_def is_quote_def consume_string_def)
qed

lemma next_symbol:
  assumes u: "ascii_tables u" and cs: "spaced cs"
    and t: "t \<in> {Asterisk, Comma, Dot, LParen, RParen, SEq, SNeq, SGt, SLt, SGte, SLte, Semicolon}"
  shows "next_token u (chars (print_token t) @ cs) = Ok (t, cs)"
proof -
  have white: "c < 128 \<Longrightarrow> 32 < c \<Longrightarrow> skip_whitespace u (c # r) = c # r" for c r
    using white_ascii [OF u, of c] by (simp add: skip_whitespace_def)
  show ?thesis
    using t cs by (auto simp: next_token_def white symbol_def with_eq_def spaced_def)
qed

lemma keyword_cases:
  "token_ok t \<Longrightarrow> t \<in> set (map snd keyword_table) \<and> print_token t = keyword_of t \<or>
   (\<exists>s. t = StringLit s) \<or> (\<exists>s. t = Ident s) \<or> (\<exists>v. t = IntLit v) \<or>
   t \<in> {Asterisk, Comma, Dot, LParen, RParen, SEq, SNeq, SGt, SLt, SGte, SLte, Semicolon}"
proof (cases t)
  case (BoolLit b)
  then show ?thesis by (cases b) (simp_all add: keyword_table_def)
qed (simp_all add: keyword_table_def)

lemma next_print:
  assumes u: "ascii_tables u" and t: "token_ok t" and cs: "spaced cs"
  shows "next_token u (32 # chars (print_token t) @ cs) = Ok (t, cs)"
proof -
  have "next_token u (chars (print_token t) @ cs) = Ok (t, cs)"
  proof -
    consider (key) "t \<in> snd ` set keyword_table" "print_token t = keyword_of t"
      | (str) s where "t = StringLit s" | (ident) s where "t = Ident s" | (int) v where "t = IntLit v"
      | (sym) "t \<in> {Asterisk, Comma, Dot, LParen, RParen, SEq, SNeq, SGt, SLt, SGte, SLte, Semicolon}"
      using keyword_cases [OF t] unfolding set_map by blast
    then show ?thesis
    proof cases
      case key
      then show ?thesis using next_keyword [OF u _ cs] by simp
    next
      case str
      then show ?thesis using next_string [OF u, of s cs] t by simp
    next
      case ident
      then show ?thesis using next_word [OF u _ _ _ cs, of "chars s"] ident_token_name [OF u] t
        by (simp add: name_ok_def chars_def)
    next
      case int
      then show ?thesis using next_number [OF u _ cs] t by simp
    next
      case sym
      then show ?thesis by (rule next_symbol [OF u cs])
    qed
  qed
  moreover have "skip_whitespace u (32 # r) = skip_whitespace u r" for r
    using white_ascii [OF u, of 32] by (simp add: skip_whitespace_def)
  ultimately show ?thesis by (simp add: next_token_def)
qed

section \<open>The parser on printed tokens\<close>

definition print_tokens :: "token list \<Rightarrow> string" where
  "print_tokens ts = concat (map (\<lambda>t. '' '' @ print_token t) ts)"

fun current :: "token list \<Rightarrow> token" where
  "current [] = Eof" | "current (t # _) = t"

definition feed :: "token list \<Rightarrow> parser" where
  "feed ts = \<lparr>ps_input = chars (print_tokens (tl (tl ts))), ps_curr = current ts, ps_peek = current (tl ts)\<rparr>"

definition good :: "unicode \<Rightarrow> token list \<Rightarrow> bool" where
  "good u ts \<longleftrightarrow> ascii_tables u \<and> list_all token_ok ts"

lemma good_simps [simp]:
  "good u [] = ascii_tables u" "good u (t # ts) \<longleftrightarrow> token_ok t \<and> good u ts" "good u (ts @ us) \<longleftrightarrow> good u ts \<and> good u us"
  by (auto simp: good_def)

lemma good_tl: "good u ts \<Longrightarrow> good u (tl ts)"
  by (cases ts) simp_all

lemma print_tokens_spaced: "spaced (chars (print_tokens ts))"
  by (cases ts) (simp_all add: print_tokens_def spaced_def)

lemma next_text: "good u ts \<Longrightarrow> next_token u (chars (print_tokens ts)) = Ok (current ts, chars (print_tokens (tl ts)))"
proof (cases ts)
  case Nil
  then show ?thesis by (simp add: print_tokens_def next_token_def skip_whitespace_def)
next
  case (Cons t us)
  assume "good u ts"
  then show ?thesis
    using next_print [OF _ _ print_tokens_spaced [of us], of u t] Cons by (simp add: good_def print_tokens_def)
qed

lemma parser_new_feed: "good u ts \<Longrightarrow> parser_new u (chars (print_tokens ts)) = Ok (feed ts)"
  by (simp add: parser_new_def next_text good_tl feed_def)

lemma seq_run: "m s = ret a s' \<Longrightarrow> seq m f s = f a s'"
  by (simp add: seq_def ret_def)

lemma curr_feed [simp]: "ps_curr (feed ts) = current ts"
  by (simp add: feed_def)

lemma advance_feed: "good u ts \<Longrightarrow> advance u (feed (t # ts)) = ret () (feed ts)"
  by (simp add: advance_def feed_def next_text good_tl) (simp add: modify_def ret_def)

lemma advance_run [simp]: "good u ts \<Longrightarrow> seq (advance u) f (feed (t # ts)) = f () (feed ts)"
  by (rule seq_run, rule advance_feed)

lemma match_feed [simp]: "good u ts \<Longrightarrow> match_token u t (feed (t # ts)) = ret True (feed ts)"
  by (simp add: match_token_def check_def)

lemma match_feed_no [simp]: "current ts \<noteq> t \<Longrightarrow> match_token u t (feed ts) = ret False (feed ts)"
  by (simp add: match_token_def check_def)

lemma consume_feed [simp]: "good u ts \<Longrightarrow> consume u t (feed (t # ts)) = ret () (feed ts)"
  by (simp add: consume_def check_def advance_feed)

lemma identifier_feed [simp]: "good u ts \<Longrightarrow> parse_identifier u (feed (Ident s # ts)) = ret s (feed ts)"
  by (simp add: parse_identifier_def)

lemma feed_runs [simp]:
  "good u ts \<Longrightarrow> seq (match_token u t) f (feed (t # ts)) = f True (feed ts)"
  "current ts \<noteq> t \<Longrightarrow> seq (match_token u t) f (feed ts) = f False (feed ts)"
  "good u ts \<Longrightarrow> seq (consume u t) g (feed (t # ts)) = g () (feed ts)"
  "good u ts \<Longrightarrow> seq (parse_identifier u) h (feed (Ident s # ts)) = h s (feed ts)"
  by (rule seq_run, simp)+

text \<open>Expressions, with parentheses only where the precedence of an operator asks for them.\<close>

definition column_tokens :: "column_reference \<Rightarrow> token list" where
  "column_tokens c = (case cf_qualifier c of None \<Rightarrow> [] | Some q \<Rightarrow> [Ident q, Dot]) @ [Ident (cf_name c)]"

fun op_token :: "binary_operator \<Rightarrow> token" where
  "op_token OpEq = SEq" | "op_token OpNeq = SNeq" | "op_token OpGt = SGt" | "op_token OpLt = SLt"
| "op_token OpGte = SGte" | "op_token OpLte = SLte" | "op_token OpAnd = KAnd" | "op_token OpOr = KOr"

fun op_level :: "binary_operator \<Rightarrow> nat" where
  "op_level OpOr = 0" | "op_level OpAnd = 1" | "op_level _ = 2"

fun literal_token :: "ast_literal \<Rightarrow> token" where
  "literal_token (LString s) = StringLit s" | "literal_token (LInt v) = IntLit v"
| "literal_token (LBoolean b) = BoolLit b" | "literal_token LNull = Eof"

fun expr_tokens :: "nat \<Rightarrow> expr \<Rightarrow> token list" where
  "expr_tokens n (EBinaryOp l op r) =
     (let k = op_level op; ts = expr_tokens (if k = 2 then 3 else k) l @ op_token op # expr_tokens (Suc k) r
      in if k < n then LParen # ts @ [RParen] else ts)"
| "expr_tokens n (EColumn c) = column_tokens c"
| "expr_tokens n (ELiteral l) = [literal_token l]"
| "expr_tokens n (EAverage c) = [KAvg, LParen] @ column_tokens c @ [RParen]"
| "expr_tokens n (ECount c) = [KCount, LParen] @ (case c of None \<Rightarrow> [Asterisk] | Some c \<Rightarrow> column_tokens c) @ [RParen]"

lemma column_feed:
  "good u (column_tokens c @ ts) \<Longrightarrow> current ts \<noteq> Dot \<Longrightarrow>
   parse_column_reference u (feed (column_tokens c @ ts)) = ret c (feed ts)"
  by (cases c; cases "cf_qualifier c") (simp_all add: column_tokens_def parse_column_reference_def)

lemma column_run [simp]:
  "good u (column_tokens c @ ts) \<Longrightarrow> current ts \<noteq> Dot \<Longrightarrow>
   seq (parse_column_reference u) f (feed (column_tokens c @ ts)) = f c (feed ts)"
  by (rule seq_run, rule column_feed)

text \<open>What may not follow: a comparison, or the dot of a column.\<close>

definition closed :: "token \<Rightarrow> bool" where
  "closed t \<longleftrightarrow> comparison t = None \<and> t \<noteq> Dot"

lemma closed_simps [simp]: "closed Eof" "closed Comma" "closed RParen" "closed Semicolon" "closed KAnd" "closed KOr" "closed KFrom"
    "closed KAs" "closed KWhere" "closed KGroup" "closed KOrder" "closed KLimit" "closed KOffset" "closed (Ident s)"
    "closed KJoin" "closed KLeft" "closed KRight" "closed KInner" "closed KOn"
  by (simp_all add: closed_def)

fun expr_level :: "expr \<Rightarrow> nat" where
  "expr_level (EBinaryOp _ op _) = op_level op" | "expr_level _ = 3"

lemma expr_tokens_level: "expr_level e \<noteq> n \<Longrightarrow> n < 3 \<Longrightarrow> expr_tokens n e = expr_tokens (Suc n) e"
  by (cases e) (auto simp: Let_def)

lemma expr_tokens_parens: "expr_level e < 3 \<Longrightarrow> expr_tokens 3 e = LParen # expr_tokens 0 e @ [RParen]"
  by (cases e) (auto simp: Let_def)

lemma op_level_bound: "op_level op < 3"
  by (cases op) simp_all

lemma loops_end:
  "current ts \<noteq> KAnd \<Longrightarrow> parse_at u (AndLoop e) (feed ts) = ret e (feed ts)"
  "current ts \<noteq> KOr \<Longrightarrow> parse_at u (OrLoop e) (feed ts) = ret e (feed ts)"
  by (simp_all add: parse_at.simps [of u "AndLoop e"] parse_at.simps [of u "OrLoop e"])

text \<open>What each level does on a printed expression, and how a level follows from the one above.\<close>

definition parses :: "unicode \<Rightarrow> nat \<Rightarrow> expr \<Rightarrow> bool" where
  "parses u n e \<longleftrightarrow> (\<forall>ts. good u (expr_tokens n e @ ts) \<longrightarrow> current ts \<noteq> Dot \<longrightarrow>
     (n = 3 \<longrightarrow> parse_at u PrimaryLevel (feed (expr_tokens 3 e @ ts)) = ret e (feed ts)) \<and>
     (n = 2 \<longrightarrow> closed (current ts) \<longrightarrow> parse_at u ComparisonLevel (feed (expr_tokens 2 e @ ts)) = ret e (feed ts)) \<and>
     (n = Suc 0 \<longrightarrow> closed (current ts) \<longrightarrow>
        parse_at u AndLevel (feed (expr_tokens (Suc 0) e @ ts)) = parse_at u (AndLoop e) (feed ts)) \<and>
     (n = 0 \<longrightarrow> closed (current ts) \<longrightarrow> current ts \<noteq> KAnd \<longrightarrow>
        parse_at u OrLevel (feed (expr_tokens 0 e @ ts)) = parse_at u (OrLoop e) (feed ts)))"

lemma parsesD:
  "parses u 3 e \<Longrightarrow> good u (expr_tokens 3 e @ ts) \<Longrightarrow> current ts \<noteq> Dot \<Longrightarrow>
     parse_at u PrimaryLevel (feed (expr_tokens 3 e @ ts)) = ret e (feed ts)"
  "parses u 2 e \<Longrightarrow> good u (expr_tokens 2 e @ ts) \<Longrightarrow> closed (current ts) \<Longrightarrow>
     parse_at u ComparisonLevel (feed (expr_tokens 2 e @ ts)) = ret e (feed ts)"
  "parses u (Suc 0) e \<Longrightarrow> good u (expr_tokens (Suc 0) e @ ts) \<Longrightarrow> closed (current ts) \<Longrightarrow>
     parse_at u AndLevel (feed (expr_tokens (Suc 0) e @ ts)) = parse_at u (AndLoop e) (feed ts)"
  "parses u 0 e \<Longrightarrow> good u (expr_tokens 0 e @ ts) \<Longrightarrow> closed (current ts) \<Longrightarrow> current ts \<noteq> KAnd \<Longrightarrow>
     parse_at u OrLevel (feed (expr_tokens 0 e @ ts)) = parse_at u (OrLoop e) (feed ts)"
  by (auto simp: parses_def closed_def)

lemma parses_run:
  "parses u 3 e \<Longrightarrow> good u (expr_tokens 3 e @ ts) \<Longrightarrow> current ts \<noteq> Dot \<Longrightarrow>
     seq (parse_at u PrimaryLevel) f (feed (expr_tokens 3 e @ ts)) = f e (feed ts)"
  "parses u 2 e \<Longrightarrow> good u (expr_tokens 2 e @ ts) \<Longrightarrow> closed (current ts) \<Longrightarrow>
     seq (parse_at u ComparisonLevel) f (feed (expr_tokens 2 e @ ts)) = f e (feed ts)"
  "parses u (Suc 0) e \<Longrightarrow> good u (expr_tokens (Suc 0) e @ ts) \<Longrightarrow> closed (current ts) \<Longrightarrow> current ts \<noteq> KAnd \<Longrightarrow>
     seq (parse_at u AndLevel) f (feed (expr_tokens (Suc 0) e @ ts)) = f e (feed ts)"
  "parses u 0 e \<Longrightarrow> good u (expr_tokens 0 e @ ts) \<Longrightarrow> closed (current ts) \<Longrightarrow> current ts \<noteq> KAnd \<Longrightarrow> current ts \<noteq> KOr \<Longrightarrow>
     seq (parse_at u OrLevel) f (feed (expr_tokens 0 e @ ts)) = f e (feed ts)"
  by (rule seq_run; simp add: parsesD loops_end del: good_simps)+

lemma parses_2:
  assumes "parses u 3 e" "expr_level e \<noteq> 2"
  shows "parses u 2 e"
proof -
  have e: "expr_tokens 2 e = expr_tokens 3 e" using expr_tokens_level [OF assms(2)] by (simp add: numeral_3_eq_3)
  have "parse_at u ComparisonLevel (feed (expr_tokens 3 e @ ts)) = ret e (feed ts)"
    if "good u (expr_tokens 3 e @ ts)" "closed (current ts)" for ts
    using that(2)
    by (subst parse_at.simps) (simp add: closed_def parses_run(1) [OF assms(1) that(1)])
  then show ?thesis unfolding parses_def e by simp
qed

lemma parses_1:
  assumes "parses u 2 e" "expr_level e \<noteq> 1"
  shows "parses u (Suc 0) e"
proof -
  have e: "expr_tokens (Suc 0) e = expr_tokens 2 e" using expr_tokens_level [of e 1] assms(2) by (simp add: numeral_2_eq_2)
  have "parse_at u AndLevel (feed (expr_tokens 2 e @ ts)) = parse_at u (AndLoop e) (feed ts)"
    if "good u (expr_tokens 2 e @ ts)" "closed (current ts)" for ts
    by (subst parse_at.simps) (simp add: parses_run(2) [OF assms(1) that])
  then show ?thesis unfolding parses_def e by simp
qed

lemma parses_0:
  assumes "parses u (Suc 0) e" "expr_level e \<noteq> 0"
  shows "parses u 0 e"
proof -
  have e: "expr_tokens 0 e = expr_tokens (Suc 0) e" using expr_tokens_level [OF assms(2)] by simp
  have "parse_at u OrLevel (feed (expr_tokens (Suc 0) e @ ts)) = parse_at u (OrLoop e) (feed ts)"
    if "good u (expr_tokens (Suc 0) e @ ts)" "closed (current ts)" "current ts \<noteq> KAnd" for ts
    by (subst parse_at.simps) (simp add: parses_run(3) [OF assms(1) that])
  then show ?thesis unfolding parses_def e by simp
qed

lemma parses_3:
  assumes "parses u 0 e" "expr_level e < 3"
  shows "parses u 3 e"
proof -
  have "parse_at u PrimaryLevel (feed (LParen # expr_tokens 0 e @ RParen # ts)) = ret e (feed ts)"
    if "good u (expr_tokens 0 e @ RParen # ts)" for ts
    using that by (subst parse_at.simps) (simp add: parses_run(4) [OF assms(1) that])
  then show ?thesis unfolding parses_def expr_tokens_parens [OF assms(2)] by simp
qed

lemma expr_parses: "parses u 3 e \<and> parses u 2 e \<and> parses u (Suc 0) e \<and> parses u 0 e"
proof (induction e)
  case (EBinaryOp l op r)
  let ?e = "EBinaryOp l op r"
  have up: "parses u 0 ?e \<Longrightarrow> parses u 3 ?e" using parses_3 op_level_bound by simp
  consider (2) "op_level op = 2" | (1) "op = OpAnd" | (0) "op = OpOr" by (cases op) simp_all
  then show ?case
  proof cases
    case 2
    have tokens: "expr_tokens 2 ?e = expr_tokens 3 l @ op_token op # expr_tokens 3 r" using 2 by simp
    have op: "comparison (op_token op) = Some op" "op_token op \<noteq> Dot" using 2 by (cases op; simp)+
    have "parse_at u ComparisonLevel (feed (expr_tokens 3 l @ op_token op # expr_tokens 3 r @ ts)) = ret ?e (feed ts)"
      if "good u (expr_tokens 3 l @ op_token op # expr_tokens 3 r @ ts)" "current ts \<noteq> Dot" for ts
      using that op EBinaryOp.IH by (subst parse_at.simps) (simp add: parses_run)
    then have p2: "parses u 2 ?e" unfolding parses_def tokens by (simp add: closed_def)
    with 2 have "parses u (Suc 0) ?e" by (intro parses_1) simp_all
    with 2 have "parses u 0 ?e" by (intro parses_0) simp_all
    then show ?thesis using up p2 \<open>parses u (Suc 0) ?e\<close> by blast
  next
    case 1
    have tokens: "expr_tokens (Suc 0) ?e = expr_tokens (Suc 0) l @ KAnd # expr_tokens 2 r" using 1 by (simp add: numeral_2_eq_2)
    have "parse_at u AndLevel (feed (expr_tokens (Suc 0) l @ KAnd # expr_tokens 2 r @ ts)) = parse_at u (AndLoop ?e) (feed ts)"
      if "good u (expr_tokens (Suc 0) l @ KAnd # expr_tokens 2 r @ ts)" "closed (current ts)" for ts
      using that EBinaryOp.IH 1
      by (simp add: parsesD(3)) (subst parse_at.simps, simp add: parses_run)
    then have p1: "parses u (Suc 0) ?e" unfolding parses_def tokens by simp
    with 1 have p0: "parses u 0 ?e" by (intro parses_0) simp_all
    with up have p3: "parses u 3 ?e" by blast
    with 1 have "parses u 2 ?e" by (intro parses_2) simp_all
    with p0 p1 p3 show ?thesis by blast
  next
    case 0
    have tokens: "expr_tokens 0 ?e = expr_tokens 0 l @ KOr # expr_tokens (Suc 0) r" using 0 by simp
    have "parse_at u OrLevel (feed (expr_tokens 0 l @ KOr # expr_tokens (Suc 0) r @ ts)) = parse_at u (OrLoop ?e) (feed ts)"
      if "good u (expr_tokens 0 l @ KOr # expr_tokens (Suc 0) r @ ts)" "closed (current ts)" "current ts \<noteq> KAnd" for ts
      using that EBinaryOp.IH 0
      by (simp add: parsesD(4)) (subst parse_at.simps, simp add: parses_run)
    then have p0: "parses u 0 ?e" unfolding parses_def tokens by simp
    with up have p3: "parses u 3 ?e" by blast
    with 0 have p2: "parses u 2 ?e" by (intro parses_2) simp_all
    with 0 have "parses u (Suc 0) ?e" by (intro parses_1) simp_all
    with p0 p2 p3 show ?thesis by blast
  qed
next
  case (EColumn c)
  have "parse_at u PrimaryLevel (feed (column_tokens c @ ts)) = ret (EColumn c) (feed ts)"
    if g: "good u (column_tokens c @ ts)" "current ts \<noteq> Dot" for ts
  proof -
    obtain s where "current (column_tokens c @ ts) = Ident s"
      by (cases c; cases "cf_qualifier c") (simp_all add: column_tokens_def)
    then show ?thesis using g by (subst parse_at.simps) simp
  qed
  then have "parses u 3 (EColumn c)" by (simp add: parses_def)
  then show ?case using parses_2 parses_1 parses_0 by simp
next
  case (ELiteral l)
  have "parse_at u PrimaryLevel (feed (literal_token l # ts)) = ret (ELiteral l) (feed ts)"
    if "good u (literal_token l # ts)" for ts
    using that by (subst parse_at.simps, cases l) (simp_all add: literal_def)
  then have "parses u 3 (ELiteral l)" by (simp add: parses_def)
  then show ?case using parses_2 parses_1 parses_0 by simp
next
  case (EAverage c)
  have "parse_at u PrimaryLevel (feed (KAvg # LParen # column_tokens c @ RParen # ts)) = ret (EAverage c) (feed ts)"
    if "good u (column_tokens c @ ts)" for ts
    using that by (subst parse_at.simps) (simp add: parse_avg_def)
  then have "parses u 3 (EAverage c)" by (simp add: parses_def)
  then show ?case using parses_2 parses_1 parses_0 by simp
next
  case (ECount c)
  have star: "current (column_tokens c' @ ts) \<noteq> Asterisk" for c' ts
    by (cases "cf_qualifier c'") (simp_all add: column_tokens_def)
  have "parse_at u PrimaryLevel (feed (KCount # LParen # (case c of None \<Rightarrow> [Asterisk] | Some c \<Rightarrow> column_tokens c) @ RParen # ts)) =
      ret (ECount c) (feed ts)"
    if "good u (case c of None \<Rightarrow> [Asterisk] | Some c \<Rightarrow> column_tokens c)" "good u ts" for ts
    using that star by (subst parse_at.simps, cases c) (simp_all add: parse_count_def)
  then have "parses u 3 (ECount c)" by (simp add: parses_def)
  then show ?case using parses_2 parses_1 parses_0 by simp
qed

lemma expression_run [simp]:
  "good u (expr_tokens 0 e @ ts) \<Longrightarrow> closed (current ts) \<Longrightarrow> current ts \<noteq> KAnd \<Longrightarrow> current ts \<noteq> KOr \<Longrightarrow>
   seq (parse_expressions u) f (feed (expr_tokens 0 e @ ts)) = f e (feed ts)"
  unfolding parse_expressions_def parse_or_condition_def by (rule parses_run(4)) (use expr_parses in blast)+

section \<open>Clauses\<close>

fun separated :: "('a \<Rightarrow> token list) \<Rightarrow> 'a list \<Rightarrow> token list" where
  "separated f [] = []" | "separated f [x] = f x" | "separated f (x # y # xs) = f x @ Comma # separated f (y # xs)"

lemma comma_step:
  "item s = ret x s1 \<Longrightarrow> comma_list u item s = seq (match_token u Comma) (\<lambda>more s.
       if more then seq (comma_list u item) (\<lambda>xs. ret (x # xs)) s else ret [x] s) s1"
  by (subst comma_list.simps, rule seq_run)

lemma comma_run:
  assumes item: "\<And>x ts. x \<in> set xs \<Longrightarrow> good u (f x @ ts) \<Longrightarrow> follow (current ts) \<Longrightarrow> item (feed (f x @ ts)) = ret x (feed ts)"
    and f: "follow Comma" "follow (current ts)" "current ts \<noteq> Comma" and xs: "xs \<noteq> []" "good u (separated f xs @ ts)"
  shows "seq (comma_list u item) g (feed (separated f xs @ ts)) = g xs (feed ts)"
proof (rule seq_run)
  show "comma_list u item (feed (separated f xs @ ts)) = ret xs (feed ts)"
    using item xs
  proof (induction f xs rule: separated.induct)
    case (2 f x)
    then have "item (feed (f x @ ts)) = ret x (feed ts)" by (simp add: f)
    from comma_step [where item = item, OF this] show ?case using f by simp
  next
    case (3 f x y xs)
    have "item (feed (f x @ Comma # separated f (y # xs) @ ts)) = ret x (feed (Comma # separated f (y # xs) @ ts))"
      by (rule 3(2)) (use 3(4) f in simp_all)
    from comma_step [where item = item, OF this]
    have "comma_list u item (feed (separated f (x # y # xs) @ ts)) =
        seq (comma_list u item) (\<lambda>ys. ret (x # ys)) (feed (separated f (y # xs) @ ts))"
      using 3(4) by simp
    moreover have "comma_list u item (feed (separated f (y # xs) @ ts)) = ret (y # xs) (feed ts)"
      by (rule 3(1)) (use 3 in simp_all)
    ultimately show ?case by (metis seq_run)
  qed simp
qed

definition where_tokens :: "expr option \<Rightarrow> token list" where
  "where_tokens w = (case w of None \<Rightarrow> [] | Some e \<Rightarrow> KWhere # expr_tokens 0 e)"

definition alias_tokens :: "string option \<Rightarrow> token list" where
  "alias_tokens a = (case a of None \<Rightarrow> [] | Some n \<Rightarrow> [KAs, Ident n])"

fun join_tokens :: "join_type \<Rightarrow> token list" where
  "join_tokens InnerJoin = [KJoin]" | "join_tokens LeftJoin = [KLeft, KJoin]" | "join_tokens RightJoin = [KRight, KJoin]"

fun table_tokens :: "table_reference \<Rightarrow> token list" where
  "table_tokens (BaseTable n a) = Ident n # alias_tokens a"
| "table_tokens (JoinTable l r jt c) = table_tokens l @ join_tokens jt @ table_tokens r @ KOn # expr_tokens 0 c"

fun left_deep :: "table_reference \<Rightarrow> bool" where
  "left_deep (BaseTable n a) \<longleftrightarrow> True"
| "left_deep (JoinTable l (BaseTable n a) jt c) \<longleftrightarrow> left_deep l"
| "left_deep _ \<longleftrightarrow> False"

definition item_tokens :: "derived_column \<Rightarrow> token list" where
  "item_tokens d = expr_tokens 0 (dc_expr d) @ alias_tokens (dc_alias d)"

definition star_item :: derived_column where
  "star_item = \<lparr>dc_expr = EColumn \<lparr>cf_qualifier = None, cf_name = ''*''\<rparr>, dc_alias = None\<rparr>"

definition list_tokens :: "derived_column list \<Rightarrow> token list" where
  "list_tokens ds = (if ds = [star_item] then [Asterisk] else separated item_tokens ds)"

definition group_tokens :: "column_reference list \<Rightarrow> token list" where
  "group_tokens cs = (if cs = [] then [] else KGroup # KBy # separated column_tokens cs)"

definition sort_tokens :: "sort_specification \<Rightarrow> token list" where
  "sort_tokens s = column_tokens (ss_column s) @ (if ss_descending s then [KDesc] else [KAsc])"

definition order_tokens :: "sort_specification list \<Rightarrow> token list" where
  "order_tokens ss = (if ss = [] then [] else KOrder # KBy # separated sort_tokens ss)"

definition limit_tokens :: "nat option \<Rightarrow> nat option \<Rightarrow> token list" where
  "limit_tokens lim off = (case lim of None \<Rightarrow> [] | Some n \<Rightarrow> [KLimit, IntLit (of_nat n)]) @
     (case off of None \<Rightarrow> [] | Some n \<Rightarrow> [KOffset, IntLit (of_nat n)])"

lemma where_run [simp]:
  "good u (where_tokens w @ ts) \<Longrightarrow> closed (current ts) \<Longrightarrow> current ts \<notin> {KAnd, KOr, KWhere} \<Longrightarrow>
   seq (parse_where_clause u) f (feed (where_tokens w @ ts)) = f w (feed ts)"
  by (cases w) (simp_all add: parse_where_clause_def where_tokens_def seq_assoc)

lemma alias_run [simp]:
  "good u (alias_tokens a @ ts) \<Longrightarrow> current ts \<noteq> KAs \<Longrightarrow> seq (parse_alias u) f (feed (alias_tokens a @ ts)) = f a (feed ts)"
  by (cases a) (simp_all add: parse_alias_def alias_tokens_def seq_assoc)

definition ends_expr :: "token \<Rightarrow> bool" where
  "ends_expr t \<longleftrightarrow> closed t \<and> t \<noteq> KAnd \<and> t \<noteq> KOr"

definition ends_item :: "token \<Rightarrow> bool" where
  "ends_item t \<longleftrightarrow> ends_expr t \<and> t \<noteq> KAs \<and> (\<forall>s. t \<noteq> Ident s)"

lemma item_feed:
  "good u (item_tokens d @ ts) \<Longrightarrow> ends_item (current ts) \<Longrightarrow>
   parse_derived_column u (feed (item_tokens d @ ts)) = ret d (feed ts)"
  by (cases d; cases "dc_alias d")
    (auto simp: parse_derived_column_def item_tokens_def alias_tokens_def ends_item_def ends_expr_def parse_alias_def seq_assoc split: token.split)

lemma tokens_not_star [simp]: "current (item_tokens d @ ts) \<noteq> Asterisk"
proof -
  have "current (expr_tokens n e @ ts) \<noteq> Asterisk" for n e ts
  proof (induction n e arbitrary: ts rule: expr_tokens.induct)
    case (1 n l op r)
    then show ?case by (cases "op_level op < n") (auto simp: Let_def)
  next
    case (3 n l)
    then show ?case by (cases l) simp_all
  qed (auto simp: column_tokens_def split: option.split)
  then show ?thesis by (simp add: item_tokens_def)
qed

lemma separated_not_star: "xs \<noteq> [] \<Longrightarrow> current (separated item_tokens xs @ ts) \<noteq> Asterisk"
  by (cases xs; cases "tl xs") simp_all

lemma select_list_run [simp]:
  assumes "good u (list_tokens ds @ KFrom # ts)" "ds \<noteq> []"
  shows "seq (parse_select_list u) f (feed (list_tokens ds @ KFrom # ts)) = f ds (feed (KFrom # ts))"
proof (cases "ds = [star_item]")
  case True
  then show ?thesis using assms by (simp add: list_tokens_def parse_select_list_def seq_assoc star_item_def)
next
  case False
  show ?thesis
    using False assms separated_not_star [OF assms(2)]
    by (simp add: list_tokens_def parse_select_list_def seq_assoc)
      (rule comma_run [where follow = ends_item, OF item_feed], simp_all add: ends_item_def ends_expr_def)
qed

definition ends_table :: "token \<Rightarrow> bool" where
  "ends_table t \<longleftrightarrow> ends_expr t \<and> t \<notin> {KAs, KRight, KLeft, KInner, KJoin}"

lemma base_run [simp]:
  "good u (alias_tokens a @ ts) \<Longrightarrow> current ts \<noteq> KAs \<Longrightarrow>
   seq (parse_base_table u) f (feed (Ident n # alias_tokens a @ ts)) = f (BaseTable n a) (feed ts)"
  by (simp add: parse_base_table_def seq_assoc)

lemma join_type_run [simp]:
  "good u ts \<Longrightarrow> seq (parse_join_type u) f (feed (join_tokens jt @ ts)) = f jt (feed (KJoin # ts))"
  by (cases jt) (simp_all add: parse_join_type_def seq_assoc)

lemma joins_end: "ends_table (current ts) \<Longrightarrow> parse_joins u t (feed ts) = ret t (feed ts)"
  by (subst parse_joins.simps) (auto simp: ends_table_def parse_join_type_def seq_assoc split: token.split)

lemma join_tokens_start [simp]: "current (join_tokens jt @ ts) \<noteq> KAs" "ends_expr (current (join_tokens jt @ ts))"
  by (cases jt; simp add: ends_expr_def)+

lemma table_run:
  assumes "left_deep t" "good u (table_tokens t @ ts)" "current ts \<noteq> KAs" "ends_expr (current ts)"
  shows "seq (parse_base_table u) (parse_joins u) (feed (table_tokens t @ ts)) = parse_joins u t (feed ts)"
  using assms
proof (induction t arbitrary: ts rule: left_deep.induct)
  case (2 l n a jt c)
  have "seq (parse_base_table u) (parse_joins u) (feed (table_tokens (JoinTable l (BaseTable n a) jt c) @ ts)) =
      parse_joins u l (feed (join_tokens jt @ Ident n # alias_tokens a @ KOn # expr_tokens 0 c @ ts))"
    using 2 by simp
  also have "\<dots> = parse_joins u (JoinTable l (BaseTable n a) jt c) (feed ts)"
    using 2 by (subst parse_joins.simps) (simp add: seq_assoc ends_expr_def)
  finally show ?case .
qed simp_all

lemma from_feed:
  "left_deep t \<Longrightarrow> good u (table_tokens t @ ts) \<Longrightarrow> ends_table (current ts) \<Longrightarrow>
   parse_from_clause u (feed (KFrom # table_tokens t @ ts)) = ret (Some t) (feed ts)"
proof -
  assume t: "left_deep t" "good u (table_tokens t @ ts)" "ends_table (current ts)"
  have "seq (parse_base_table u) (parse_joins u) (feed (table_tokens t @ ts)) = ret t (feed ts)"
    using table_run [OF t(1,2)] t(3) joins_end [OF t(3)] by (simp add: ends_table_def)
  from seq_run [of "seq (parse_base_table u) (parse_joins u)", OF this, of "\<lambda>from. ret (Some from)"]
  show ?thesis using t by (simp add: parse_from_clause_def seq_assoc)
qed

lemma group_run [simp]:
  "good u (group_tokens cs @ ts) \<Longrightarrow> current ts \<notin> {Dot, Comma, KGroup} \<Longrightarrow>
   seq (parse_group_by u) f (feed (group_tokens cs @ ts)) = f cs (feed ts)"
  unfolding parse_group_by_def group_tokens_def
  by (cases "cs = []") (simp_all add: seq_assoc, rule comma_run [where follow = "\<lambda>t. t \<noteq> Dot", OF column_feed], simp_all)

lemma sort_feed:
  "good u (sort_tokens s @ ts) \<Longrightarrow> parse_sort_specification u (feed (sort_tokens s @ ts)) = ret s (feed ts)"
  by (cases s) (simp add: parse_sort_specification_def sort_tokens_def)

lemma order_run [simp]:
  "good u (order_tokens ss @ ts) \<Longrightarrow> current ts \<notin> {Comma, KOrder} \<Longrightarrow>
   seq (parse_order_by u) f (feed (order_tokens ss @ ts)) = f ss (feed ts)"
  unfolding parse_order_by_def order_tokens_def
  by (cases "ss = []") (simp_all add: seq_assoc, rule comma_run [where follow = "\<lambda>_. True", OF sort_feed], simp_all)

definition bounded :: "nat option \<Rightarrow> bool" where
  "bounded n \<longleftrightarrow> (case n of None \<Rightarrow> True | Some k \<Rightarrow> k < 2 ^ 63)"

lemma usize_run [simp]:
  assumes "n < 2 ^ 63" "good u ts"
  shows "seq (parse_usize_literal u) f (feed (IntLit (of_nat n) # ts)) = f n (feed ts)"
proof -
  have "unat (of_nat n :: i64) = n" using assms by (simp add: unat_of_nat take_bit_nat_eq_self)
  moreover have "\<not> sint (of_nat n :: i64) < 0"
  proof -
    have "sint (of_nat n :: i64) = int n"
      using assms by (simp add: signed_of_nat) (rule signed_take_bit_int_eq_self, simp_all)
    then show ?thesis by simp
  qed
  ultimately show ?thesis using assms by (simp add: parse_usize_literal_def seq_assoc)
qed

lemma limit_run [simp]:
  assumes "bounded lim" "bounded off" "good u (limit_tokens lim off @ ts)" "current ts \<notin> {KLimit, KOffset}"
  shows "seq (parse_limit_offset u) f (feed (limit_tokens lim off @ ts)) = f (lim, off) (feed ts)"
proof (rule seq_run)
  have stop: "limit_offset_loop u a b (feed ts) = ret (a, b) (feed ts)" for a b
    using assms(4) by (subst limit_offset_loop.simps) simp
  have offs: "limit_offset_loop u a None (feed (KOffset # IntLit (of_nat n) # ts)) = ret (a, Some n) (feed ts)"
    if "n < 2 ^ 63" "good u (KOffset # IntLit (of_nat n) # ts)" for a n
    using that stop by (subst limit_offset_loop.simps) simp
  show "parse_limit_offset u (feed (limit_tokens lim off @ ts)) = ret (lim, off) (feed ts)"
  proof (cases lim)
    case None
    then show ?thesis using assms stop offs
      by (cases off) (simp_all add: parse_limit_offset_def limit_tokens_def bounded_def)
  next
    case (Some n)
    have "limit_offset_loop u None None (feed (KLimit # IntLit (of_nat n) # us)) = limit_offset_loop u (Some n) None (feed us)"
      if "good u (IntLit (of_nat n) # us)" for us
      using that assms(1) Some by (subst limit_offset_loop.simps) (simp add: bounded_def)
    then show ?thesis using Some assms stop offs
      by (cases off) (simp_all add: parse_limit_offset_def limit_tokens_def bounded_def)
  qed
qed

section \<open>Statements\<close>

fun select_tokens :: "select_stmt \<Rightarrow> token list" where
  "select_tokens s = KSelect # list_tokens (se_list s) @
     (case se_from s of None \<Rightarrow> [] | Some t \<Rightarrow> KFrom # table_tokens t) @ where_tokens (se_where s) @
     group_tokens (se_group_by s) @ order_tokens (se_order_by s) @ limit_tokens (se_limit s) (se_offset s)"

fun insert_tokens :: "insert_stmt \<Rightarrow> token list" where
  "insert_tokens s = [KInsert, KInto, Ident (is_table s)] @
     (if is_columns s = [] then [] else LParen # separated (\<lambda>n. [Ident n]) (is_columns s) @ [RParen]) @
     KValues # separated (\<lambda>row. LParen # separated (expr_tokens 0) row @ [RParen]) (is_values s)"

definition assignment_tokens :: "assignment \<Rightarrow> token list" where
  "assignment_tokens a = Ident (as_column a) # SEq # expr_tokens 0 (as_value a)"

fun update_tokens :: "update_stmt \<Rightarrow> token list" where
  "update_tokens s = [KUpdate, Ident (us_table s), KSet] @ separated assignment_tokens (us_assignments s) @
     where_tokens (us_where s)"

fun delete_tokens :: "delete_stmt \<Rightarrow> token list" where
  "delete_tokens s = [KDelete, KFrom, Ident (ds_table s)] @ where_tokens (ds_where s)"

fun type_tokens :: "data_type \<Rightarrow> u32 option \<Rightarrow> token list" where
  "type_tokens TBigInt n = [KBigIntType]" | "type_tokens TInt n = [KIntType]" | "type_tokens TBoolean n = [KBooleanType]"
| "type_tokens TVarchar n = [KVarcharType, LParen, IntLit (ucast (the n)), RParen]"

definition definition_tokens :: "column_definition \<Rightarrow> token list" where
  "definition_tokens c = Ident (cd_name c) # type_tokens (cd_type c) (cd_length c) @ (if cd_is_pk c then [KPrimary, KKey] else [])"

fun statement_tokens :: "statement \<Rightarrow> token list" where
  "statement_tokens (Select s) = select_tokens s"
| "statement_tokens (Insert s) = insert_tokens s"
| "statement_tokens (Update s) = update_tokens s"
| "statement_tokens (Delete s) = delete_tokens s"
| "statement_tokens statement.Commit = [KCommit]"
| "statement_tokens Begin = [KBegin]"
| "statement_tokens Rollback = [KRollback]"
| "statement_tokens (CreateTable s) =
     [KCreate, KTable, Ident (ct_table s), LParen] @ separated definition_tokens (ct_columns s) @ [RParen]"
| "statement_tokens (CreateIndex s) = KCreate # (if ci_unique s then [KUnique] else []) @
     [KIndex, Ident (ci_index s), KOn, Ident (ci_table s), LParen, Ident (ci_column s), RParen]"
| "statement_tokens (UseDatabase n) = [KUse, Ident n]"
| "statement_tokens (DropTable n) = [KDrop, KTable, Ident n]"
| "statement_tokens ShowTables = [KShow, KTables]"
| "statement_tokens ShowIndexes = [KShow, KIndexes]"

text \<open>The shape of the statements that the grammar has: no empty list, joins to the left, and
  the lengths of exactly the VARCHAR columns.\<close>

definition definition_ok :: "column_definition \<Rightarrow> bool" where
  "definition_ok c \<longleftrightarrow> (if cd_type c = TVarchar then \<exists>n > 0. cd_length c = Some n else cd_length c = None)"

fun in_grammar :: "statement \<Rightarrow> bool" where
  "in_grammar (Select s) \<longleftrightarrow> se_list s \<noteq> [] \<and> (\<exists>t. se_from s = Some t \<and> left_deep t) \<and> bounded (se_limit s) \<and> bounded (se_offset s)"
| "in_grammar (Insert s) \<longleftrightarrow> is_values s \<noteq> [] \<and> (\<forall>row \<in> set (is_values s). row \<noteq> [])"
| "in_grammar (Update s) \<longleftrightarrow> us_assignments s \<noteq> []"
| "in_grammar (CreateTable s) \<longleftrightarrow> ct_columns s \<noteq> [] \<and> (\<forall>c \<in> set (ct_columns s). definition_ok c)"
| "in_grammar _ \<longleftrightarrow> True"

definition ends_statement :: "token \<Rightarrow> bool" where
  "ends_statement t \<longleftrightarrow> t = Semicolon \<or> t = Eof"

lemma current_clauses:
  "ends_statement (current ts) \<Longrightarrow> current (limit_tokens lim off @ ts) \<in> {KLimit, KOffset, Semicolon, Eof}"
  "t \<in> {KLimit, KOffset, Semicolon, Eof} \<Longrightarrow> current us = t \<Longrightarrow> current (order_tokens ss @ us) \<in> {KOrder, KLimit, KOffset, Semicolon, Eof}"
  "t \<in> {KOrder, KLimit, KOffset, Semicolon, Eof} \<Longrightarrow> current us = t \<Longrightarrow>
     current (group_tokens cs @ us) \<in> {KGroup, KOrder, KLimit, KOffset, Semicolon, Eof}"
  "t \<in> {KGroup, KOrder, KLimit, KOffset, Semicolon, Eof} \<Longrightarrow> current us = t \<Longrightarrow>
     current (where_tokens w @ us) \<in> {KWhere, KGroup, KOrder, KLimit, KOffset, Semicolon, Eof}"
  by (auto simp: ends_statement_def limit_tokens_def order_tokens_def group_tokens_def where_tokens_def split: option.split)

lemma select_feed:
  assumes s: "in_grammar (Select s)" "good u (select_tokens s @ ts)" "ends_statement (current ts)"
  shows "parse_select u (feed (select_tokens s @ ts)) = ret s (feed ts)"
proof -
  obtain t where t: "se_from s = Some t" "left_deep t" using s(1) by auto
  define l where "l = limit_tokens (se_limit s) (se_offset s) @ ts"
  define o' where "o' = order_tokens (se_order_by s) @ l"
  define g where "g = group_tokens (se_group_by s) @ o'"
  define w where "w = where_tokens (se_where s) @ g"
  have cl: "current l \<in> {KLimit, KOffset, Semicolon, Eof}" using current_clauses(1) [OF s(3)] by (simp add: l_def)
  have co: "current o' \<in> {KOrder, KLimit, KOffset, Semicolon, Eof}" using current_clauses(2) [OF cl refl] by (simp add: o'_def)
  have cg: "current g \<in> {KGroup, KOrder, KLimit, KOffset, Semicolon, Eof}" using current_clauses(3) [OF co refl] by (simp add: g_def)
  have cw: "current w \<in> {KWhere, KGroup, KOrder, KLimit, KOffset, Semicolon, Eof}" using current_clauses(4) [OF cg refl] by (simp add: w_def)
  have good: "good u (list_tokens (se_list s))" "good u (table_tokens t)" "good u w" "good u g" "good u o'" "good u l" "good u ts"
    using s(2) t by (simp_all add: w_def g_def o'_def l_def)
  have "attempt (parse_from_clause u) (feed (KFrom # table_tokens t @ w)) = ret (Ok (Some t)) (feed w)"
    using from_feed [OF t(2), of u w] good cw by (auto simp: attempt_def ret_def ends_table_def ends_expr_def closed_def)
  from seq_run [of "attempt (parse_from_clause u)", OF this]
  have from_run: "seq (attempt (parse_from_clause u)) f (feed (KFrom # table_tokens t @ w)) = f (Ok (Some t)) (feed w)" for f :: "_ \<Rightarrow> select_stmt parse" .
  have w_run: "seq (parse_where_clause u) f (feed w) = f (se_where s) (feed g)" for f :: "_ \<Rightarrow> select_stmt parse"
    unfolding w_def by (rule where_run) (use good cg in \<open>auto simp: w_def closed_def\<close>)
  have g_run: "seq (parse_group_by u) f (feed g) = f (se_group_by s) (feed o')" for f :: "_ \<Rightarrow> select_stmt parse"
    unfolding g_def by (rule group_run) (use good co in \<open>auto simp: g_def\<close>)
  have o_run: "seq (parse_order_by u) f (feed o') = f (se_order_by s) (feed l)" for f :: "_ \<Rightarrow> select_stmt parse"
    unfolding o'_def by (rule order_run) (use good cl in \<open>auto simp: o'_def\<close>)
  have l_run: "seq (parse_limit_offset u) f (feed l) = f (se_limit s, se_offset s) (feed ts)" for f :: "_ \<Rightarrow> select_stmt parse"
    unfolding l_def by (rule limit_run) (use good s in \<open>auto simp: l_def ends_statement_def\<close>)
  have "select_tokens s @ ts = KSelect # list_tokens (se_list s) @ KFrom # table_tokens t @ w"
    using t by (simp add: w_def g_def o'_def l_def)
  then show ?thesis using good s(1) t
    by (simp add: parse_select_def from_run w_run g_run o_run l_run) (cases s, simp)
qed

lemma expressions_feed:
  "good u (expr_tokens 0 e @ ts) \<Longrightarrow> ends_expr (current ts) \<Longrightarrow> parse_expressions u (feed (expr_tokens 0 e @ ts)) = ret e (feed ts)"
  unfolding parse_expressions_def parse_or_condition_def ends_expr_def
  using parsesD(4) [of u e ts] expr_parses [of u e] loops_end by simp

lemma names_run [simp]:
  "ns \<noteq> [] \<Longrightarrow> good u (separated (\<lambda>n. [Ident n]) ns @ ts) \<Longrightarrow> current ts \<noteq> Comma \<Longrightarrow>
   seq (comma_list u (parse_identifier u)) f (feed (separated (\<lambda>n. [Ident n]) ns @ ts)) = f ns (feed ts)"
  by (rule comma_run [where follow = "\<lambda>_. True"]) simp_all

lemma row_feed:
  "row \<noteq> [] \<Longrightarrow> good u (LParen # separated (expr_tokens 0) row @ [RParen] @ ts) \<Longrightarrow>
   parse_parenthesized u (parse_expressions u) (feed (LParen # separated (expr_tokens 0) row @ [RParen] @ ts)) = ret row (feed ts)"
proof -
  assume r: "row \<noteq> []" "good u (LParen # separated (expr_tokens 0) row @ [RParen] @ ts)"
  have "seq (comma_list u (parse_expressions u)) f (feed (separated (expr_tokens 0) row @ RParen # ts)) = f row (feed (RParen # ts))" for f :: "_ \<Rightarrow> expr list parse"
    by (rule comma_run [where follow = ends_expr, OF expressions_feed]) (use r in \<open>simp_all add: ends_expr_def\<close>)
  then show ?thesis using r by (simp add: parse_parenthesized_def)
qed

lemma insert_feed:
  assumes "in_grammar (Insert s)" "good u (insert_tokens s @ ts)" "current ts \<noteq> Comma"
  shows "parse_insert u (feed (insert_tokens s @ ts)) = ret s (feed ts)"
proof -
  let ?row = "\<lambda>row. LParen # separated (expr_tokens 0) row @ [RParen]"
  have rows: "seq (comma_list u (parse_parenthesized u (parse_expressions u))) f (feed (separated ?row (is_values s) @ ts)) =
      f (is_values s) (feed ts)" for f :: "_ \<Rightarrow> insert_stmt parse"
    by (rule comma_run [where follow = "\<lambda>_. True"]) (use assms row_feed in auto)
  show ?thesis using assms rows by (cases s; cases "is_columns s = []") (simp_all add: parse_insert_def seq_assoc)
qed

lemma assignment_feed:
  "good u (assignment_tokens a @ ts) \<Longrightarrow> ends_expr (current ts) \<Longrightarrow>
   parse_assignment u (feed (assignment_tokens a @ ts)) = ret a (feed ts)"
  by (cases a) (simp add: parse_assignment_def assignment_tokens_def ends_expr_def)

lemma current_where: "ends_statement (current ts) \<Longrightarrow> current (where_tokens w @ ts) \<in> {KWhere, Semicolon, Eof}"
  by (auto simp: ends_statement_def where_tokens_def split: option.split)

lemma update_feed:
  assumes "in_grammar (Update s)" "good u (update_tokens s @ ts)" "ends_statement (current ts)"
  shows "parse_update u (feed (update_tokens s @ ts)) = ret s (feed ts)"
proof -
  have "seq (comma_list u (parse_assignment u)) f (feed (separated assignment_tokens (us_assignments s) @ where_tokens (us_where s) @ ts)) =
      f (us_assignments s) (feed (where_tokens (us_where s) @ ts))" for f :: "_ \<Rightarrow> update_stmt parse"
    by (rule comma_run [where follow = ends_expr, OF assignment_feed])
      (use assms current_where [OF assms(3), of "us_where s"] in \<open>auto simp: ends_expr_def closed_def\<close>)
  then show ?thesis using assms by (cases s) (auto simp: parse_update_def ends_statement_def)
qed

lemma delete_feed:
  "good u (delete_tokens s @ ts) \<Longrightarrow> ends_statement (current ts) \<Longrightarrow> parse_delete u (feed (delete_tokens s @ ts)) = ret s (feed ts)"
  by (cases s) (auto simp: parse_delete_def ends_statement_def)

lemma type_run [simp]:
  assumes "if ty = TVarchar then \<exists>k > 0. n = Some k else n = None" "good u (type_tokens ty n @ ts)"
  shows "seq (parse_data_type u) f (feed (type_tokens ty n @ ts)) = f (ty, n) (feed ts)"
proof (cases "ty = TVarchar")
  case True
  then obtain k where k: "n = Some k" "k > 0" using assms(1) by auto
  have "uint k < 2 ^ 32" using uint_lt2p [of k] by simp
  moreover from this have "uint (ucast k :: i64) = uint k" by (simp add: unsigned_ucast_eq take_bit_int_eq_self)
  ultimately have "sint (ucast k :: i64) = uint k"
    using order_trans [OF _ uint_ge_0 [of k], of "- (2 ^ 63)"]
    by (simp add: sint_uint) (rule signed_take_bit_int_eq_self, simp_all)
  moreover have "0 < uint k" using k(2) by (simp add: word_less_def)
  moreover have "ucast (ucast k :: i64) = k" by transfer simp
  ultimately show ?thesis
    using True k assms(2) by (simp add: parse_data_type_def parse_varchar_def seq_assoc)
next
  case False
  with assms show ?thesis by (cases ty) (simp_all add: parse_data_type_def seq_assoc)
qed

lemma definition_feed:
  "definition_ok c \<Longrightarrow> good u (definition_tokens c @ ts) \<Longrightarrow> current ts \<noteq> KPrimary \<Longrightarrow>
   parse_column_definition u (feed (definition_tokens c @ ts)) = ret c (feed ts)"
  by (cases c; cases "cd_type c = TVarchar")
    (auto simp: parse_column_definition_def definition_tokens_def definition_ok_def simp del: type_tokens.simps)

section \<open>Scripts\<close>

lemma create_feed:
  "in_grammar (CreateTable c) \<Longrightarrow> good u (statement_tokens (CreateTable c) @ ts) \<Longrightarrow>
     parse_create u (feed (statement_tokens (CreateTable c) @ ts)) = ret (CreateTable c) (feed ts)"
  "good u (statement_tokens (CreateIndex i) @ ts) \<Longrightarrow>
     parse_create u (feed (statement_tokens (CreateIndex i) @ ts)) = ret (CreateIndex i) (feed ts)"
proof -
  assume c: "in_grammar (CreateTable c)" "good u (statement_tokens (CreateTable c) @ ts)"
  have "seq (comma_list u (parse_column_definition u)) f (feed (separated definition_tokens (ct_columns c) @ RParen # ts)) =
      f (ct_columns c) (feed (RParen # ts))" for f :: "_ \<Rightarrow> column_definition list parse"
    by (rule comma_run [where follow = "\<lambda>t. t \<noteq> KPrimary"]) (use c definition_feed in auto)
  then have "seq (parse_parenthesized u (parse_column_definition u)) f
      (feed (LParen # separated definition_tokens (ct_columns c) @ RParen # ts)) = f (ct_columns c) (feed ts)"
    for f :: "_ \<Rightarrow> statement parse"
    using c by (intro seq_run) (simp add: parse_parenthesized_def)
  then show "parse_create u (feed (statement_tokens (CreateTable c) @ ts)) = ret (CreateTable c) (feed ts)"
    using c by (cases c) (simp add: parse_create_def parse_create_table_def seq_assoc)
next
  assume i: "good u (statement_tokens (CreateIndex i) @ ts)"
  then show "parse_create u (feed (statement_tokens (CreateIndex i) @ ts)) = ret (CreateIndex i) (feed ts)"
    by (cases i; cases "ci_unique i")
      (simp_all add: parse_create_def parse_create_index_def parse_create_unique_index_def seq_assoc)
qed

lemma statement_feed:
  assumes st: "in_grammar st" "good u (statement_tokens st @ ts)" "ends_statement (current ts)"
  shows "parse_statement u (feed (statement_tokens st @ ts)) = ret st (feed ts)"
proof -
  have stop: "current ts \<noteq> KTransaction" "current ts \<noteq> Comma" using st(3) by (auto simp: ends_statement_def)
  show ?thesis
  proof (cases st)
    case (Select s)
    have "seq (parse_select u) (\<lambda>x. ret (Select x)) (feed (select_tokens s @ ts)) = ret (Select s) (feed ts)"
      by (rule seq_run, rule select_feed) (use st Select in simp_all)
    then show ?thesis using Select by (simp add: parse_statement_def)
  next
    case (Insert s)
    have "seq (parse_insert u) (\<lambda>x. ret (Insert x)) (feed (insert_tokens s @ ts)) = ret (Insert s) (feed ts)"
      by (rule seq_run, rule insert_feed) (use st Insert stop in simp_all)
    then show ?thesis using Insert by (simp add: parse_statement_def)
  next
    case (Update s)
    have "seq (parse_update u) (\<lambda>x. ret (Update x)) (feed (update_tokens s @ ts)) = ret (Update s) (feed ts)"
      by (rule seq_run, rule update_feed) (use st Update in simp_all)
    then show ?thesis using Update by (simp add: parse_statement_def)
  next
    case (Delete s)
    have "seq (parse_delete u) (\<lambda>x. ret (Delete x)) (feed (delete_tokens s @ ts)) = ret (Delete s) (feed ts)"
      by (rule seq_run, rule delete_feed) (use st Delete in simp_all)
    then show ?thesis using Delete by (simp add: parse_statement_def)
  next
    case (CreateTable c)
    then show ?thesis using create_feed(1) [of c u ts] st by (simp add: parse_statement_def)
  next
    case (CreateIndex i)
    then show ?thesis using create_feed(2) [of u i ts] st by (cases "ci_unique i") (simp_all add: parse_statement_def)
  qed (use st stop in \<open>simp_all add: parse_statement_def parse_transaction_def parse_show_def seq_assoc\<close>)
qed

definition script_tokens :: "statement list \<Rightarrow> token list" where
  "script_tokens sts = concat (map (\<lambda>st. statement_tokens st @ [Semicolon]) sts)"

lemma statement_start: "current (statement_tokens st @ ts) \<noteq> Eof" "current (statement_tokens st @ ts) \<noteq> Semicolon"
  by (cases st; simp)+

lemma script_feed:
  "\<forall>st \<in> set sts. in_grammar st \<Longrightarrow> good u (script_tokens sts) \<Longrightarrow> parse_script u (feed (script_tokens sts)) = ret sts (feed [])"
proof (induction sts)
  case Nil
  then show ?case by (subst parse_script.simps) (simp add: script_tokens_def)
next
  case (Cons st sts)
  have tokens: "script_tokens (st # sts) = statement_tokens st @ Semicolon # script_tokens sts" by (simp add: script_tokens_def)
  have s: "seq (parse_statement u) f (feed (statement_tokens st @ Semicolon # script_tokens sts)) =
      f st (feed (Semicolon # script_tokens sts))" for f :: "_ \<Rightarrow> statement list parse"
    by (rule seq_run, rule statement_feed) (use Cons in \<open>simp_all add: tokens ends_statement_def\<close>)
  have r: "seq (parse_script u) (\<lambda>sts. ret (st # sts)) (feed (script_tokens sts)) = ret (st # sts) (feed [])"
    by (rule seq_run, rule Cons.IH) (use Cons in \<open>simp_all add: tokens\<close>)
  show ?case
    using Cons.prems statement_start [of st] s r by (subst parse_script.simps) (simp add: tokens)
qed

lemma parse_script_text:
  "good u (script_tokens sts) \<Longrightarrow> \<forall>st \<in> set sts. in_grammar st \<Longrightarrow>
   parse_batch u (chars (print_tokens (script_tokens sts))) = Some (Ok sts)"
  using script_feed [of sts u] by (simp add: parse_batch_def parser_new_feed ret_def)

text \<open>
  C15: Lexer and parser invert the printer: any list of statements of the grammar, printed as
  tokens with minimal parentheses, left-deep joins and semicolons, is parsed back to exactly
  these statements, over any Unicode tables that are right on ASCII.
\<close>

lemma parse_printed:
  assumes "ascii_tables u" "\<forall>st \<in> set sts. in_grammar st \<and> list_all token_ok (statement_tokens st)"
  shows "parse_batch u (chars (print_tokens (script_tokens sts))) = Some (Ok sts)"
proof -
  have "good u (script_tokens sts)"
    using assms by (auto simp: good_def script_tokens_def list_all_iff)
  then show ?thesis using assms(2) by (intro parse_script_text) simp_all
qed

section \<open>A script\<close>

definition ascii :: unicode where
  "ascii = \<lparr>uc_whitespace = (\<lambda>c. c = 32 \<or> 9 \<le> c \<and> c \<le> 13), uc_alphabetic = letter,
     uc_numeric = (\<lambda>c. 48 \<le> c \<and> c \<le> 57), uc_uppercase = map upper\<rparr>"

lemma ascii_tables_ascii: "ascii_tables ascii"
  by (simp add: ascii_tables_def ascii_def)

definition ex_script :: "statement list" where
  "ex_script = [Begin,
     Update \<lparr>us_table = ''t'', us_assignments = [\<lparr>as_column = ''b'', as_value = ELiteral (LString ''x y'')\<rparr>],
       us_where = Some (EBinaryOp (EBinaryOp (EColumn \<lparr>cf_qualifier = Some ''t'', cf_name = ''id''\<rparr>) OpGte (ELiteral (LInt 12)))
         OpAnd (EBinaryOp (EColumn \<lparr>cf_qualifier = None, cf_name = ''b''\<rparr>) OpOr (ELiteral (LBoolean True))))\<rparr>,
     statement.Commit]"

lemma ex_names: "name_ok ''t''" "name_ok ''b''" "name_ok ''id''"
  by (simp_all add: name_ok_def keyword_table_def word_char_def letter_def upper_def)

lemma ex_digits: "char_of (49 :: nat) = CHR ''1''" "char_of (50 :: nat) = CHR ''2''"
  using char_of_char [of "CHR ''1''", where 'a = nat] char_of_char [of "CHR ''2''", where 'a = nat] by simp_all

lemma ex_script_text: "print_tokens (script_tokens ex_script) =
    '' BEGIN ; UPDATE t SET b = '' @ [CHR 0x27] @ ''x y'' @ [CHR 0x27] @ '' WHERE t . id >= 12 AND ( b OR TRUE ) ; COMMIT ;''"
  by (simp add: ex_script_def script_tokens_def print_tokens_def assignment_tokens_def where_tokens_def column_tokens_def
      keyword_of_def keyword_table_def decimal.simps [of 12] decimal.simps [of "Suc 0"] ex_digits)

lemma parse_printed_witness: "parse_batch ascii (chars ('' BEGIN ; UPDATE t SET b = '' @ [CHR 0x27] @ ''x y'' @ [CHR 0x27] @
    '' WHERE t . id >= 12 AND ( b OR TRUE ) ; COMMIT ;'')) = Some (Ok ex_script)"
proof -
  have "\<forall>st \<in> set ex_script. in_grammar st \<and> list_all token_ok (statement_tokens st)"
    by (simp add: ex_script_def assignment_tokens_def where_tokens_def column_tokens_def ex_names is_quote_def)
  from parse_printed [OF ascii_tables_ascii this] show ?thesis unfolding ex_script_text .
qed

end
