(* ===== verification/Engine.thy ===== *)
theory Engine
  imports Queries Printing Example
begin

text \<open>
  The engine of src/src/engine.rs: opening a database, sessions, and the execution of scripts.

  A session is the state of a connection together with the database it borrows. A statement is
  planned against the catalog, runs in the active transaction or in one of its own, and is
  drained to its last row; an error while it runs rolls the transaction back. The step relation
  \<open>mode_step\<close> is the abstract contract of the transaction mode: which transaction is active
  before and after a statement, and which id the next one gets.
\<close>

section \<open>Databases and sessions\<close>

datatype result_set = QueryResult "tuple list" schema | Mutation nat

record database =
  db_pool :: pool
  db_catalog :: catalog
  db_next_txn_id :: u64

record session =
  ss_database :: database
  ss_txn :: "txn_handle option"

text \<open>What the engine depends on: the environment of the executors, the character tables of the
  lexer, and the order in which a set of pages is walked.\<close>

record world =
  wd_env :: env
  wd_unicode :: unicode
  wd_order :: "page_id set \<Rightarrow> page_id list"

text \<open>Recovery opens the log, and the engine opens what recovery has left of it.\<close>

definition database_open :: "world \<Rightarrow> u8 list \<Rightarrow> u8 list \<Rightarrow> nat \<Rightarrow> database res option" where
  "database_open wd db_file wal_log pool_cap =
     (case res_bind (disk_open db_file) (recovery_init wal_log) of
        Err e \<Rightarrow> Some (Err e)
      | Panic \<Rightarrow> Some Panic
      | Ok (w, d) \<Rightarrow>
          map_option (\<lambda>(r, (c, s)).
            res_bind r (\<lambda>_. Ok \<lparr>db_pool = s, db_catalog = c, db_next_txn_id = 1\<rparr>))
            (bootstrap (ev_pins (wd_env wd)) (wd_order wd) (ev_keys (wd_env wd))
               (catalog_new, pool_new d pool_cap (wal_open (wal_file w)))))"

definition connect :: "database \<Rightarrow> session" where
  "connect d = \<lparr>ss_database = d, ss_txn = None\<rparr>"

definition session_pool :: "(pool, 'a) call \<Rightarrow> (session, 'a) call" where
  "session_pool = focus (\<lambda>s. db_pool (ss_database s)) (\<lambda>p s. s\<lparr>ss_database := (ss_database s)\<lparr>db_pool := p\<rparr>\<rparr>)"

section \<open>Transactions of a session\<close>

definition handle_begin :: "(session, result_set) call" where
  "handle_begin s = (case ss_txn s of
     Some _ \<Rightarrow> fail (ActionNotAllowed ''Transaction already active.'') s
   | None \<Rightarrow>
       let d = ss_database s in
       ret (Mutation 0) (s\<lparr>ss_database := d\<lparr>db_next_txn_id := db_next_txn_id d + 1\<rparr>,
         ss_txn := Some (txn_new (db_next_txn_id d))\<rparr>))"

text \<open>The handle is taken out of the session, finished, and dropped at the end of the block,
  after an error too.\<close>

definition finish_txn ::
    "world \<Rightarrow> (txn_handle \<Rightarrow> (pool, txn_handle) call) \<Rightarrow> (session, result_set) call" where
  "finish_txn wd action s = (case ss_txn s of
     None \<Rightarrow> fail (ActionNotAllowed ''No active transaction'') s
   | Some h \<Rightarrow>
       seq (attempt (session_pool (action h))) (\<lambda>r. case r of
         Ok h' \<Rightarrow> seq (session_pool (txn_drop (wd_order wd) h')) (\<lambda>_. ret (Mutation 0))
       | Err e \<Rightarrow> seq (session_pool (txn_drop (wd_order wd) h)) (\<lambda>_. fail e)
       | Panic \<Rightarrow> panic) (s\<lparr>ss_txn := None\<rparr>))"

definition handle_commit :: "world \<Rightarrow> (session, result_set) call" where
  "handle_commit wd = finish_txn wd (txn_commit (wd_order wd))"

definition handle_rollback :: "world \<Rightarrow> (session, result_set) call" where
  "handle_rollback wd = finish_txn wd (txn_abort (wd_order wd))"

text \<open>Dropping the connection aborts its transaction; dropping the database stops the flusher.\<close>

definition session_drop :: "world \<Rightarrow> (session, unit) call" where
  "session_drop wd s = (case ss_txn s of
     None \<Rightarrow> ret () s
   | Some h \<Rightarrow> session_pool (txn_drop (wd_order wd) h) (s\<lparr>ss_txn := None\<rparr>))"

definition database_drop :: "world \<Rightarrow> (session, unit) call" where
  "database_drop wd = session_pool (flusher_shutdown (wd_order wd))"

section \<open>Statements\<close>

text \<open>The loop that pulls the rows of an executor, on the pool and the catalog of the database.\<close>

definition run_executor :: "world \<Rightarrow> u64 \<Rightarrow> executor \<Rightarrow> (session, tuple list) call" where
  "run_executor wd t x =
     focus (\<lambda>s. (x, context_new (db_pool (ss_database s)) (db_catalog (ss_database s)) t))
       (\<lambda>(_, cx) s. s\<lparr>ss_database := (ss_database s)\<lparr>db_pool := cx_pool cx, db_catalog := cx_catalog cx\<rparr>\<rparr>)
       (drain (exec_next (wd_env wd) (height x)))"

definition execute_planned :: "world \<Rightarrow> query_plan \<Rightarrow> (session, result_set) call" where
  "execute_planned wd plan =
     seq (gets (\<lambda>s. ss_txn s = None)) (\<lambda>is_auto_txn.
     seq (if is_auto_txn then seq handle_begin (\<lambda>_. ret ()) else ret ()) (\<lambda>_.
     seq (gets ss_txn) (\<lambda>txn. case txn of
       None \<Rightarrow> panic
     | Some h \<Rightarrow>
         seq (attempt (run_executor wd (th_txn_id h) (qp_executor plan))) (\<lambda>r. case r of
           Ok rows \<Rightarrow>
             seq (if is_auto_txn then seq (handle_commit wd) (\<lambda>_. ret ()) else ret ()) (\<lambda>_.
             ret (if qp_is_query plan then QueryResult rows (qp_schema plan) else Mutation (length rows)))
         | Err exec_err \<Rightarrow>
             seq (attempt (handle_rollback wd)) (\<lambda>b. case b of
               Err _ \<Rightarrow> fail (Io ''CRITICAL: execution failed, AND rollback failed'')
             | _ \<Rightarrow> fail exec_err)
         | Panic \<Rightarrow> panic))))"

definition execute_statement :: "world \<Rightarrow> statement \<Rightarrow> (session, result_set) call" where
  "execute_statement wd stmt = (case stmt of
     statement.Commit \<Rightarrow> handle_commit wd
   | Begin \<Rightarrow> handle_begin
   | Rollback \<Rightarrow> handle_rollback wd
   | _ \<Rightarrow>
       seq (gets (\<lambda>s. plan_statement (ev_hash (wd_env wd)) (ev_keys (wd_env wd)) (db_catalog (ss_database s)) stmt)) (\<lambda>r.
       seq (lift r) (execute_planned wd)))"

fun execute_all :: "world \<Rightarrow> statement list \<Rightarrow> (session, result_set list) call" where
  "execute_all wd [] = ret []"
| "execute_all wd (stmt # stmts) =
     seq (execute_statement wd stmt) (\<lambda>r. seq (execute_all wd stmts) (\<lambda>rs. ret (r # rs)))"

definition execute_batch :: "world \<Rightarrow> nat list \<Rightarrow> (session, result_set list) call" where
  "execute_batch wd script s =
     Option.bind (parse_batch (wd_unicode wd) script) (\<lambda>r. seq (lift r) (execute_all wd) s)"

section \<open>The mode of a session\<close>

text \<open>The active transaction and the id of the next one.\<close>

definition mode :: "session \<Rightarrow> u64 option \<times> u64" where
  "mode s = (map_option th_txn_id (ss_txn s), db_next_txn_id (ss_database s))"

fun is_data :: "statement \<Rightarrow> bool" where
  "is_data statement.Commit = False" | "is_data Begin = False" | "is_data Rollback = False" | "is_data _ = True"

text \<open>A step of the mode for a statement whose planning, if it is a data statement, has succeeded or
  ended with \<open>p\<close>. The planner does not touch the session; an error of a statement that was planned is
  one of its execution.\<close>

inductive mode_step :: "statement \<Rightarrow> 'p res \<Rightarrow> u64 option \<times> u64 \<Rightarrow> result_set res \<Rightarrow> u64 option \<times> u64 \<Rightarrow> bool" where
  begin_new: "mode_step Begin p (None, n) (Ok (Mutation 0)) (Some n, n + 1)"
| begin_active: "mode_step Begin p (Some t, n) (Err (ActionNotAllowed ''Transaction already active.'')) (Some t, n)"
| end_active: "stmt = statement.Commit \<or> stmt = Rollback \<Longrightarrow> mode_step stmt p (Some t, n) r (None, n)"
| end_none: "stmt = statement.Commit \<or> stmt = Rollback \<Longrightarrow>
    mode_step stmt p (None, n) (Err (ActionNotAllowed ''No active transaction'')) (None, n)"
| plan_error: "is_data stmt \<Longrightarrow> mode_step stmt (Err e) (t, n) (Err e) (t, n)"
| auto_txn: "is_data stmt \<Longrightarrow> mode_step stmt (Ok plan) (None, n) r (None, n + 1)"
| explicit_ok: "is_data stmt \<Longrightarrow> mode_step stmt (Ok plan) (Some t, n) (Ok v) (Some t, n)"
| explicit_error: "is_data stmt \<Longrightarrow> mode_step stmt (Ok plan) (Some t, n) (Err e) (None, n)"

text \<open>The calls on the pool and the executors leave the mode alone.\<close>

lemma mode_simps [simp]:
  "mode (s\<lparr>ss_database := (ss_database s)\<lparr>db_pool := p\<rparr>\<rparr>) = mode s"
  "mode (s\<lparr>ss_database := (ss_database s)\<lparr>db_pool := p, db_catalog := c\<rparr>\<rparr>) = mode s"
  "mode (s\<lparr>ss_txn := None\<rparr>) = (None, snd (mode s))"
  by (simp_all add: mode_def)

lemma session_pool_mode: "session_pool m s = Some (r, s') \<Longrightarrow> mode s' = mode s"
  by (auto simp: session_pool_def focus_def bind_eq_Some_conv)

lemma run_executor_mode: "run_executor wd t x s = Some (r, s') \<Longrightarrow> mode s' = mode s"
  by (auto simp: run_executor_def focus_def bind_eq_Some_conv)

lemma seq_Some_iff: "seq m f s = Some (r, s') \<longleftrightarrow>
    (\<exists>a s1. m s = Some (Ok a, s1) \<and> f a s1 = Some (r, s')) \<or>
    (\<exists>e. m s = Some (Err e, s') \<and> r = Err e) \<or> (m s = Some (Panic, s') \<and> r = Panic)"
proof (cases "m s")
  case (Some x)
  then show ?thesis by (cases x, cases "fst x") (auto simp: seq_def)
qed (simp add: seq_def)

lemma attempt_Some_iff: "attempt m s = Some (r, s') \<longleftrightarrow>
    (\<exists>q. m s = Some (q, s') \<and> r = (if q = Panic then Panic else Ok q))"
proof (cases "m s")
  case (Some x)
  then show ?thesis by (cases x, cases "fst x") (auto simp: attempt_def)
qed (simp add: attempt_def)

lemma finish_txn_mode:
  assumes "finish_txn wd action s = Some (r, s')" "r \<noteq> Panic"
  shows "(\<exists>t. fst (mode s) = Some t \<and> mode s' = (None, snd (mode s))) \<or>
    (fst (mode s) = None \<and> mode s' = mode s \<and> r = Err (ActionNotAllowed ''No active transaction''))"
proof (cases "ss_txn s")
  case None
  then show ?thesis using assms by (auto simp: finish_txn_def fail_def mode_def)
next
  case (Some h)
  then have "mode s' = (None, snd (mode s))"
    using assms unfolding finish_txn_def
    by (auto simp: seq_Some_iff attempt_Some_iff ret_def fail_def panic_def dest!: session_pool_mode split: if_splits res.splits)
  with Some show ?thesis by (simp add: mode_def)
qed

lemma handle_begin_mode:
  "handle_begin s = Some (r, s') \<Longrightarrow> (case fst (mode s) of
     None \<Rightarrow> r = Ok (Mutation 0) \<and> mode s' = (Some (snd (mode s)), snd (mode s) + 1)
   | Some t \<Rightarrow> s' = s \<and> r = Err (ActionNotAllowed ''Transaction already active.''))"
  by (auto simp: handle_begin_def mode_def fail_def ret_def txn_new_def Let_def split: option.splits)

lemma execute_planned_mode:
  assumes "execute_planned wd plan s = Some (r, s')" "r \<noteq> Panic"
  shows "case fst (mode s) of
     None \<Rightarrow> mode s' = (None, snd (mode s) + 1)
   | Some t \<Rightarrow> (case r of Err e \<Rightarrow> mode s' = (None, snd (mode s)) | _ \<Rightarrow> mode s' = mode s)"
proof -
  let ?run = "\<lambda>auto h. seq (attempt (run_executor wd (th_txn_id h) (qp_executor plan))) (\<lambda>r. case r of
           Ok rows \<Rightarrow>
             seq (if auto then seq (handle_commit wd) (\<lambda>_. ret ()) else ret ()) (\<lambda>_.
             ret (if qp_is_query plan then QueryResult rows (qp_schema plan) else Mutation (length rows)))
         | Err exec_err \<Rightarrow>
             seq (attempt (handle_rollback wd)) (\<lambda>b. case b of
               Err _ \<Rightarrow> fail (Io ''CRITICAL: execution failed, AND rollback failed'')
             | _ \<Rightarrow> fail exec_err)
         | Panic \<Rightarrow> panic)"
  have run: "(\<exists>e. r = Err e) \<and> mode s' = (None, snd (mode x)) \<or>
      (\<exists>v. r = Ok v) \<and> mode s' = (if own then (None, snd (mode x)) else mode x)"
    if "?run own h x = Some (r, s')" "fst (mode x) \<noteq> None" for own h x
    using that assms(2)
    by (auto simp: seq_Some_iff attempt_Some_iff handle_commit_def handle_rollback_def ret_def fail_def panic_def
        dest!: run_executor_mode finish_txn_mode split: if_splits res.splits)
  show ?thesis
  proof (cases "ss_txn s")
    case None
    then obtain s1 where s1: "handle_begin s = Some (Ok (Mutation 0), s1)" "mode s1 = (Some (snd (mode s)), snd (mode s) + 1)"
      using handle_begin_mode by (auto simp: handle_begin_def mode_def ret_def Let_def txn_new_def)
    then obtain h where h: "ss_txn s1 = Some h" by (auto simp: mode_def)
    have "execute_planned wd plan s = ?run True h s1"
      unfolding execute_planned_def using None s1(1) h by (simp add: seq_assoc seq_Some)
    with run [of h True s1] assms(1) s1(2) None show ?thesis by (auto simp: mode_def)
  next
    case (Some h)
    then have "execute_planned wd plan s = ?run False h s"
      unfolding execute_planned_def by simp
    with run [of h False s] assms(1) Some show ?thesis by (auto simp: mode_def)
  qed
qed

lemma statement_mode:
  assumes "execute_statement wd stmt s = Some (r, s')" "r \<noteq> Panic"
  shows "mode_step stmt (plan_statement (ev_hash (wd_env wd)) (ev_keys (wd_env wd)) (db_catalog (ss_database s)) stmt)
    (mode s) r (mode s')"
proof -
  let ?plan = "plan_statement (ev_hash (wd_env wd)) (ev_keys (wd_env wd)) (db_catalog (ss_database s)) stmt"
  obtain t n where m: "mode s = (t, n)" by (cases "mode s")
  consider (data) "is_data stmt" | (starts) "stmt = Begin" | (ends) "stmt = statement.Commit \<or> stmt = Rollback"
    by (cases stmt) simp_all
  then show ?thesis
  proof cases
    case data
    then have run: "execute_statement wd stmt s = seq (lift ?plan) (execute_planned wd) s"
      by (cases stmt) (simp_all add: execute_statement_def)
    show ?thesis
    proof (cases ?plan)
      case (Ok plan)
      then have "execute_planned wd plan s = Some (r, s')" using run assms(1) by simp
      from execute_planned_mode [OF this assms(2)] data m assms(2) Ok show ?thesis
        by (cases t; cases r; auto intro: mode_step.intros)
    qed (use run assms data in \<open>auto simp: fail_def panic_def m intro: plan_error\<close>)
  next
    case starts
    with assms have "handle_begin s = Some (r, s')" by (simp add: execute_statement_def)
    from handle_begin_mode [OF this] starts m show ?thesis by (cases t) (auto intro: mode_step.intros)
  next
    case ends
    then obtain action where "finish_txn wd action s = Some (r, s')"
      using assms(1) by (auto simp: execute_statement_def handle_commit_def handle_rollback_def)
    from finish_txn_mode [OF this assms(2)] ends m show ?thesis by (auto intro: end_active end_none)
  qed
qed

text \<open>
  C13: Every statement refines the abstract mode machine: BEGIN opens a transaction with the
  next id or is refused inside one, COMMIT and ROLLBACK end the transaction even when they fail
  and are refused outside one; a data statement that the planner refuses fails with the
  planner's error and changes nothing; one that is planned runs, outside a transaction, in one
  of its own that is over afterwards, and inside one keeps it when it succeeds and ends it when
  it fails.
\<close>

lemma session_mode:
  assumes "execute_statement wd stmt s = Some (r, s')" "r \<noteq> Panic"
  shows "mode_step stmt (plan_statement (ev_hash (wd_env wd)) (ev_keys (wd_env wd)) (db_catalog (ss_database s)) stmt)
    (mode s) r (mode s')"
  by (rule statement_mode [OF assms])

section \<open>Rollback\<close>

lemma outcome_session_pool:
  "outcome (session_pool m s) Q E \<longleftrightarrow> outcome (m (db_pool (ss_database s)))
     (\<lambda>r p. Q r (s\<lparr>ss_database := (ss_database s)\<lparr>db_pool := p\<rparr>\<rparr>)) (\<lambda>e p. E e (s\<lparr>ss_database := (ss_database s)\<lparr>db_pool := p\<rparr>\<rparr>))"
  by (simp add: session_pool_def outcome_focus)

lemma txn_drop_completed [simp]: "th_completed h \<Longrightarrow> txn_drop order h = ret ()"
  by (simp add: txn_drop_def fun_eq_iff)

text \<open>
  C2: Rollback: when the transaction of a session has run from a quiet pool through any fetches,
  page mutations, allocations, flushes and cleanings, the statement ROLLBACK and the drop of the
  connection both succeed, leave no transaction, and give every page of the database the content
  it had when the transaction began.
\<close>

lemma rollback_restores:
  assumes txn: "ss_txn s = Some h" "\<not> th_completed h"
    and r: "txn_reach (th_txn_id h) D0 s0 D F (db_pool (ss_database s))"
    and s0: "pool_inv D0 {} s0" "txns_inv s0" "bp_txns s0 (th_txn_id h) = None" and ord: "order_ok (wd_order wd)"
  shows "outcome (execute_statement wd Rollback s)
      (\<lambda>r s'. r = Mutation 0 \<and> ss_txn s' = None \<and> (\<forall>p \<in> D0. page_content (db_pool (ss_database s')) p = page_content s0 p))
      (\<lambda>_ _. False) \<and>
    outcome (session_drop wd s)
      (\<lambda>_ s'. ss_txn s' = None \<and> (\<forall>p \<in> D0. page_content (db_pool (ss_database s')) p = page_content s0 p))
      (\<lambda>_ _. False)"
proof
  have abort: "outcome (txn_abort (wd_order wd) h (db_pool (ss_database s)))
      (\<lambda>h' p. th_completed h' \<and> (\<forall>q \<in> D0. page_content p q = page_content s0 q)) (\<lambda>_ _. False)"
    unfolding txn_abort_def using txn(2)
    by (simp add: outcome_seq) (rule outcome_weaken [OF abort_restores_contents [OF r s0 ord]], simp_all)
  show "outcome (execute_statement wd Rollback s)
      (\<lambda>r s'. r = Mutation 0 \<and> ss_txn s' = None \<and> (\<forall>p \<in> D0. page_content (db_pool (ss_database s')) p = page_content s0 p))
      (\<lambda>_ _. False)"
    by (simp add: execute_statement_def handle_rollback_def finish_txn_def txn(1) outcome_seq outcome_attempt outcome_session_pool)
      (rule outcome_weaken [OF abort], simp_all add: outcome_seq outcome_session_pool)
  show "outcome (session_drop wd s)
      (\<lambda>_ s'. ss_txn s' = None \<and> (\<forall>p \<in> D0. page_content (db_pool (ss_database s')) p = page_content s0 p))
      (\<lambda>_ _. False)"
    by (simp add: session_drop_def txn txn_drop_def outcome_seq outcome_attempt outcome_session_pool)
      (rule outcome_weaken [OF abort], simp_all)
qed

section \<open>Reading outside a transaction\<close>

definition read_only :: "page_id set \<Rightarrow> page_id set \<Rightarrow> page_id set \<Rightarrow> session \<Rightarrow> session \<Rightarrow> bool" where
  "read_only D F pins s s' \<longleftrightarrow> ss_txn s' = None \<and> db_catalog (ss_database s') = db_catalog (ss_database s) \<and>
     pool_inv D F (db_pool (ss_database s')) \<and> quiet D pins (db_pool (ss_database s)) (db_pool (ss_database s'))"

lemma idle_finish:
  "bp_txns (db_pool (ss_database s)) (th_txn_id h) = None \<Longrightarrow> ss_txn s = Some h \<Longrightarrow> \<not> th_completed h \<Longrightarrow>
     handle_commit wd s = ret (Mutation 0) (s\<lparr>ss_txn := None\<rparr>)"
  "bp_txns (db_pool (ss_database s)) (th_txn_id h) = None \<Longrightarrow> ss_txn s = Some h \<Longrightarrow> \<not> th_completed h \<Longrightarrow>
     handle_rollback wd s = ret (Mutation 0) (s\<lparr>ss_txn := None\<rparr>)"
  by (simp_all add: handle_commit_def handle_rollback_def finish_txn_def txn_commit_def txn_abort_def
      commit_transaction_def abort_transaction_def session_pool_def focus_def seq_def attempt_def ret_def)

lemma read_statement:
  assumes auto: "ss_txn s = None" "bp_txns (db_pool (ss_database s)) t = None" "t = db_next_txn_id (ss_database s)"
    and inv: "pool_inv D F (db_pool (ss_database s))"
    and run: "outcome (drain (exec_next (wd_env wd) (height (qp_executor plan)))
        (qp_executor plan, context_new (db_pool (ss_database s)) (db_catalog (ss_database s)) t))
      (\<lambda>rows (_, cx'). P rows \<and> cx_evolves D F pins (context_new (db_pool (ss_database s)) (db_catalog (ss_database s)) t) cx')
      (\<lambda>e (_, cx'). e = LruEviction \<and> cx_evolves D F pins (context_new (db_pool (ss_database s)) (db_catalog (ss_database s)) t) cx')"
  shows "outcome (execute_planned wd plan s)
      (\<lambda>r s'. read_only D F pins s s' \<and>
         (\<exists>rows. P rows \<and> r = (if qp_is_query plan then QueryResult rows (qp_schema plan) else Mutation (length rows))))
      (\<lambda>e s'. e = LruEviction \<and> read_only D F pins s s')"
proof -
  let ?cx = "context_new (db_pool (ss_database s)) (db_catalog (ss_database s)) t"
  define s1 where "s1 = s\<lparr>ss_database := (ss_database s)\<lparr>db_next_txn_id := t + 1\<rparr>, ss_txn := Some (txn_new t)\<rparr>"
  define ran where "ran x \<longleftrightarrow> ss_txn x = Some (txn_new t) \<and> bp_txns (db_pool (ss_database x)) t = None \<and>
      read_only D F pins s (x\<lparr>ss_txn := None\<rparr>)" for x
  have b: "seq handle_begin f s = f (Mutation 0) s1" for f :: "_ \<Rightarrow> (session, 'x) call"
    using auto by (simp add: handle_begin_def seq_def ret_def Let_def s1_def)
  have s1: "ss_txn s1 = Some (txn_new t)" "th_txn_id (txn_new t) = t" by (simp_all add: s1_def txn_new_def)
  have fin: "outcome (handle_commit wd x) (\<lambda>_ s'. read_only D F pins s s') (\<lambda>_ _. False)"
    "outcome (handle_rollback wd x) (\<lambda>_ s'. read_only D F pins s s') (\<lambda>_ _. False)" if "ran x" for x
    using that idle_finish [of x "txn_new t" wd] by (simp_all add: ran_def txn_new_def)
  have ran: "ran (s1\<lparr>ss_database := (ss_database s1)\<lparr>db_pool := cx_pool cx, db_catalog := cx_catalog cx\<rparr>\<rparr>)"
    if "cx_evolves D F pins ?cx cx" for cx
    using that inv auto(2) by (simp add: ran_def s1_def read_only_def cx_evolves_def context_new_def quiet_def)
  have "context_new (db_pool (ss_database s1)) (db_catalog (ss_database s1)) t = ?cx" by (simp add: s1_def)
  then have r: "outcome (run_executor wd t (qp_executor plan) s1) (\<lambda>rows x. P rows \<and> ran x) (\<lambda>e x. e = LruEviction \<and> ran x)"
    unfolding run_executor_def outcome_focus by (simp, intro outcome_weaken [OF run]) (use ran in auto)
  show ?thesis
    unfolding execute_planned_def using auto(1)
    by (simp add: b seq_assoc s1 outcome_seq outcome_attempt)
      (rule outcome_weaken [OF r], auto simp: outcome_seq outcome_attempt intro!: outcome_weaken [OF fin(1)] outcome_weaken [OF fin(2)])
qed

lemma plan_select_query: "plan_select hash keys c st = Ok plan \<Longrightarrow> qp_is_query plan"
  by (auto simp: plan_select_def plan_output_def res_bind_eq_Ok Let_def split: if_splits option.splits prod.splits)

lemma execute_one:
  "parse_batch (wd_unicode wd) script = Some (Ok [Select st]) \<Longrightarrow>
   plan_statement (ev_hash (wd_env wd)) (ev_keys (wd_env wd)) (db_catalog (ss_database s)) (Select st) = Ok plan \<Longrightarrow>
   outcome (execute_planned wd plan s) (\<lambda>r. Q [r]) E \<Longrightarrow> outcome (execute_batch wd script s) Q E"
  by (simp add: execute_batch_def execute_statement_def outcome_seq)


section \<open>A session\<close>

definition ex_world :: world where
  "ex_world = \<lparr>wd_env = ex_env, wd_unicode = ascii, wd_order = sorted_list_of_set\<rparr>"

text \<open>A session on the table of \<open>ex_user_context\<close>, whose next transaction is 1.\<close>

definition ex_session :: session where
  "ex_session = connect \<lparr>db_pool = cx_pool ex_user_context, db_catalog = cx_catalog ex_user_context, db_next_txn_id = 1\<rparr>"

lemma ex_star_text: "print_tokens (script_tokens [Select ex_star]) = '' SELECT * FROM t WHERE 6 <= id ;''"
proof -
  have "char_of (54 :: nat) = CHR ''6''" using char_of_char [of "CHR ''6''", where 'a = nat] by simp
  then show ?thesis
    by (simp add: ex_star_def script_tokens_def print_tokens_def where_tokens_def column_tokens_def list_tokens_def star_item_def
        alias_tokens_def group_tokens_def order_tokens_def limit_tokens_def ex_column_def
        keyword_of_def keyword_table_def decimal.simps [of 6])
qed

lemma ex_star_parsed: "parse_batch ascii (chars '' SELECT * FROM t WHERE 6 <= id ;'') = Some (Ok [Select ex_star])"
proof -
  have "good ascii (script_tokens [Select ex_star])" "in_grammar (Select ex_star)"
    by (simp_all add: ascii_tables_ascii ex_star_def script_tokens_def where_tokens_def column_tokens_def list_tokens_def star_item_def
        alias_tokens_def group_tokens_def order_tokens_def limit_tokens_def ex_column_def ex_names bounded_def)
  from parse_script_text [OF this(1)] this(2) show ?thesis unfolding ex_star_text by simp
qed


text \<open>A session whose transaction has rewritten the page 8192.\<close>

definition ex_open_session :: session where
  "ex_open_session = \<lparr>ss_database = \<lparr>db_pool = ex_written, db_catalog = catalog_new, db_next_txn_id = 2\<rparr>, ss_txn = Some (txn_new 1)\<rparr>"

lemma rollback_restores_witness:
  "outcome (execute_statement ex_world Rollback ex_open_session)
    (\<lambda>_ s'. page_content (db_pool (ss_database s')) 8192 = Some (reloaded (Leaf ex_leaf))) (\<lambda>_ _. False)"
proof -
  have s: "ss_txn ex_open_session = Some (txn_new 1)" "\<not> th_completed (txn_new 1)" "th_txn_id (txn_new 1) = 1"
    "db_pool (ss_database ex_open_session) = ex_written" "wd_order ex_world = sorted_list_of_set"
    by (simp_all add: ex_open_session_def txn_new_def ex_world_def)
  note r = rollback_restores [where wd = ex_world and s = ex_open_session, OF s(1,2), unfolded s, OF ex_reach ex_pool_inv
      ex_pool_idle(1) ex_order]
  show ?thesis by (rule outcome_weaken [OF conjunct1 [OF r]]) (simp_all add: ex_content)
qed

lemma session_mode_witness:
  "\<exists>s'. execute_statement ex_world Begin ex_session = Some (Ok (Mutation 0), s') \<and>
     mode_step Begin (plan_statement (ev_hash ex_env) (ev_keys ex_env) (cx_catalog ex_user_context) Begin)
       (None, 1) (Ok (Mutation 0)) (mode s') \<and> mode s' = (Some 1, 2)"
proof -
  obtain s' where s': "execute_statement ex_world Begin ex_session = Some (Ok (Mutation 0), s')" "mode s' = (Some 1, 2)"
    by (simp add: execute_statement_def handle_begin_def ex_session_def connect_def ret_def mode_def txn_new_def)
  have "mode ex_session = (None, 1)" "wd_env ex_world = ex_env" "db_catalog (ss_database ex_session) = cx_catalog ex_user_context"
    by (simp_all add: mode_def ex_session_def connect_def ex_world_def)
  with session_mode [OF s'(1)] s' show ?thesis by auto
qed

section \<open>Reachable sessions\<close>

text \<open>A session from its connection on, with ticks of the background flusher between statements.\<close>

inductive session_reach :: "world \<Rightarrow> database \<Rightarrow> session \<Rightarrow> bool" for wd d where
  connected: "session_reach wd d (connect d)"
| statement: "session_reach wd d s \<Longrightarrow> execute_statement wd stmt s = Some (r, s') \<Longrightarrow> r \<noteq> Panic \<Longrightarrow> session_reach wd d s'"
| flusher: "session_reach wd d s \<Longrightarrow> session_pool (flusher_tick (wd_order wd)) s = Some (r, s') \<Longrightarrow> session_reach wd d s'"

inductive_cases mode_stepE: "mode_step stmt p m r m'"

text \<open>The handle of an open transaction is not completed.\<close>

definition open_handle :: "session \<Rightarrow> bool" where
  "open_handle s \<longleftrightarrow> (\<forall>h. ss_txn s = Some h \<longrightarrow> \<not> th_completed h)"

definition stays :: "('s \<Rightarrow> bool) \<Rightarrow> ('s, 'a) call \<Rightarrow> bool" where
  "stays P m \<longleftrightarrow> (\<forall>s r s'. m s = Some (r, s') \<longrightarrow> P s \<longrightarrow> P s')"

lemma stays_simps [simp]: "stays P (ret a)" "stays P (fail e)" "stays P panic" "stays P (gets f)" "stays P (lift q)"
  by (auto simp: stays_def ret_def fail_def panic_def gets_def lift_def)

lemma stays_seq: "stays P m \<Longrightarrow> (\<And>a. stays P (f a)) \<Longrightarrow> stays P (seq m f)"
  unfolding stays_def seq_Some_iff by blast

lemma stays_attempt: "stays P m \<Longrightarrow> stays P (attempt m)"
  unfolding stays_def attempt_Some_iff by blast

lemma session_pool_open: "stays open_handle (session_pool m)"
  by (auto simp: stays_def session_pool_def focus_def bind_eq_Some_conv open_handle_def)

lemma run_executor_open: "stays open_handle (run_executor wd t x)"
  by (auto simp: stays_def run_executor_def focus_def bind_eq_Some_conv open_handle_def)

lemma finish_txn_open: "stays open_handle (finish_txn wd action)"
proof -
  let ?rest = "\<lambda>h. seq (attempt (session_pool (action h))) (\<lambda>r. case r of
         Ok h' \<Rightarrow> seq (session_pool (txn_drop (wd_order wd) h')) (\<lambda>_. ret (Mutation 0))
       | Err e \<Rightarrow> seq (session_pool (txn_drop (wd_order wd) h)) (\<lambda>_. fail e)
       | Panic \<Rightarrow> panic)"
  have rest: "stays open_handle (?rest h)" for h
    by (intro stays_seq stays_attempt session_pool_open) (simp split: res.split add: stays_seq session_pool_open)
  have "open_handle s'" if f: "finish_txn wd action s = Some (r, s')" and s: "open_handle s" for s r s'
  proof (cases "ss_txn s")
    case None
    with f s show ?thesis by (simp add: finish_txn_def fail_def)
  next
    case (Some h)
    then have "?rest h (s\<lparr>ss_txn := None\<rparr>) = Some (r, s')" using f by (simp add: finish_txn_def)
    moreover have "open_handle (s\<lparr>ss_txn := None\<rparr>)" by (simp add: open_handle_def)
    ultimately show ?thesis using rest [of h] unfolding stays_def by blast
  qed
  then show ?thesis by (simp add: stays_def)
qed

lemma begin_open: "stays open_handle handle_begin"
  by (auto simp: stays_def handle_begin_def open_handle_def fail_def ret_def txn_new_def Let_def split: option.splits)

lemma planned_open: "stays open_handle (execute_planned wd plan)"
  unfolding execute_planned_def handle_commit_def handle_rollback_def
  by (auto intro!: stays_seq stays_attempt begin_open finish_txn_open run_executor_open split: option.split res.split)

lemma statement_open: "stays open_handle (execute_statement wd stmt)"
  unfolding execute_statement_def handle_commit_def handle_rollback_def
  by (cases stmt) (auto intro!: stays_seq planned_open begin_open finish_txn_open)

text \<open>
  C14: In every state a session can reach through statements and ticks of the flusher, an open
  transaction is not completed, so that dropping it aborts it, and its id is the last one handed
  out.
\<close>

lemma session_transaction:
  assumes "session_reach wd d s" "ss_txn s = Some h"
  shows "\<not> th_completed h \<and> th_txn_id h + 1 = db_next_txn_id (ss_database s)"
proof -
  have "open_handle s \<and> (\<forall>t. fst (mode s) = Some t \<longrightarrow> t + 1 = snd (mode s))"
    using assms(1)
  proof induction
    case connected
    then show ?case by (simp add: connect_def mode_def open_handle_def)
  next
    case (statement s stmt r s')
    note step = statement_mode [OF statement.hyps(2,3)]
    from step show ?case using statement using statement_open [of wd stmt] by (elim mode_stepE) (auto simp: stays_def)
  next
    case (flusher s r s')
    then show ?case using session_pool_mode [OF flusher.hyps(2)] session_pool_open [of "flusher_tick (wd_order wd)"]
      by (auto simp: stays_def)
  qed
  then show ?thesis using assms(2) by (simp add: open_handle_def mode_def)
qed

lemma session_transaction_witness:
  "\<exists>s' h. session_reach ex_world (ss_database ex_session) s' \<and> ss_txn s' = Some h \<and> \<not> th_completed h \<and>
     th_txn_id h + 1 = db_next_txn_id (ss_database s')"
proof -
  obtain s' h where s': "execute_statement ex_world Begin ex_session = Some (Ok (Mutation 0), s')" "ss_txn s' = Some h"
    by (simp add: execute_statement_def handle_begin_def ex_session_def connect_def ret_def)
  have "connect (ss_database ex_session) = ex_session" by (simp add: ex_session_def connect_def)
  then have "session_reach ex_world (ss_database ex_session) ex_session"
    using session_reach.connected [of ex_world "ss_database ex_session"] by simp
  from session_reach.statement [OF this s'(1)] have "session_reach ex_world (ss_database ex_session) s'" by simp
  from this session_transaction [OF this s'(2)] s'(2) show ?thesis by blast
qed

end
