(* ===== verification/Shell.thy ===== *)
theory Shell
  imports Engine
begin

text \<open>
  The shell of src/src/bin/hinder.rs: one file pair per database, the commands on whole
  databases that the loop intercepts, the loop itself, one line of input at a time, and the
  tables it prints.

  A text is a list of code points, as in the lexer, a printed line the bytes of its text. The
  files are a map from paths to contents, all in one directory; what an open database has
  written is stored under its paths before another one is opened and after it is dropped. When a
  database is opened again while it is open, what the first handle still writes as it is dropped
  is left out. Reading a line,
  printing, the history file and the arguments of the command line are left to the caller.
\<close>

section \<open>Texts\<close>

definition trim_start :: "unicode \<Rightarrow> nat list \<Rightarrow> nat list" where
  "trim_start u = dropWhile (uc_whitespace u)"

definition trim :: "unicode \<Rightarrow> nat list \<Rightarrow> nat list" where
  "trim u s = rev (trim_start u (rev (trim_start u s)))"

definition trim_semicolons :: "nat list \<Rightarrow> nat list" where
  "trim_semicolons s = rev (dropWhile (\<lambda>c. c = code (CHR '';'')) (rev s))"

function split_whitespace :: "unicode \<Rightarrow> nat list \<Rightarrow> nat list list" where
  "split_whitespace u s = (case trim_start u s of
     [] \<Rightarrow> []
   | c # r \<Rightarrow> (c # takeWhile (\<lambda>x. \<not> uc_whitespace u x) r) # split_whitespace u (dropWhile (\<lambda>x. \<not> uc_whitespace u x) r))"
  by pat_completeness auto
termination
proof (relation "measure (\<lambda>(u, s). length s)")
  fix u s c r
  assume t: "trim_start u s = c # r"
  have "length (dropWhile (\<lambda>x. \<not> uc_whitespace u x) r) < length (c # r)"
    using length_dropWhile_le [of "\<lambda>x. \<not> uc_whitespace u x" r] by simp
  also have "\<dots> \<le> length s" unfolding t [symmetric] by (simp add: trim_start_def length_dropWhile_le)
  finally show "((u, dropWhile (\<lambda>x. \<not> uc_whitespace u x) r), u, s) \<in> measure (\<lambda>(u, s). length s)" by simp
qed simp

declare split_whitespace.simps [simp del]

definition starts_with :: "string \<Rightarrow> nat list \<Rightarrow> bool" where
  "starts_with p s \<longleftrightarrow> take (length p) s = chars p"

definition words :: "unicode \<Rightarrow> nat list \<Rightarrow> nat list list" where
  "words u query = split_whitespace u (trim_semicolons query)"

section \<open>Files\<close>

type_synonym files = "nat list \<rightharpoonup> u8 list"

definition DEFAULT_DB_NAME :: "nat list" where "DEFAULT_DB_NAME = chars ''hinderdb_default''"

definition db_path :: "nat list \<Rightarrow> nat list \<Rightarrow> nat list" where
  "db_path base name = base @ chars ''/'' @ name @ chars ''.db''"

definition wal_path :: "nat list \<Rightarrow> nat list \<Rightarrow> nat list" where
  "wal_path base name = base @ chars ''/'' @ name @ chars ''.wal''"

definition db_file_paths :: "nat list \<Rightarrow> nat list \<Rightarrow> nat list \<times> nat list" where
  "db_file_paths base name = (db_path base name, wal_path base name)"

text \<open>The stem of a path with the extension \<open>db\<close>; a file named \<open>.db\<close> has no extension.\<close>

definition db_stem :: "nat list \<Rightarrow> nat list \<Rightarrow> nat list option" where
  "db_stem base path =
     (let dir = base @ chars ''/''; rest = drop (length dir) path; k = length rest - 3 in
      if take (length dir) path = dir \<and> 3 < length rest \<and> drop k rest = chars ''.db'' then Some (take k rest) else None)"

definition collect_db_names :: "(nat list set \<Rightarrow> nat list list) \<Rightarrow> nat list \<Rightarrow> files \<Rightarrow> nat list list" where
  "collect_db_names order base files = List.map_filter (db_stem base) (order (dom files))"

definition contents :: "nat list \<Rightarrow> files \<Rightarrow> u8 list" where
  "contents path files = (case files path of Some bs \<Rightarrow> bs | None \<Rightarrow> [])"

text \<open>A new database is opened over empty files, which exist from then on.\<close>

definition open_database :: "world \<Rightarrow> nat list \<Rightarrow> nat list \<Rightarrow> files \<Rightarrow> database res option" where
  "open_database wd base name files = (let (db, wal) = db_file_paths base name in
     database_open wd (contents db files) (contents wal files) 1000)"

definition opened_files :: "nat list \<Rightarrow> nat list \<Rightarrow> files \<Rightarrow> files" where
  "opened_files base name files = (let (db, wal) = db_file_paths base name; files1 = files(db \<mapsto> contents db files) in
     case disk_open (contents db files) of Ok _ \<Rightarrow> files1(wal \<mapsto> contents wal files) | _ \<Rightarrow> files1)"

text \<open>What the open database has written, under its paths unless they have been removed.\<close>

definition write_existing :: "nat list \<Rightarrow> u8 list \<Rightarrow> files \<Rightarrow> files" where
  "write_existing path bs files = (if path \<in> dom files then files(path \<mapsto> bs) else files)"

definition store_session :: "nat list \<Rightarrow> nat list \<Rightarrow> session \<Rightarrow> files \<Rightarrow> files" where
  "store_session base name s files = (let p = db_pool (ss_database s); (db, wal) = db_file_paths base name in
     write_existing wal (wal_file (bp_wal p)) (write_existing db (dm_file (bp_disk p)) files))"

section \<open>Commands on databases\<close>

definition handle_create_database :: "unicode \<Rightarrow> nat list \<Rightarrow> nat list \<Rightarrow> files \<Rightarrow> string + files" where
  "handle_create_database u base query files =
     (let parts = words u query in
      if length parts \<noteq> 3 then Inl ''Syntax Error: Expected CREATE DATABASE <name>;''
      else let (db, wal) = db_file_paths base (parts ! 2) in
        if db \<in> dom files then Inl ''Error: Database already exists''
        else Inr (files(db \<mapsto> [], wal \<mapsto> [])))"

definition handle_use_database :: "unicode \<Rightarrow> nat list \<Rightarrow> nat list \<Rightarrow> files \<Rightarrow> string + nat list" where
  "handle_use_database u base query files =
     (let parts = words u query in
      if length parts \<noteq> 2 then Inl ''Syntax Error: Expected USE <name>;''
      else if db_path base (parts ! 1) \<notin> dom files then Inl ''Error: Database does not exist''
      else Inr (parts ! 1))"

text \<open>The database file goes first, so that it is gone when removing the log fails.\<close>

definition handle_drop_database ::
    "unicode \<Rightarrow> nat list \<Rightarrow> nat list \<Rightarrow> nat list \<Rightarrow> files \<Rightarrow> (string + bool) \<times> files" where
  "handle_drop_database u base query cur files =
     (let parts = words u query in
      if length parts \<noteq> 3 then (Inl ''Syntax Error: Expected DROP DATABASE <name>'', files)
      else let (db, wal) = db_file_paths base (parts ! 2) in
        if db \<notin> dom files then (Inl ''No such file or directory'', files)
        else let files = files(db := None) in
          if wal \<notin> dom files then (Inl ''No such file or directory'', files)
          else (Inr (parts ! 2 = cur), files(wal := None)))"

section \<open>Printed tables\<close>

definition signed_decimal :: "int \<Rightarrow> string" where
  "signed_decimal i = (if i < 0 then ''-'' @ decimal (nat (- i)) else decimal (nat i))"

fun display :: "val \<Rightarrow> string" where
  "display (VBigInt v) = signed_decimal (sint v)"
| "display (VInt v) = signed_decimal (sint v)"
| "display VNull = ''NULL''"
| "display (VBoolean b) = (if b then ''true'' else ''false'')"
| "display (VVarchar s) = s"

text \<open>Widths count bytes, padding counts characters.\<close>

definition pad :: "nat \<Rightarrow> string \<Rightarrow> string" where
  "pad w s = s @ replicate (w - char_count s) (CHR '' '')"

fun widen :: "nat list \<Rightarrow> string list \<Rightarrow> nat list res" where
  "widen ws [] = Ok ws"
| "widen [] (s # ss) = Panic"
| "widen (w # ws) (s # ss) = res_bind (widen ws ss) (\<lambda>ws'. Ok ((if length s > w then length s else w) # ws'))"

definition separator :: "nat list \<Rightarrow> string" where
  "separator ws = ''+'' @ concat (map (\<lambda>w. replicate (w + 2) (CHR ''-'') @ ''+'') ws)"

definition table_line :: "nat list \<Rightarrow> string list \<Rightarrow> string" where
  "table_line ws ss = ''|'' @ concat (map (\<lambda>(s, w). '' '' @ pad w s @ '' |'') (zip ss ws))"

definition print_result_set :: "result_set \<Rightarrow> string list res" where
  "print_result_set r = (case r of
     Mutation n \<Rightarrow> Ok [''Query OK, '' @ decimal n @ '' rows affected'']
   | QueryResult rows sc \<Rightarrow>
       if rows = [] then Ok [''Empty set'']
       else
         let names = map col_name (sc_columns sc); texts = map (\<lambda>t. map display (tp_values t)) rows in
         res_bind (res_fold (\<lambda>ss ws. widen ws ss) texts (map length names)) (\<lambda>ws.
         Ok (separator ws # table_line ws names # separator ws # map (table_line ws) texts @
             [separator ws, decimal (length rows) @ '' rows in set''])))"

definition print_lists :: "string list \<Rightarrow> string list" where
  "print_lists xs =
     (if xs = [] then [''No elements in the list'']
      else let w = Max (length ` set xs); sep = separator [w] in
        sep # map (\<lambda>x. ''| '' @ pad w x @ '' |'') xs @ [sep])"

section \<open>The loop\<close>

record shell =
  sh_files :: files
  sh_db :: "nat list"
  sh_session :: session
  sh_buffer :: "nat list"

datatype flow = Continue | Exit

text \<open>\<open>db = open_database(..)\<close> and \<open>conn = Some(db.connect())\<close>: the new database is opened
  first, then the old one is dropped, then the old connection.\<close>

definition switch_database :: "world \<Rightarrow> nat list \<Rightarrow> nat list \<Rightarrow> (shell, flow) call" where
  "switch_database wd base name st =
     (let files = store_session base (sh_db st) (sh_session st) (sh_files st) in
      Option.bind (open_database wd base name files) (\<lambda>r. case r of
        Ok d \<Rightarrow>
          map_option (\<lambda>(q, old). (res_bind q (\<lambda>_. Ok Continue),
              \<lparr>sh_files = (if name = sh_db st then opened_files base name files
                 else store_session base (sh_db st) old (opened_files base name files)),
               sh_db = name, sh_session = connect d, sh_buffer = sh_buffer st\<rparr>))
            (seq (database_drop wd) (\<lambda>_. session_drop wd) (sh_session st))
      | Err _ \<Rightarrow> ret Exit (st\<lparr>sh_files := opened_files base name files\<rparr>)
      | Panic \<Rightarrow> panic st))"

text \<open>A complete query: the commands on databases are told apart by how the upper-cased text starts.\<close>

definition run_query :: "world \<Rightarrow> nat list \<Rightarrow> nat list \<Rightarrow> (shell, flow) call" where
  "run_query wd base query st =
     (let u = wd_unicode wd; upper_query = uc_uppercase u query in
      if starts_with ''CREATE DATABASE'' upper_query then
        (case handle_create_database u base upper_query (sh_files st) of
           Inl _ \<Rightarrow> ret Continue st
         | Inr files \<Rightarrow> ret Continue (st\<lparr>sh_files := files\<rparr>))
      else if starts_with ''USE'' upper_query then
        (case handle_use_database u base upper_query (sh_files st) of
           Inl _ \<Rightarrow> ret Continue st
         | Inr name \<Rightarrow> switch_database wd base name st)
      else if starts_with ''DROP DATABASE'' upper_query then
        (case handle_drop_database u base query (sh_db st) (sh_files st) of
           (Inl _, files) \<Rightarrow> ret Exit (st\<lparr>sh_files := files\<rparr>)
         | (Inr is_curr, files) \<Rightarrow>
             if is_curr then switch_database wd base DEFAULT_DB_NAME (st\<lparr>sh_files := files\<rparr>)
             else ret Continue (st\<lparr>sh_files := files\<rparr>))
      else if trim u (trim_semicolons upper_query) = chars ''SHOW DATABASES'' then ret Continue st
      else seq (attempt (focus sh_session (\<lambda>s. sh_session_update (\<lambda>_. s)) (execute_batch wd query)))
             (\<lambda>r. case r of Ok rs \<Rightarrow> seq (lift (res_map print_result_set rs)) (\<lambda>_. ret Continue) | _ \<Rightarrow> ret Continue) st)"

definition repl_line :: "world \<Rightarrow> nat list \<Rightarrow> nat list \<Rightarrow> (shell, flow) call" where
  "repl_line wd base input st =
     (let u = wd_unicode wd; line = trim u input in
      if line = [] then ret Continue st
      else if sh_buffer st = [] \<and> hd line = code (CHR ''.'') then
        ret (if uc_uppercase u line \<in> {chars ''.EXIT'', chars ''.QUIT''} then Exit else Continue) st
      else
        let buffer = sh_buffer st @ line @ [32]; query = trim u buffer in
        if query = [] \<or> last query \<noteq> code (CHR '';'') then ret Continue (st\<lparr>sh_buffer := buffer\<rparr>)
        else run_query wd base query (st\<lparr>sh_buffer := []\<rparr>))"

text \<open>Leaving the loop drops the connection, then the database.\<close>

definition shell_quit :: "world \<Rightarrow> nat list \<Rightarrow> shell \<Rightarrow> (unit res \<times> files) option" where
  "shell_quit wd base st =
     map_option (\<lambda>(q, old). (q, store_session base (sh_db st) old (sh_files st)))
       (seq (session_drop wd) (\<lambda>_. database_drop wd) (sh_session st))"

text \<open>The database that \<open>hinder use <name>\<close> starts with.\<close>

definition start_name :: "unicode \<Rightarrow> nat list list \<Rightarrow> nat list \<Rightarrow> nat list" where
  "start_name u names db_name = (if uc_uppercase u db_name \<in> set names then db_name else DEFAULT_DB_NAME)"

section \<open>Names of databases\<close>

lemma trim_start_word: "ascii_tables u \<Longrightarrow> word_char c \<Longrightarrow> trim_start u (c # s) = c # s"
  using word_char_bound white_ascii [of u c] by (auto simp: trim_start_def word_char_def letter_def)

lemma not_white_word: "ascii_tables u \<Longrightarrow> word_char c \<Longrightarrow> \<not> uc_whitespace u c"
  using word_char_bound white_ascii [of u c] by (auto simp: word_char_def letter_def)

lemma split_word:
  assumes u: "ascii_tables u" and w: "\<forall>c \<in> set w. word_char c" "w \<noteq> []" and s: "spaced s"
  shows "split_whitespace u (w @ s) = w # split_whitespace u s"
proof -
  obtain c v where c: "w = c # v" using w(2) by (cases w) auto
  have stop: "s = [] \<or> \<not> \<not> uc_whitespace u (hd s)" using s white_ascii [OF u, of 32] by (auto simp: spaced_def)
  have "\<forall>x \<in> set v. \<not> uc_whitespace u x" using w(1) c not_white_word [OF u] by simp
  from take_word [OF this stop] show ?thesis
    using trim_start_word [OF u, of c "v @ s"] w(1) c by (subst split_whitespace.simps) simp
qed

lemma split_space: "ascii_tables u \<Longrightarrow> split_whitespace u (32 # s) = split_whitespace u s"
  using white_ascii [of u 32] by (subst (1 2) split_whitespace.simps) (simp add: trim_start_def)

lemma split_nil: "split_whitespace u [] = []"
  by (subst split_whitespace.simps) (simp add: trim_start_def)

lemma words_of_three:
  assumes u: "ascii_tables u" and w: "\<forall>c \<in> set a \<union> set b \<union> set w. word_char c" "a \<noteq> []" "b \<noteq> []" "w \<noteq> []"
  shows "words u (a @ 32 # b @ 32 # w @ [59]) = [a, b, w]"
proof -
  have "word_char (last w)" using w(1) last_in_set [OF w(4)] by blast
  then have "last w \<noteq> 59" by (auto simp: word_char_def letter_def)
  then have "trim_semicolons (a @ 32 # b @ 32 # w @ [59]) = a @ 32 # b @ 32 # w"
    using w(4) by (cases w rule: rev_cases) (simp_all add: trim_semicolons_def)
  moreover have "split_whitespace u w = [w]" using split_word [OF u, of w "[]"] w by (simp add: split_nil spaced_def)
  ultimately show ?thesis
    using split_word [OF u, of a "32 # b @ 32 # w"] split_word [OF u, of b "32 # w"] w u
    by (simp add: words_def split_space spaced_def)
qed

lemma word_char_upper: "word_char c \<Longrightarrow> word_char (upper c)"
  by (auto simp: word_char_def letter_def upper_def)

lemma upper_text: "ascii_tables u \<Longrightarrow> \<forall>c \<in> set s. c < 128 \<Longrightarrow> uc_uppercase u s = map upper s"
  by (simp add: ascii_tables_def)

definition create_text :: "nat list \<Rightarrow> nat list" where
  "create_text w = chars ''create database '' @ w @ [59]"

definition drop_text :: "nat list \<Rightarrow> nat list" where
  "drop_text w = chars ''drop database '' @ w @ [59]"

lemma command_texts:
  assumes u: "ascii_tables u" and w: "\<forall>c \<in> set w. word_char c" "w \<noteq> []"
  shows "uc_uppercase u (create_text w) = chars ''CREATE DATABASE '' @ map upper w @ [59]"
    "uc_uppercase u (drop_text w) = chars ''DROP DATABASE '' @ map upper w @ [59]"
    "words u (uc_uppercase u (create_text w)) = [chars ''CREATE'', chars ''DATABASE'', map upper w]"
    "words u (drop_text w) = [chars ''drop'', chars ''database'', w]"
proof -
  have b: "\<forall>c \<in> set w. c < 128" using w(1) word_char_bound by blast
  show t: "uc_uppercase u (create_text w) = chars ''CREATE DATABASE '' @ map upper w @ [59]"
    "uc_uppercase u (drop_text w) = chars ''DROP DATABASE '' @ map upper w @ [59]"
    using b by (simp_all add: upper_text [OF u] create_text_def drop_text_def upper_def)
  show "words u (uc_uppercase u (create_text w)) = [chars ''CREATE'', chars ''DATABASE'', map upper w]"
    using words_of_three [OF u, of "chars ''CREATE''" "chars ''DATABASE''" "map upper w"] w word_char_upper
    unfolding t by (simp add: word_char_def [of "_ :: nat"] letter_def)
  show "words u (drop_text w) = [chars ''drop'', chars ''database'', w]"
    using words_of_three [OF u, of "chars ''drop''" "chars ''database''" w] w
    by (simp add: drop_text_def word_char_def [of "_ :: nat"] letter_def)
qed

lemma create_query:
  assumes u: "ascii_tables (wd_unicode wd)" and w: "\<forall>c \<in> set w. word_char c" "w \<noteq> []"
    and new: "db_path base (map upper w) \<notin> dom (sh_files st)"
  shows "run_query wd base (create_text w) st = ret Continue (st\<lparr>sh_files :=
    (sh_files st)(db_path base (map upper w) \<mapsto> [], wal_path base (map upper w) \<mapsto> [])\<rparr>)"
  using new command_texts(3) [OF u w] unfolding run_query_def Let_def
  by (simp add: starts_with_def command_texts(1) [OF u w] handle_create_database_def db_file_paths_def del: chars_simps(3))

definition use_text :: "nat list \<Rightarrow> nat list" where
  "use_text w = chars ''use '' @ w @ [59]"

lemma use_query:
  assumes u: "ascii_tables (wd_unicode wd)" and w: "\<forall>c \<in> set w. word_char c" "w \<noteq> []"
    and known: "db_path base (map upper w) \<in> dom (sh_files st)"
  shows "run_query wd base (use_text w) st = switch_database wd base (map upper w) st"
proof -
  let ?u = "wd_unicode wd"
  have b: "\<forall>c \<in> set w. c < 128" using w(1) word_char_bound by blast
  have up: "uc_uppercase ?u (use_text w) = chars ''USE '' @ map upper w @ [59]"
    using b by (simp add: upper_text [OF u] use_text_def upper_def)
  have "word_char (last (map upper w))" using w last_in_set [OF w(2)] word_char_upper by (auto simp: last_map)
  then have "last (map upper w) \<noteq> 59" by (auto simp: word_char_def letter_def)
  then have "trim_semicolons (chars ''USE '' @ map upper w @ [59]) = chars ''USE'' @ 32 # map upper w"
    using w(2) by (cases "map upper w" rule: rev_cases) (simp_all add: trim_semicolons_def)
  moreover have "split_whitespace ?u (map upper w) = [map upper w]"
    using split_word [OF u, of "map upper w" "[]"] w word_char_upper by (simp add: split_nil spaced_def)
  ultimately have "words ?u (chars ''USE '' @ map upper w @ [59]) = [chars ''USE'', map upper w]"
    using split_word [OF u, of "chars ''USE''" "32 # map upper w"]
    by (simp add: words_def split_space [OF u] spaced_def word_char_def [of "_ :: nat"] letter_def)
  then show ?thesis
    using known unfolding run_query_def Let_def up
    by (simp add: starts_with_def handle_use_database_def del: chars_simps(3))
qed

lemma paths_differ: "length v = length w \<Longrightarrow> db_path base v \<noteq> wal_path base w" "v \<noteq> w \<Longrightarrow> db_path base v \<noteq> db_path base w"
proof -
  assume "length v = length w"
  then have "length (db_path base v) \<noteq> length (wal_path base w)" by (simp add: db_path_def wal_path_def)
  then show "db_path base v \<noteq> wal_path base w" by metis
qed (simp add: db_path_def)

lemma drop_query_unknown:
  assumes u: "ascii_tables (wd_unicode wd)" and w: "\<forall>c \<in> set w. word_char c" "w \<noteq> []"
    and unknown: "db_path base w \<notin> dom (sh_files st)"
  shows "run_query wd base (drop_text w) st = ret Exit st"
  using unknown command_texts(4) [OF u w] unfolding run_query_def Let_def
  by (simp add: starts_with_def command_texts(2) [OF u w] handle_drop_database_def db_file_paths_def del: chars_simps(3))

text \<open>
  CREATE DATABASE and USE take the name in upper case, DROP DATABASE as it is written: a
  database created under a name with small letters is found by USE of that name, while DROP
  DATABASE of that name fails and ends the shell, with the files still there.
\<close>

lemma database_names:
  assumes u: "ascii_tables (wd_unicode wd)" and w: "\<forall>c \<in> set w. word_char c" "map upper w \<noteq> w"
    and new: "db_path base (map upper w) \<notin> dom (sh_files st)" "db_path base w \<notin> dom (sh_files st)"
  shows "\<exists>st'. run_query wd base (create_text w) st = ret Continue st' \<and>
    sh_files st' (db_path base (map upper w)) = Some [] \<and>
    run_query wd base (use_text w) st' = switch_database wd base (map upper w) st' \<and>
    run_query wd base (drop_text w) st' = ret Exit st'"
proof -
  let ?W = "map upper w"
  let ?st = "st\<lparr>sh_files := (sh_files st)(db_path base ?W \<mapsto> [], wal_path base ?W \<mapsto> [])\<rparr>"
  have ne: "w \<noteq> []" using w(2) by auto
  have d: "db_path base ?W \<noteq> wal_path base ?W" "db_path base w \<noteq> wal_path base ?W" "db_path base w \<noteq> db_path base ?W"
    using paths_differ w(2) by (metis length_map)+
  have "run_query wd base (create_text w) st = ret Continue ?st" by (rule create_query [OF u w(1) ne new(1)])
  moreover have "run_query wd base (use_text w) ?st = switch_database wd base ?W ?st"
    by (rule use_query [OF u w(1) ne]) simp
  moreover have "run_query wd base (drop_text w) ?st = ret Exit ?st"
    by (rule drop_query_unknown [OF u w(1) ne]) (use new(2) d in simp)
  ultimately show ?thesis using d(1) by (intro exI [of _ ?st]) simp
qed

section \<open>The columns of a printed table line up\<close>

definition plain :: "string \<Rightarrow> bool" where
  "plain s \<longleftrightarrow> (\<forall>c \<in> set s. code c < 128)"

lemma char_count_plain: "plain s \<Longrightarrow> char_count s = length s"
proof (induction s)
  case (Cons c s)
  have "unat (of_nat (of_char c) :: u8) = of_char c"
    using Cons.prems by (simp add: plain_def unat_of_nat take_bit_nat_eq_self)
  then have "\<not> cont (of_nat (of_char c))" using Cons.prems by (simp add: cont_def plain_def word_le_nat_alt)
  with Cons show ?case by (simp add: char_count_def string_bytes_def plain_def)
qed (simp add: char_count_def string_bytes_def)

definition fits :: "string list \<Rightarrow> nat list \<Rightarrow> bool" where
  "fits ss ws \<longleftrightarrow> list_all2 (\<lambda>s w. length s \<le> w) ss ws"

lemma widen_spec: "length ss = length ws \<Longrightarrow> \<exists>ws'. widen ws ss = Ok ws' \<and> fits ss ws' \<and> list_all2 (\<le>) ws ws'"
proof (induction ws ss rule: widen.induct)
  case (3 w ws s ss)
  then obtain ws' where "widen ws ss = Ok ws'" "fits ss ws'" "list_all2 (\<le>) ws ws'" by auto
  then show ?case by (auto simp: fits_def)
qed (auto simp: fits_def)

lemma fits_mono: "fits ss ws \<Longrightarrow> list_all2 (\<le>) ws ws' \<Longrightarrow> fits ss ws'"
  unfolding fits_def by (rule list_all2_trans [of "\<lambda>s w. length s \<le> w" "(\<le>)"]) auto

lemma widen_all:
  "\<forall>ss \<in> set rows. length ss = length ws \<Longrightarrow>
   \<exists>ws'. res_fold (\<lambda>ss ws. widen ws ss) rows ws = Ok ws' \<and> (\<forall>ss \<in> set rows. fits ss ws') \<and> list_all2 (\<le>) ws ws'"
proof (induction rows arbitrary: ws)
  case Nil
  then show ?case by (simp add: list_all2_refl)
next
  case (Cons r rows)
  then obtain ws1 where w1: "widen ws r = Ok ws1" "fits r ws1" "list_all2 (\<le>) ws ws1" using widen_spec by fastforce
  then have "\<forall>ss \<in> set rows. length ss = length ws1" using Cons.prems by (auto dest: list_all2_lengthD)
  from Cons.IH [OF this] obtain ws' where "res_fold (\<lambda>ss ws. widen ws ss) rows ws1 = Ok ws'"
    "\<forall>ss \<in> set rows. fits ss ws'" "list_all2 (\<le>) ws1 ws'" by blast
  then show ?case using w1 fits_mono list_all2_trans [of "(\<le>)" "(\<le>)" "(\<le>)" ws ws1 ws'] by auto
qed

lemma separator_length: "length (separator ws) = 1 + sum_list (map (\<lambda>w. w + 3) ws)"
  by (induction ws) (simp_all add: separator_def)

lemma table_line_length: "fits ss ws \<Longrightarrow> \<forall>s \<in> set ss. plain s \<Longrightarrow> length (table_line ws ss) = 1 + sum_list (map (\<lambda>w. w + 3) ws)"
proof -
  have "length (concat (map (\<lambda>(s, w). '' '' @ pad w s @ '' |'') (zip ss ws))) = sum_list (map (\<lambda>w. w + 3) ws)"
    if "fits ss ws" "\<forall>s \<in> set ss. plain s"
    using that unfolding fits_def by (induction rule: list_all2_induct) (simp_all add: pad_def char_count_plain)
  then show "fits ss ws \<Longrightarrow> \<forall>s \<in> set ss. plain s \<Longrightarrow> ?thesis" by (simp add: table_line_def)
qed

text \<open>
  C39: A query result of rows that are as long as the schema, whose texts are ASCII, is printed
  without a panic as a table in which all lines, header, rows and separators, have the same
  length.
\<close>

lemma printed_table:
  assumes "rows \<noteq> []" "\<forall>t \<in> set rows. length (tp_values t) = length (sc_columns sc)"
    "\<forall>c \<in> set (sc_columns sc). plain (col_name c)" "\<forall>t \<in> set rows. \<forall>v \<in> set (tp_values t). plain (display v)"
  shows "\<exists>table n. print_result_set (QueryResult rows sc) = Ok (table @ [decimal (length rows) @ '' rows in set'']) \<and>
    length table = length rows + 4 \<and> (\<forall>l \<in> set table. length l = n)"
proof -
  let ?names = "map col_name (sc_columns sc)" and ?texts = "map (\<lambda>t. map display (tp_values t)) rows"
  have "\<forall>ss \<in> set ?texts. length ss = length (map length ?names)" using assms(2) by simp
  from widen_all [OF this] obtain ws where ws: "res_fold (\<lambda>ss ws. widen ws ss) ?texts (map length ?names) = Ok ws"
    "\<forall>ss \<in> set ?texts. fits ss ws" "list_all2 (\<le>) (map length ?names) ws" by blast
  have f: "fits ?names ws" using ws(3) by (simp add: fits_def list_all2_conv_all_nth)
  let ?table = "separator ws # table_line ws ?names # separator ws # map (table_line ws) ?texts @ [separator ws]"
  have p: "print_result_set (QueryResult rows sc) = Ok (?table @ [decimal (length rows) @ '' rows in set''])"
    using assms(1) ws(1) by (simp add: print_result_set_def Let_def comp_def)
  have "length (table_line ws ss) = 1 + sum_list (map (\<lambda>w. w + 3) ws)" if "ss \<in> set (?names # ?texts)" for ss
    using that f ws(2) assms(3,4) by (intro table_line_length) auto
  then have "\<forall>l \<in> set ?table. length l = 1 + sum_list (map (\<lambda>w. w + 3) ws)"
    by (auto simp: separator_length)
  with p show ?thesis by (intro exI [of _ ?table] exI) auto
qed

section \<open>Examples\<close>

lemma database_names_witness:
  "\<exists>st'. run_query ex_world [] (create_text (chars ''ab''))
       \<lparr>sh_files = Map.empty, sh_db = DEFAULT_DB_NAME, sh_session = ex_session, sh_buffer = []\<rparr> = ret Continue st' \<and>
     run_query ex_world [] (drop_text (chars ''ab'')) st' = ret Exit st'"
proof -
  have "ascii_tables (wd_unicode ex_world)" by (simp add: ex_world_def ascii_tables_ascii)
  moreover have "\<forall>c \<in> set (chars ''ab''). word_char c" "map upper (chars ''ab'') \<noteq> chars ''ab''"
    by (simp_all add: word_char_def letter_def upper_def)
  ultimately show ?thesis
    using database_names [of ex_world "chars ''ab''" "[]"
        "\<lparr>sh_files = Map.empty, sh_db = DEFAULT_DB_NAME, sh_session = ex_session, sh_buffer = []\<rparr>"] by auto
qed

lemma printed_table_witness:
  "\<exists>table n. print_result_set (QueryResult [ex_user 5 True, ex_user 9 False] ex_user_schema) =
      Ok (table @ [decimal 2 @ '' rows in set'']) \<and> length table = 6 \<and> (\<forall>l \<in> set table. length l = n)"
proof -
  have d: "plain (decimal 5)" "plain (decimal 9)"
    by (simp_all add: decimal.simps [of 5] decimal.simps [of 9] plain_def)
  have "\<exists>table n. print_result_set (QueryResult [ex_user 5 True, ex_user 9 False] ex_user_schema) =
      Ok (table @ [decimal (length [ex_user 5 True, ex_user 9 False]) @ '' rows in set'']) \<and>
    length table = length [ex_user 5 True, ex_user 9 False] + 4 \<and> (\<forall>l \<in> set table. length l = n)"
    by (rule printed_table)
      (use d in \<open>auto simp: ex_user_def ex_user_schema_def schema_new_def signed_decimal_def plain_def\<close>)
  then show ?thesis by (simp only: list.size numeral_2_eq_2) simp
qed

end
