(* ===== verification/Bootstrap.thy ===== *)
theory Bootstrap
  imports Engine
begin

text \<open>
  Opening a database that exists: what \<open>bootstrap\<close> of src/src/manager.rs loads from the system
  tables, and what a database that is opened again after a crash contains.

  The specification \<open>loaded\<close> is the catalog that the rows of the three system tables
  describe. The row of a table, of a column and of an index are the ones \<open>create_table\<close> and
  \<open>create_index\<close> write.
\<close>

section \<open>The catalog that the system tables describe\<close>

record system_rows =
  sr_tables :: "(string \<times> page_id) list"
  sr_columns :: "(string \<times> column) list"
  sr_indexes :: "(string \<times> index_meta) list"

text \<open>A column is loaded with the name of its table, and a length of zero or above the range of
  \<open>i32\<close> is lost.\<close>

definition loaded_column :: "string \<Rightarrow> column \<Rightarrow> column" where
  "loaded_column table col = col\<lparr>col_table := Some table,
     col_length := (case col_length col of Some n \<Rightarrow> if 0 < sint n then Some n else None | None \<Rightarrow> None)\<rparr>"

definition loaded_columns :: "(string \<times> column) list \<Rightarrow> raw_columns" where
  "loaded_columns cols table = (case filter (\<lambda>(t, _). t = table) cols of
     [] \<Rightarrow> None | cs \<Rightarrow> Some (map (\<lambda>(t, col). loaded_column t col) cs))"

definition loaded_indexes :: "(string \<times> index_meta) list \<Rightarrow> string \<Rightarrow> (string \<rightharpoonup> index_meta) option" where
  "loaded_indexes idx table = (case filter (\<lambda>(t, _). t = table) idx of
     [] \<Rightarrow> None | ms \<Rightarrow> Some (map_of (rev (map (\<lambda>(_, m). (im_name m, m)) ms))))"

text \<open>The counters start one past the last row ids of the rightmost leaves: \<open>m\<close> is the greatest of
  the three system tables, \<open>ids p\<close> the one of the table with root \<open>p\<close>.\<close>

definition loaded :: "system_rows \<Rightarrow> u64 \<Rightarrow> (page_id \<Rightarrow> u64) \<Rightarrow> catalog" where
  "loaded R m ids = (let roots = map_of (rev (sr_tables R)) in
     \<lparr>ct_row_ids = (\<lambda>t. map_option (\<lambda>p. ids p + 1) (roots t)), ct_sys_id = m + 1, ct_roots = roots,
      ct_schemas = (\<lambda>t. map_option schema_new (loaded_columns (sr_columns R) t)),
      ct_indexes = loaded_indexes (sr_indexes R)\<rparr>)"

section \<open>Rows in system tables\<close>

text \<open>The live cells hold the encoded rows, whose values fit the schema.\<close>

definition stored_rows :: "schema \<Rightarrow> tuple list \<Rightarrow> cell list \<Rightarrow> bool" where
  "stored_rows sc ts cs \<longleftrightarrow> list_all2 (\<lambda>t c. tuple_encode sc t = Ok (cell_data c) \<and>
     list_all2 (\<lambda>col v. val_ok (col_type col) v) (sc_columns sc) (tp_values t)) ts (live_cells cs)"

definition sys_table :: "(page_id \<Rightarrow> btree_node option) \<Rightarrow> page_id \<Rightarrow> schema \<Rightarrow> tuple list \<Rightarrow> bool" where
  "sys_table c root sc ts \<longleftrightarrow> (\<exists>cs. start_cells c root None cs \<and> stored_rows sc ts cs)"

text \<open>The last row id of the rightmost leaf of a tree, the one \<open>get_max_row_id\<close> returns.\<close>

definition row_counter :: "(page_id \<Rightarrow> btree_node option) \<Rightarrow> page_id \<Rightarrow> u64 \<Rightarrow> bool" where
  "row_counter c root m \<longleftrightarrow> (\<exists>h q l. walk c in_rightmost h root = Some (q, l) \<and> m = last_id (leaf_cells l))"

text \<open>The system tables hold the rows \<open>R\<close>.\<close>

definition system_tables :: "(page_id \<Rightarrow> btree_node option) \<Rightarrow> system_rows \<Rightarrow> (page_id \<Rightarrow> u64) \<Rightarrow> bool" where
  "system_tables c R ids \<longleftrightarrow>
     sys_table c SYS_TABLE_ROOTS_ROOT_ID sys_roots_schema (map (\<lambda>(t, p). roots_tuple t p) (sr_tables R)) \<and>
     sys_table c SYS_SCHEMAS_ROOT_ID sys_tables_schema (map (\<lambda>(t, col). schema_tuple t col) (sr_columns R)) \<and>
     sys_table c SYS_INDEXES_ROOT_ID sys_index_schema (map (\<lambda>(t, m). index_tuple m t (im_root m)) (sr_indexes R)) \<and>
     (\<forall>p \<in> {SYS_TABLE_ROOTS_ROOT_ID, SYS_SCHEMAS_ROOT_ID, SYS_INDEXES_ROOT_ID} \<union> snd ` set (sr_tables R).
        row_counter c p (ids p))"

definition system_id :: "(page_id \<Rightarrow> u64) \<Rightarrow> u64" where
  "system_id ids = max (max (ids SYS_TABLE_ROOTS_ROOT_ID) (ids SYS_SCHEMAS_ROOT_ID)) (ids SYS_INDEXES_ROOT_ID)"

section \<open>The closures\<close>

definition add_index :: "string \<times> index_meta \<Rightarrow> catalog \<Rightarrow> catalog" where
  "add_index = (\<lambda>(t, m) c. c\<lparr>ct_indexes := (ct_indexes c)(t \<mapsto>
     (case ct_indexes c t of Some x \<Rightarrow> x | None \<Rightarrow> Map.empty)(im_name m \<mapsto> m))\<rparr>)"

lemma column_value_Ok:
  "i < length (tp_values t) \<Longrightarrow> get (tp_values t ! i) = Some x \<Longrightarrow> column_value get msg i t = ret x"
  by (simp add: column_value_def fun_eq_iff)

lemma process_table_row:
  "process_table_tuple row (tuple_new (tp_values (roots_tuple t p))) c = ret () (c\<lparr>ct_roots := (ct_roots c)(t \<mapsto> p)\<rparr>)"
  by (simp add: process_table_tuple_def column_value_Ok roots_tuple_def tuple_new_def modify_def ret_def)

lemma ucast_data_type: "ucast (ucast (data_type_to_u8 d) :: i32) = data_type_to_u8 d"
  by (cases d) simp_all

lemma process_schema_row:
  "process_schema_tuple row (tuple_new (tp_values (schema_tuple t col))) m = ret () (push_column t (loaded_column t col) m)"
  by (cases col; cases "col_length col")
    (simp_all add: process_schema_tuple_def column_value_Ok schema_tuple_def tuple_new_def modify_def ret_def
      ucast_data_type data_type_roundtrip loaded_column_def)

lemma process_index_row:
  "process_index_tuple row (tuple_new (tp_values (index_tuple m t (im_root m)))) c =
     ret () (c\<lparr>ct_indexes := (ct_indexes c)(t \<mapsto> (case ct_indexes c t of Some x \<Rightarrow> x | None \<Rightarrow> Map.empty)(im_name m \<mapsto> m))\<rparr>)"
  by (cases m) (simp add: process_index_tuple_def column_value_Ok index_tuple_def tuple_new_def modify_def ret_def)

text \<open>The same on pairs, as the rows are listed.\<close>

lemma process_rows:
  "process_table_tuple row (tuple_new (tp_values (case x of (t, p) \<Rightarrow> roots_tuple t p))) c =
     ret () ((case x of (t, p) \<Rightarrow> \<lambda>c. c\<lparr>ct_roots := (ct_roots c)(t \<mapsto> p)\<rparr>) c)"
  "process_schema_tuple row (tuple_new (tp_values (case y of (t, col) \<Rightarrow> schema_tuple t col))) m =
     ret () ((case y of (t, col) \<Rightarrow> push_column t (loaded_column t col)) m)"
  "process_index_tuple row (tuple_new (tp_values (case z of (t, im) \<Rightarrow> index_tuple im t (im_root im)))) c =
     ret () (add_index z c)"
  by (-, (cases x, simp add: process_table_row), (cases y, simp add: process_schema_row),
      (cases z, simp add: process_index_row add_index_def))

text \<open>The columns and indexes a scan has collected.\<close>

lemma fold_push:
  "fold (\<lambda>(t, col). push_column t (loaded_column t col)) cols m table =
     (case loaded_columns cols table of None \<Rightarrow> m table
      | Some cs \<Rightarrow> Some ((case m table of Some cs \<Rightarrow> cs | None \<Rightarrow> []) @ cs))"
proof (induction cols arbitrary: m)
  case (Cons x cols)
  then show ?case
    by (cases x; cases "filter (\<lambda>(t, _). t = table) cols")
      (auto simp: loaded_columns_def push_column_def split: option.split)
qed (simp add: loaded_columns_def)

lemma fold_roots:
  "fold (\<lambda>(t, p) c. c\<lparr>ct_roots := (ct_roots c)(t \<mapsto> p)\<rparr>) tabs c = c\<lparr>ct_roots := ct_roots c ++ map_of (rev tabs)\<rparr>"
  by (induction tabs arbitrary: c) auto

lemma fold_indexes:
  "ct_indexes (fold add_index idx c) table =
     (case loaded_indexes idx table of None \<Rightarrow> ct_indexes c table
      | Some ms \<Rightarrow> Some ((case ct_indexes c table of Some x \<Rightarrow> x | None \<Rightarrow> Map.empty) ++ ms))"
proof (induction idx arbitrary: c)
  case (Cons x idx)
  then show ?case
    by (cases x; cases "filter (\<lambda>(t, _). t = table) idx"; cases "ct_indexes c table")
      (auto simp: loaded_indexes_def add_index_def)
qed (simp add: loaded_indexes_def)

lemma fold_indexes_rest:
  "fold add_index idx c = c\<lparr>ct_indexes := ct_indexes (fold add_index idx c)\<rparr>"
proof (induction idx arbitrary: c)
  case (Cons x idx)
  show ?case unfolding fold_Cons comp_apply by (subst Cons) (simp add: add_index_def split: prod.split)
qed simp

section \<open>Scanning a system table\<close>

text \<open>What the closure does with a cell that is not deleted.\<close>

definition process_cell :: "schema \<Rightarrow> (u64 \<Rightarrow> tuple \<Rightarrow> ('a, unit) call) \<Rightarrow> cell \<Rightarrow> ('a, unit) call" where
  "process_cell sc process c = seq (lift (tuple_decode sc (cell_data c))) (\<lambda>t. process (row_id c) t)"

lemma seq_ret_at: "m s = ret a s1 \<Longrightarrow> seq m f s = f a s1"
  by (simp add: seq_def ret_def)

lemma for_each_append: "for_each f (xs @ ys) s = seq (for_each f xs) (\<lambda>_. for_each f ys) s"
proof (induction xs arbitrary: s)
  case (Cons x xs)
  have "for_each f (xs @ ys) = seq (for_each f xs) (\<lambda>_. for_each f ys)" using Cons by (simp add: fun_eq_iff)
  then show ?case by (simp add: seq_assoc)
qed simp

lemma seq_ret_iff: "seq m f s = ret b s' \<longleftrightarrow> (\<exists>a s1. m s = ret a s1 \<and> f a s1 = ret b s')"
  using seq_Some_iff [of m f s "Ok b" s'] by (auto simp: ret_def)

lemma for_each_stored:
  assumes "stored_rows sc (map g xs) cs" "\<And>x row a. process row (tuple_new (tp_values (g x))) a = ret () (f x a)"
  shows "for_each (process_cell sc process) (live_cells cs) a = ret () (fold f xs a)"
proof -
  have "list_all2 (\<lambda>x c. tuple_encode sc (g x) = Ok (cell_data c) \<and>
      list_all2 (\<lambda>col v. val_ok (col_type col) v) (sc_columns sc) (tp_values (g x))) xs (live_cells cs)"
    using assms(1) by (simp add: stored_rows_def list_all2_map1)
  then show ?thesis
  proof (induction arbitrary: a rule: list_all2_induct)
    case (Cons x xs c cs)
    obtain bs where "encode_values (sc_columns sc) (tp_values (g x)) = Ok bs"
      "\<forall>rest. decode_values (sc_columns sc) (bs @ rest) = Ok (tp_values (g x))"
      using values_roundtrip Cons.hyps(1) by blast
    then have "tuple_decode sc (cell_data c) = Ok (tuple_new (tp_values (g x)))"
      using Cons.hyps(1) by (metis append_Nil2 res_bind.simps(1) res.inject(1) tuple_decode_def tuple_encode_def list_all2_lengthD)
    then have "process_cell sc process c a = ret () (f x a)" by (simp add: process_cell_def assms(2))
    with Cons.IH show ?case by (simp add: seq_ret_at)
  qed simp
qed

text \<open>A scan runs the closure on the live cells, in order.\<close>

lemma outcome_on_fst: "outcome (on_fst m (a, s)) Q E \<longleftrightarrow> outcome (m a) (\<lambda>r a'. Q r (a', s)) (\<lambda>e a'. E e (a', s))"
  by (simp add: outcome_focus)

lemma outcome_on_snd: "outcome (on_snd m (a, s)) Q E \<longleftrightarrow> outcome (m s) (\<lambda>r s'. Q r (a, s')) (\<lambda>e s'. E e (a, s'))"
  by (simp add: outcome_focus)

lemma on_fst_ret: "m a = ret r a' \<Longrightarrow> on_fst m (a, s) = ret r (a', s)"
  by (simp add: focus_def ret_def)

lemma scan_cells:
  assumes "leaf_wf l" "for_each (process_cell sc process) (live_cells (leaf_cells l)) a = ret () a'"
  shows "for_each (scan_cell sc process l) (lf_slots l) (a, s) = ret () (a', s)"
proof -
  have "\<forall>i \<in> set is. unat i < length (lf_records l) \<Longrightarrow>
      for_each (process_cell sc process) (live_cells (map (\<lambda>i. lf_records l ! unat i) is)) a = ret () a' \<Longrightarrow>
      for_each (scan_cell sc process l) is (a, s) = ret () (a', s)" for "is"
  proof (induction "is" arbitrary: a)
    case Nil
    then show ?case by (simp add: ret_def)
  next
    case (Cons i "is")
    let ?c = "lf_records l ! unat i"
    have sl: "slot_cell l i = Ok ?c" using Cons.prems(1) by (simp add: slot_cell_def)
    show ?case
    proof (cases "is_deleted ?c")
      case True
      with Cons sl show ?thesis by (simp add: scan_cell_def seq_assoc)
    next
      case False
      with Cons.prems(2) obtain a1 where a1: "process_cell sc process ?c a = ret () a1"
        "for_each (process_cell sc process) (live_cells (map (\<lambda>i. lf_records l ! unat i) is)) a1 = ret () a'"
        by (auto simp: seq_ret_iff)
      then obtain t where t: "tuple_decode sc (cell_data ?c) = Ok t" "process (row_id ?c) t a = ret () a1"
        by (cases "tuple_decode sc (cell_data ?c)") (auto simp: process_cell_def fail_def panic_def ret_def)
      have "scan_cell sc process l i (a, s) = ret () (a1, s)"
        using False sl t(1) on_fst_ret [where m = "process (row_id ?c) t" and a = a, OF t(2)] by (simp add: scan_cell_def)
      with Cons a1(2) show ?thesis by (simp add: seq_ret_at)
    qed
  qed
  from this [of "lf_slots l"] assms show ?thesis by (simp add: leaf_cells_def leaf_wf_def)
qed

text \<open>What a call that only reads leaves of the pool; it fails when all frames are pinned.\<close>

definition reads :: "page_id set \<Rightarrow> page_id set \<Rightarrow> page_id set \<Rightarrow> pool \<Rightarrow> pool \<Rightarrow> bool" where
  "reads D F pins s s' \<longleftrightarrow> pool_inv D F s' \<and> quiet D pins s s'"

abbreviation pinned :: "page_id set \<Rightarrow> page_id set \<Rightarrow> page_id set \<Rightarrow> pool \<Rightarrow> error \<Rightarrow> 'c \<times> pool \<Rightarrow> bool" where
  "pinned D F pins s e x \<equiv> e = LruEviction \<and> pins \<noteq> {} \<and> reads D F pins s (snd x)"

lemma reads_trans: "reads D F pins s s' \<Longrightarrow> reads D F pins s' s'' \<Longrightarrow> reads D F pins s s''"
  using quiet_trans by (auto simp: reads_def)

lemma reads_db: "reads D F pins s s' \<Longrightarrow> db D s' = db D s"
  by (auto simp: reads_def intro: db_quiet)

lemma scan_leaves_chain:
  assumes "leaf_chain (db D s) p ls" "pool_inv D F s" "F \<subseteq> pins"
    "for_each (process_cell sc process) (live_cells (chain_cells ls)) a = ret () a'"
  shows "outcome (scan_leaves pins sc process p (a, s)) (\<lambda>_ (b, s'). b = a' \<and> reads D F pins s s') (pinned D F pins s)"
  using assms
proof (induction ls arbitrary: p a s)
  case (Cons l ls)
  have page: "db D s p = Some (Leaf l)" using Cons.prems(1) by simp
  show ?case
    unfolding scan_leaves.simps [of pins sc process p "(a, s)"]
  proof (rule outcome_seqI)
    show "outcome (on_snd (fetch_page pins p) (a, s))
      (\<lambda>n (b, s1). b = a \<and> (\<exists>l'. n = Leaf l' \<and> l = reloaded_leaf l' \<and> leaf_wf l') \<and> reads D F pins s s1) (pinned D F pins s)"
      unfolding outcome_on_snd by (rule outcome_weaken [OF fetch_leaf_pins [OF Cons.prems(2,3) page]]) (auto simp: reads_def)
    fix n x assume "case x of (b, s1) \<Rightarrow> b = a \<and> (\<exists>l'. n = Leaf l' \<and> l = reloaded_leaf l' \<and> leaf_wf l') \<and> reads D F pins s s1"
    then obtain s1 l' where x: "x = (a, s1)" "n = Leaf l'" "l = reloaded_leaf l'" "leaf_wf l'" "reads D F pins s s1" by auto
    have l: "leaf_cells l = leaf_cells l'" "lf_has_next l = lf_has_next l'" "lf_next l = lf_next l'"
      using x(3) by (simp_all add: reloaded_leaf_def leaf_cells_def)
    obtain a1 where a1: "for_each (process_cell sc process) (live_cells (leaf_cells l')) a = ret () a1"
      "for_each (process_cell sc process) (live_cells (chain_cells ls)) a1 = ret () a'"
      using Cons.prems(4) l(1) by (auto simp: for_each_append seq_ret_iff)
    note cells = seq_ret_at [where m = "for_each (scan_cell sc process l') (lf_slots l')" and s = "(a, s1)",
        OF scan_cells [OF x(4) a1(1)]]
    show "outcome ((case n of
       Internal _ \<Rightarrow> fail (CorruptPage ''expected a leaf node during horizontal scan'') x
     | Leaf l \<Rightarrow>
         seq (for_each (scan_cell sc process l) (lf_slots l)) (\<lambda>_ x.
           if \<not> lf_has_next l then ret () x
           else scan_leaves pins sc process (lf_next l) x) x)) (\<lambda>_ (b, s'). b = a' \<and> reads D F pins s s') (pinned D F pins s)"
    proof (cases "lf_has_next l'")
      case False
      then have "ls = []" using Cons.prems(1) l by simp
      with False a1 x show ?thesis by (simp add: cells) (simp add: ret_def)
    next
      case True
      have "pool_inv D F s1" using x(5) by (simp add: reads_def)
      moreover have "leaf_chain (db D s1) (lf_next l') ls"
        using Cons.prems(1) True l reads_db [OF x(5)] by simp
      ultimately have "outcome (scan_leaves pins sc process (lf_next l') (a1, s1))
          (\<lambda>_ (b, s'). b = a' \<and> reads D F pins s1 s') (pinned D F pins s1)"
        using Cons.IH Cons.prems(3) a1(2) by blast
      then have "outcome (scan_leaves pins sc process (lf_next l') (a1, s1))
          (\<lambda>_ (b, s'). b = a' \<and> reads D F pins s s') (pinned D F pins s)"
        by (rule outcome_weaken) (use reads_trans [OF x(5)] in auto)
      with True x show ?thesis by (simp add: cells)
    qed
  qed
qed simp

lemma scan_system_table_spec:
  assumes t: "sys_table (db D s) root sc (map g xs)" and inv: "pool_inv D F s" and F: "F \<subseteq> pins"
    and row: "\<And>x row a. process row (tuple_new (tp_values (g x))) a = ret () (f x a)"
  shows "outcome (scan_system_table pins root sc process (a, s))
    (\<lambda>_ (b, s'). b = fold f xs a \<and> reads D F pins s s') (pinned D F pins s)"
proof -
  obtain cs where cs: "start_cells (db D s) root None cs" "stored_rows sc (map g xs) cs"
    using t unfolding sys_table_def by blast
  then obtain h q l ls where ch: "leaf_chain (db D s) q (l # ls)" "walk (db D s) first_child h root = Some (q, l)"
    and c: "cs = chain_cells (l # ls)" by (auto simp: start_cells_def)
  have fe: "for_each (process_cell sc process) (live_cells (chain_cells (l # ls))) a = ret () (fold f xs a)"
    using for_each_stored [OF cs(2), of process f a] row c by simp
  show ?thesis unfolding scan_system_table_def
  proof (rule outcome_seqI)
    show "outcome (on_snd (get_leftmost_leaf pins root) (a, s)) (\<lambda>p (b, s1). p = q \<and> b = a \<and> reads D F pins s s1) (pinned D F pins s)"
      unfolding outcome_on_snd by (rule outcome_weaken [OF get_leftmost_leaf_spec [OF ch(2) inv F]]) (auto simp: reads_def)
    fix p x assume "case x of (b, s1) \<Rightarrow> p = q \<and> b = a \<and> reads D F pins s s1"
    then obtain s1 where x: "x = (a, s1)" "p = q" "reads D F pins s s1" by auto
    have ch1: "leaf_chain (db D s1) q (l # ls)" and i1: "pool_inv D F s1"
      using ch(1) reads_db [OF x(3)] x(3) by (simp_all add: reads_def)
    show "outcome (scan_leaves pins sc process p x) (\<lambda>_ (b, s'). b = fold f xs a \<and> reads D F pins s s') (pinned D F pins s)"
      unfolding x(1,2) by (rule outcome_weaken [OF scan_leaves_chain [OF ch1 i1 F fe]]) (use reads_trans [OF x(3)] in auto)
  qed
qed

lemma row_counter_spec:
  assumes "row_counter (db D s) root m" "pool_inv D F s" "F \<subseteq> pins"
  shows "outcome (get_max_row_id pins root s) (\<lambda>n s'. n = m \<and> reads D F pins s s')
    (\<lambda>e s'. e = LruEviction \<and> pins \<noteq> {} \<and> reads D F pins s s')"
proof -
  obtain h q l where "walk (db D s) in_rightmost h root = Some (q, l)" "m = last_id (leaf_cells l)"
    using assms(1) by (auto simp: row_counter_def)
  then show ?thesis by (intro outcome_weaken [OF get_max_row_id_spec [OF _ assms(2,3)]]) (auto simp: reads_def)
qed

section \<open>Bootstrapping\<close>

text \<open>A step of the bootstrap that reads, and the rest of it.\<close>

lemma read_step:
  assumes "outcome (m (a, s1)) (\<lambda>r (b, s'). Q r b \<and> reads D F pins s s') (pinned D F pins s)"
    "\<And>r b s'. Q r b \<Longrightarrow> reads D F pins s s' \<Longrightarrow> outcome (f r (b, s')) R (pinned D F pins s)"
  shows "outcome (seq m f (a, s1)) R (pinned D F pins s)"
  using assms by (auto intro!: outcome_seqI)

lemma read_to:
  assumes "outcome (m (a, s1)) (\<lambda>_ (b, s'). b = c \<and> reads D F pins s s') (pinned D F pins s)"
    "\<And>r s'. reads D F pins s s' \<Longrightarrow> outcome (f r (c, s')) R (pinned D F pins s)"
  shows "outcome (seq m f (a, s1)) R (pinned D F pins s)"
  by (rule read_step [where Q = "\<lambda>_ b. b = c"]) (use assms in auto)

lemma outcome_with_local:
  "outcome (with_local l m s) Q E \<longleftrightarrow> outcome (m (l, s)) (\<lambda>a (l', s'). Q (a, l') s') (\<lambda>e (l', s'). E e s')"
  by (auto simp: outcome_def with_local_def split: option.splits res.splits prod.splits bind_split)

lemma load_counters:
  assumes "\<forall>t \<in> set ts. row_counter (db D s) (the (ct_roots c t)) (ids (the (ct_roots c t)))" "pool_inv D F s" "F \<subseteq> pins"
  shows "outcome (for_each (load_row_counter pins) ts (c, s))
    (\<lambda>_ (c', s'). c' = c\<lparr>ct_row_ids := (\<lambda>t. if t \<in> set ts then Some (ids (the (ct_roots c t)) + 1) else ct_row_ids c t)\<rparr> \<and>
       reads D F pins s s') (pinned D F pins s)"
  using assms
proof (induction ts arbitrary: c s)
  case Nil
  then show ?case by (simp add: reads_def)
next
  case (Cons t ts)
  let ?p = "the (ct_roots c t)"
  let ?c = "c\<lparr>ct_row_ids := (ct_row_ids c)(t \<mapsto> ids ?p + 1)\<rparr>"
  have rc: "row_counter (db D s) ?p (ids ?p)" using Cons.prems(1) by simp
  have one: "outcome (load_row_counter pins t (c, s)) (\<lambda>_ (c', s'). c' = ?c \<and> reads D F pins s s') (pinned D F pins s)"
    unfolding load_row_counter_def
    by (simp add: outcome_seq outcome_on_fst outcome_on_snd)
      (rule outcome_weaken [OF row_counter_spec [OF rc Cons.prems(2,3)]], simp_all)
  show ?case
    unfolding for_each.simps
  proof (rule read_step [where Q = "\<lambda>_ c'. c' = ?c"], rule one)
    fix r :: unit and c1 s1 assume "c1 = ?c" and s1: "reads D F pins s s1"
    have "outcome (for_each (load_row_counter pins) ts (?c, s1))
      (\<lambda>_ (c', s'). c' = ?c\<lparr>ct_row_ids := (\<lambda>t. if t \<in> set ts then Some (ids (the (ct_roots ?c t)) + 1) else ct_row_ids ?c t)\<rparr> \<and>
         reads D F pins s1 s') (pinned D F pins s1)"
      by (rule Cons.IH) (use Cons.prems s1 reads_db [OF s1] in \<open>simp_all add: reads_def\<close>)
    then show "outcome (for_each (load_row_counter pins) ts (c1, s1))
      (\<lambda>_ (c', s'). c' = c\<lparr>ct_row_ids := (\<lambda>t'. if t' \<in> set (t # ts) then Some (ids (the (ct_roots c t')) + 1) else ct_row_ids c t')\<rparr> \<and>
         reads D F pins s s') (pinned D F pins s)"
      unfolding \<open>c1 = ?c\<close>
    proof (rule outcome_weaken)
      fix u :: unit and x
      assume "case x of (c', s') \<Rightarrow> c' = ?c\<lparr>ct_row_ids := (\<lambda>t. if t \<in> set ts then Some (ids (the (ct_roots ?c t)) + 1) else ct_row_ids ?c t)\<rparr> \<and>
         reads D F pins s1 s'"
      then show "case x of (c', s') \<Rightarrow> c' = c\<lparr>ct_row_ids := (\<lambda>t'. if t' \<in> set (t # ts) then Some (ids (the (ct_roots c t')) + 1) else ct_row_ids c t')\<rparr> \<and>
         reads D F pins s s'"
        using reads_trans [OF s1] by (cases x) (auto simp: fun_eq_iff)
    qed (use reads_trans [OF s1] in auto)
  qed
qed

lemma max_sys_row_id_spec:
  assumes "\<forall>p \<in> {SYS_TABLE_ROOTS_ROOT_ID, SYS_SCHEMAS_ROOT_ID, SYS_INDEXES_ROOT_ID}. row_counter (db D s) p (ids p)"
    "pool_inv D F s" "F \<subseteq> pins"
  shows "outcome (on_snd (max_sys_row_id pins) (c, s)) (\<lambda>m (c', s'). (m = system_id ids \<and> c' = c) \<and> reads D F pins s s')
    (pinned D F pins s)"
proof -
  have step: "outcome (get_max_row_id pins p s1) (\<lambda>n s'. n = ids p \<and> reads D F pins s s')
      (\<lambda>e s'. e = LruEviction \<and> pins \<noteq> {} \<and> reads D F pins s s')"
    if "p \<in> {SYS_TABLE_ROOTS_ROOT_ID, SYS_SCHEMAS_ROOT_ID, SYS_INDEXES_ROOT_ID}" "reads D F pins s s1" for p s1
  proof -
    have "row_counter (db D s1) p (ids p)" "pool_inv D F s1"
      using that assms(1) reads_db [OF that(2)] by (auto simp: reads_def)
    from row_counter_spec [OF this assms(3)] show ?thesis
      by (rule outcome_weaken) (use reads_trans [OF that(2)] in auto)
  qed
  have r0: "reads D F pins s s" using assms(2) by (simp add: reads_def)
  have "outcome (max_sys_row_id pins s) (\<lambda>m s'. m = system_id ids \<and> reads D F pins s s')
      (\<lambda>e s'. e = LruEviction \<and> pins \<noteq> {} \<and> reads D F pins s s')"
    unfolding max_sys_row_id_def
  proof (rule outcome_seqI, rule step [OF _ r0])
    fix a s1 assume a: "a = ids SYS_TABLE_ROOTS_ROOT_ID \<and> reads D F pins s s1"
    show "outcome (seq (get_max_row_id pins SYS_SCHEMAS_ROOT_ID) (\<lambda>b.
        seq (get_max_row_id pins SYS_INDEXES_ROOT_ID) (\<lambda>c. ret (max (max (max 0 a) b) c))) s1)
        (\<lambda>m s'. m = system_id ids \<and> reads D F pins s s') (\<lambda>e s'. e = LruEviction \<and> pins \<noteq> {} \<and> reads D F pins s s')"
    proof (rule outcome_seqI, rule step [OF _ conjunct2 [OF a]])
      fix b s2 assume b: "b = ids SYS_SCHEMAS_ROOT_ID \<and> reads D F pins s s2"
      show "outcome (seq (get_max_row_id pins SYS_INDEXES_ROOT_ID) (\<lambda>c. ret (max (max (max 0 a) b) c)) s2)
        (\<lambda>m s'. m = system_id ids \<and> reads D F pins s s') (\<lambda>e s'. e = LruEviction \<and> pins \<noteq> {} \<and> reads D F pins s s')"
        by (rule outcome_seqI, rule step [OF _ conjunct2 [OF b]]) (use a b in \<open>auto simp: system_id_def\<close>)
    qed simp
  qed simp
  then show ?thesis unfolding outcome_on_snd by (rule outcome_weaken) auto
qed

text \<open>
  The bootstrap of a database that is not empty loads exactly the catalog that the rows of the
  system tables describe, and changes no page.
\<close>

lemma bootstrap_loads:
  assumes ne: "\<not> pool_is_empty s" and inv: "pool_inv D F s" and F: "F \<subseteq> pins" and t: "system_tables (db D s) R ids"
    and keys: "\<forall>S. finite S \<longrightarrow> set (keys S) = S"
  shows "outcome (bootstrap pins order keys (catalog_new, s))
    (\<lambda>_ (c, s'). c = loaded R (system_id ids) ids \<and> reads D F pins s s') (pinned D F pins s)"
proof -
  let ?c1 = "catalog_new\<lparr>ct_roots := map_of (rev (sr_tables R))\<rparr>"
  let ?c2 = "?c1\<lparr>ct_schemas := (\<lambda>t. map_option schema_new (loaded_columns (sr_columns R) t))\<rparr>"
  let ?c3 = "?c2\<lparr>ct_indexes := loaded_indexes (sr_indexes R)\<rparr>"
  let ?c4 = "?c3\<lparr>ct_sys_id := system_id ids + 1\<rparr>"
  have sys: "sys_table (db D s) SYS_TABLE_ROOTS_ROOT_ID sys_roots_schema (map (\<lambda>(t, p). roots_tuple t p) (sr_tables R))"
    "sys_table (db D s) SYS_SCHEMAS_ROOT_ID sys_tables_schema (map (\<lambda>(t, col). schema_tuple t col) (sr_columns R))"
    "sys_table (db D s) SYS_INDEXES_ROOT_ID sys_index_schema (map (\<lambda>(t, m). index_tuple m t (im_root m)) (sr_indexes R))"
    and cnt: "\<forall>p \<in> {SYS_TABLE_ROOTS_ROOT_ID, SYS_SCHEMAS_ROOT_ID, SYS_INDEXES_ROOT_ID} \<union> snd ` set (sr_tables R). row_counter (db D s) p (ids p)"
    using t by (simp_all add: system_tables_def)
  have keep: "db D s1 = db D s \<and> pool_inv D F s1" if "reads D F pins s s1" for s1
    using that reads_db [OF that] by (simp add: reads_def)
  have onward: "outcome x (\<lambda>r (b, s'). Q r b \<and> reads D F pins s s') (pinned D F pins s)"
    if "reads D F pins s s1" "outcome x (\<lambda>r (b, s'). Q r b \<and> reads D F pins s1 s') (pinned D F pins s1)" for x s1 Q
    using that(2) by (rule outcome_weaken) (use reads_trans [OF that(1)] in auto)
  have scan1: "outcome (scan_system_table pins SYS_TABLE_ROOTS_ROOT_ID sys_roots_schema process_table_tuple (catalog_new, s))
      (\<lambda>_ (c, s'). c = ?c1 \<and> reads D F pins s s') (pinned D F pins s)"
  proof -
    have f: "fold (\<lambda>(t, p) c. c\<lparr>ct_roots := (ct_roots c)(t \<mapsto> p)\<rparr>) (sr_tables R) catalog_new = ?c1"
      by (simp add: fold_roots catalog_new_def)
    show ?thesis unfolding f [symmetric]
      by (rule scan_system_table_spec [OF sys(1) inv F]) (rule process_rows(1))
  qed
  have scan2: "outcome (load_schemas pins (?c1, s1)) (\<lambda>_ (c, s'). c = ?c2 \<and> reads D F pins s s') (pinned D F pins s)"
    if r: "reads D F pins s s1" for s1
  proof -
    let ?raw = "fold (\<lambda>(t, col). push_column t (loaded_column t col)) (sr_columns R) Map.empty"
    have raw: "?raw = loaded_columns (sr_columns R)" by (auto simp: fun_eq_iff fold_push split: option.split)
    have sc: "outcome (scan_system_table pins SYS_SCHEMAS_ROOT_ID sys_tables_schema process_schema_tuple (Map.empty, s1))
      (\<lambda>_ (m, s'). m = loaded_columns (sr_columns R) \<and> reads D F pins s1 s') (pinned D F pins s1)"
      unfolding raw [symmetric]
      by (rule scan_system_table_spec [OF _ _ F]) (use sys(2) keep [OF r] process_rows(2) in simp_all)
    show ?thesis
      unfolding load_schemas_def
      by (simp add: outcome_seq outcome_on_snd outcome_on_fst outcome_with_local)
        (rule outcome_weaken [OF onward [OF r sc]], auto simp: catalog_new_def)
  qed
  have scan3: "outcome (scan_system_table pins SYS_INDEXES_ROOT_ID sys_index_schema process_index_tuple (?c2, s1))
      (\<lambda>_ (c, s'). c = ?c3 \<and> reads D F pins s s') (pinned D F pins s)" if r: "reads D F pins s s1" for s1
  proof -
    have "ct_indexes (fold add_index (sr_indexes R) ?c2) = loaded_indexes (sr_indexes R)"
      by (auto simp: fun_eq_iff fold_indexes catalog_new_def split: option.split)
    then have f: "fold add_index (sr_indexes R) ?c2 = ?c3" using fold_indexes_rest [of "sr_indexes R" ?c2] by simp
    have "outcome (scan_system_table pins SYS_INDEXES_ROOT_ID sys_index_schema process_index_tuple (?c2, s1))
      (\<lambda>_ (c, s'). c = ?c3 \<and> reads D F pins s1 s') (pinned D F pins s1)"
      unfolding f [symmetric]
      by (rule scan_system_table_spec [OF _ _ F])
        (use sys(3) keep [OF r] process_rows(3) in simp_all)
    then show ?thesis by (rule onward [OF r])
  qed
  have ids4: "outcome (on_snd (max_sys_row_id pins) (?c3, s1))
      (\<lambda>m (c, s'). (m = system_id ids \<and> c = ?c3) \<and> reads D F pins s s') (pinned D F pins s)" if r: "reads D F pins s s1" for s1
    by (rule onward [OF r], rule max_sys_row_id_spec [OF _ _ F]) (use cnt keep [OF r] in simp_all)
  have fin: "outcome (for_each (load_row_counter pins) (keys (dom (ct_roots ?c4))) (?c4, s1))
      (\<lambda>_ (c, s'). c = loaded R (system_id ids) ids \<and> reads D F pins s s') (pinned D F pins s)" if r: "reads D F pins s s1" for s1
  proof -
    have k: "set (keys (dom (ct_roots ?c4))) = dom (map_of (rev (sr_tables R)))"
      using keys finite_dom_map_of [of "rev (sr_tables R)"] by simp
    have rc: "row_counter (db D s1) (the (ct_roots ?c4 t)) (ids (the (ct_roots ?c4 t)))" if "t \<in> set (keys (dom (ct_roots ?c4)))" for t
    proof -
      from that k obtain p where p: "map_of (rev (sr_tables R)) t = Some p" by auto
      then have "(t, p) \<in> set (sr_tables R)" using map_of_SomeD by fastforce
      then show ?thesis using p cnt keep [OF r] by force
    qed
    have l: "?c4\<lparr>ct_row_ids := (\<lambda>t. if t \<in> set (keys (dom (ct_roots ?c4))) then Some (ids (the (ct_roots ?c4 t)) + 1) else ct_row_ids ?c4 t)\<rparr> =
        loaded R (system_id ids) ids"
      unfolding k by (auto simp: loaded_def Let_def catalog_new_def fun_eq_iff)
    show ?thesis unfolding l [symmetric]
      by (rule onward [OF r], rule load_counters [OF _ _ F]) (use rc keep [OF r] in simp_all)
  qed
  show ?thesis
    unfolding bootstrap_def
  proof (simp add: ne, rule read_to [where c = ?c1], rule scan1, rule read_to [where c = ?c2], rule scan2, assumption,
      rule read_to [where c = ?c3], rule scan3, assumption)
    fix s1 assume r: "reads D F pins s s1"
    show "outcome (seq (on_snd (max_sys_row_id pins)) (\<lambda>m.
        seq (on_fst (modify (\<lambda>c. c\<lparr>ct_sys_id := m + 1\<rparr>))) (\<lambda>_.
        seq (gets (\<lambda>(c, _). keys (dom (ct_roots c)))) (for_each (load_row_counter pins)))) (?c3, s1))
      (\<lambda>_ (c, s'). c = loaded R (system_id ids) ids \<and> reads D F pins s s') (pinned D F pins s)"
      unfolding outcome_seq [of "on_snd (max_sys_row_id pins)"]
    proof (rule outcome_weaken [OF ids4 [OF r]])
      fix m x assume "case x of (c, s') \<Rightarrow> (m = system_id ids \<and> c = ?c3) \<and> reads D F pins s s'"
      then obtain s2 where x: "m = system_id ids" "x = (?c3, s2)" "reads D F pins s s2" by auto
      have "outcome (on_fst (modify (\<lambda>c. c\<lparr>ct_sys_id := m + 1\<rparr>)) x) (\<lambda>_ y. y = (?c4, s2)) E" for E
        unfolding x(1,2) outcome_on_fst by simp
      then show "outcome (seq (on_fst (modify (\<lambda>c. c\<lparr>ct_sys_id := m + 1\<rparr>))) (\<lambda>_.
          seq (gets (\<lambda>(c, _). keys (dom (ct_roots c)))) (for_each (load_row_counter pins))) x)
        (\<lambda>_ (c, s'). c = loaded R (system_id ids) ids \<and> reads D F pins s s') (pinned D F pins s)"
        unfolding outcome_seq [of "on_fst _"]
        by (rule outcome_weaken) (use fin [OF x(3)] in simp_all)
    qed
  qed
qed

section \<open>Opening a database again\<close>

lemma content_node: "pages_inv D F s \<Longrightarrow> p \<in> D \<Longrightarrow> page_content s p = Some n \<Longrightarrow> node_wf n \<and> reloaded n = n"
proof (cases "bp_table s p")
  case None
  assume "pages_inv D F s" "p \<in> D" "page_content s p = Some n"
  with pages_invD(1) [of D F s p] None content_uncached [OF None] show ?thesis by force
next
  case (Some m)
  assume "pages_inv D F s" "p \<in> D" "page_content s p = Some n"
  with pages_invD(2) [of D F s p m] Some content_cached [OF Some] show ?thesis by (auto simp: reloaded_wf)
qed

text \<open>A new pool over a file of well-formed pages, and over one that holds the contents of
  another pool.\<close>

lemma pool_new_inv:
  assumes on: "\<forall>p \<in> D. aligned p \<and> (\<exists>n. on_disk d p n \<and> node_wf n \<and> reloaded n = n)" and cap: "0 < cap"
  shows "pool_inv D {} (pool_new d cap w)"
proof -
  have "cache_inv (pool_new d cap w)"
    using cap lru_rep_new [of cap] by (auto simp: cache_inv_def pool_new_def lru_new_def intro!: exI [of _ "[]"])
  moreover have "pages_inv D {} (pool_new d cap w)"
    using on by (auto simp: pages_inv_def page_inv_def pool_new_def)
  ultimately show ?thesis by (simp add: pool_inv_def)
qed

lemma pool_new_page: "on_disk d p n \<Longrightarrow> page_content (pool_new d cap w) p = Some (reloaded n)"
  by (rule content_uncached) (simp_all add: pool_new_def)

lemma pool_new_content:
  assumes on: "\<forall>p \<in> D. aligned p \<and> (\<exists>n. on_disk d p n \<and> page_content s p = Some n)"
    and s: "pages_inv D' F s" "D \<subseteq> D'" and cap: "0 < cap"
  shows "pool_inv D {} (pool_new d cap w)" "db D (pool_new d cap w) = db D s"
proof -
  have pg: "\<exists>n. on_disk d p n \<and> page_content s p = Some n \<and> node_wf n \<and> reloaded n = n" if "p \<in> D" for p
    using on that content_node [OF s(1), of p] s(2) by blast
  then show "pool_inv D {} (pool_new d cap w)" using on cap by (intro pool_new_inv) blast+
  have "page_content (pool_new d cap w) p = page_content s p" if "p \<in> D" for p
    using pg [OF that] pool_new_page [of d p _ cap w] by auto
  then show "db D (pool_new d cap w) = db D s" by (auto simp: db_def)
qed

text \<open>
  C40: A database that is opened again after a crash. A transaction runs over a pool that starts
  clean with an empty log, and commits while its pages are cached; whatever the pool has written
  back in between, opening the file and the log that are left at the commit succeeds: recovery
  and bootstrap give a pool that satisfies its invariant, every page of the database and of the
  transaction has its content at the commit, the catalog is the one that the rows of the three
  system tables describe (the row counters one past the last row id of the rightmost leaf), and
  no transaction is left. It is assumed that the file has a saved header, that the pages at the
  commit hold the system tables with rows as create_table and create_index write them, that no
  frame is held while the database is opened and that the capacity is positive. The next free
  page is still the one of the saved header.
\<close>

lemma reopened_database:
  assumes r: "txn_reach t D0 s0 D F s" and s0: "pool_inv D0 {} s0" "txns_inv s0" "bp_txns s0 t = None"
    and fresh: "wal_file (bp_wal s0) = []" "\<forall>p \<in> D0. \<not> is_dirty_in s0 p"
    and st: "bp_txns s t = Some st" and cached: "dirty_pages st \<subseteq> dom (bp_table s)" and ord: "order_ok order"
    and sys: "system_tables (db (D0 \<union> dirty_pages st) s) R ids"
    and hd: "disk_open (dm_file (bp_disk s)) = Ok d0" "\<not> disk_is_empty d0"
    and wd: "ev_pins (wd_env wd) = {}" "\<forall>S. finite S \<longrightarrow> set (ev_keys (wd_env wd) S) = S" and cap: "0 < cap"
  shows "\<exists>s' d. commit_transaction order t s = ret () s' \<and>
    database_open wd (dm_file (bp_disk s')) (wal_file (bp_wal s')) cap = Some (Ok d) \<and>
    pool_inv (D0 \<union> dirty_pages st) {} (db_pool d) \<and>
    (\<forall>p \<in> D0 \<union> dirty_pages st. page_content (db_pool d) p = page_content s p) \<and>
    db_catalog d = loaded R (system_id ids) ids \<and>
    bp_txns (db_pool d) = Map.empty \<and> wal_file (bp_wal (db_pool d)) = [] \<and>
    next_free_offset (dm_header (bp_disk (db_pool d))) = next_free_offset (dm_header d0)"
proof -
  let ?D = "D0 \<union> dirty_pages st"
  from committed_txn_recovered [OF r s0 fresh st cached ord] obtain s' where
    s': "commit_transaction order t s = ret () s'" "bp_disk s' = bp_disk s"
    and rec: "\<forall>d0. dm_file d0 = dm_file (bp_disk s) \<longrightarrow>
      (\<exists>w d. recovery_init (wal_file (bp_wal s')) d0 = Ok (w, d) \<and> wal_file w = [] \<and> dm_header d = dm_header d0 \<and>
        (\<forall>p \<in> ?D. aligned p \<and> (\<exists>n. on_disk d p n \<and> page_content s p = Some n)))" by blast
  have f: "dm_file d0 = dm_file (bp_disk s)"
    using hd(1) by (auto simp: disk_open_def res_bind_eq_Ok split: if_splits prod.splits)
  with rec obtain w d1 where d1: "recovery_init (wal_file (bp_wal s')) d0 = Ok (w, d1)" "wal_file w = []"
    "dm_header d1 = dm_header d0" "\<forall>p \<in> ?D. aligned p \<and> (\<exists>n. on_disk d1 p n \<and> page_content s p = Some n)" by blast
  let ?s1 = "pool_new d1 cap (wal_open (wal_file w))"
  have inv: "txn_inv t D0 s0 D F s" by (rule txn_reach_inv [OF r s0])
  then have "pages_inv D F s" "?D \<subseteq> D" using st by (auto simp: txn_inv_def pool_inv_def txn_entry_def)
  note new = pool_new_content [OF d1(4) this cap, of "wal_open (wal_file w)"]
  have "\<not> pool_is_empty ?s1" using hd(2) d1(3) by (simp add: pool_is_empty_def pool_new_def disk_is_empty_def)
  moreover have "system_tables (db ?D ?s1) R ids" using sys new(2) by simp
  ultimately have "outcome (bootstrap {} (wd_order wd) (ev_keys (wd_env wd)) (catalog_new, ?s1))
      (\<lambda>_ (c, s2). c = loaded R (system_id ids) ids \<and> reads ?D {} {} ?s1 s2) (pinned ?D {} {} ?s1)"
    using new(1) wd(2) by (intro bootstrap_loads) simp_all
  then have "outcome (bootstrap {} (wd_order wd) (ev_keys (wd_env wd)) (catalog_new, ?s1))
      (\<lambda>_ (c, s2). c = loaded R (system_id ids) ids \<and> reads ?D {} {} ?s1 s2) (\<lambda>_ _. False)"
    by (rule outcome_weaken) auto
  then obtain u x where b: "bootstrap {} (wd_order wd) (ev_keys (wd_env wd)) (catalog_new, ?s1) = ret u x"
    "case x of (c, s2) \<Rightarrow> c = loaded R (system_id ids) ids \<and> reads ?D {} {} ?s1 s2" by (rule outcome_total)
  obtain s2 where x: "x = (loaded R (system_id ids) ids, s2)" "reads ?D {} {} ?s1 s2" using b(2) by (cases x) auto
  let ?d = "\<lparr>db_pool = s2, db_catalog = loaded R (system_id ids) ids, db_next_txn_id = 1\<rparr>"
  have "database_open wd (dm_file (bp_disk s')) (wal_file (bp_wal s')) cap = Some (Ok ?d)"
    using hd(1) d1(1) b(1) x(1) by (simp add: database_open_def s'(2) wd(1) ret_def)
  moreover have "page_content s2 p = page_content s p" if "p \<in> ?D" for p
    using that fun_cong [OF reads_db [OF x(2)], of p] fun_cong [OF new(2), of p] by (simp add: db_def)
  moreover have "pool_inv ?D {} s2" "bp_txns s2 = Map.empty" "wal_file (bp_wal s2) = []"
    "dm_header (bp_disk s2) = dm_header d0"
    using x(2) d1(2,3) by (simp_all add: reads_def quiet_def pool_new_def wal_open_def)
  ultimately show ?thesis using s'(1)
    by (intro exI [of _ s'] exI [of _ ?d]) (simp add: ball_Un)
qed

section \<open>A database with one table\<close>

text \<open>The table t with the column id and no index, in the system tables; its root is the page 32768,
  in which a transaction stores the row 7.\<close>

definition ex_id_column :: column where
  "ex_id_column = \<lparr>col_table = Some ''t'', col_name = ''id'', col_type = TBigInt, col_length = None, col_is_pk = True\<rparr>"

definition ex_rows_of :: system_rows where
  "ex_rows_of = \<lparr>sr_tables = [(''t'', 32768)], sr_columns = [(''t'', ex_id_column)], sr_indexes = []\<rparr>"

definition row_leaf :: "page_id \<Rightarrow> u64 \<Rightarrow> u8 list \<Rightarrow> leaf_node" where
  "row_leaf p k data = (new_empty_leaf p)\<lparr>lf_records := [\<lparr>row_id = k, cell_data = data, is_deleted = False\<rparr>],
     lf_slots := [0], lf_free := 0, lf_dirty := False\<rparr>"

definition bytes_of :: "schema \<Rightarrow> tuple \<Rightarrow> u8 list" where
  "bytes_of sc t = (case tuple_encode sc t of Ok bs \<Rightarrow> bs | _ \<Rightarrow> [])"

definition ex_roots_leaf :: leaf_node where
  "ex_roots_leaf = row_leaf 8192 1 (bytes_of sys_roots_schema (roots_tuple ''t'' 32768))"
definition ex_columns_leaf :: leaf_node where
  "ex_columns_leaf = row_leaf 16384 2 (bytes_of sys_tables_schema (schema_tuple ''t'' ex_id_column))"
definition ex_indexes_leaf :: leaf_node where
  "ex_indexes_leaf = (new_empty_leaf 24576)\<lparr>lf_dirty := False\<rparr>"
definition ex_empty_leaf :: leaf_node where
  "ex_empty_leaf = (new_empty_leaf 32768)\<lparr>lf_dirty := False\<rparr>"
definition ex_row_leaf :: leaf_node where
  "ex_row_leaf = (row_leaf 32768 7 (0 # u64_to_le 7))\<lparr>lf_dirty := True\<rparr>"

lemma row_leaf_cells [simp]: "leaf_cells (row_leaf p k data) = [\<lparr>row_id = k, cell_data = data, is_deleted = False\<rparr>]"
  by (simp add: leaf_cells_def row_leaf_def)

lemma row_leaf_wf: "length data \<le> 1000 \<Longrightarrow> leaf_wf (row_leaf p k data)"
  by (simp add: leaf_wf_def cells_size_def page_sizes) (simp add: row_leaf_def new_empty_leaf_def)

lemma ex_bytes:
  "tuple_encode sys_roots_schema (roots_tuple ''t'' 32768) = Ok (bytes_of sys_roots_schema (roots_tuple ''t'' 32768))"
  "tuple_encode sys_tables_schema (schema_tuple ''t'' ex_id_column) = Ok (bytes_of sys_tables_schema (schema_tuple ''t'' ex_id_column))"
  "length (bytes_of sys_roots_schema (roots_tuple ''t'' 32768)) \<le> 1000"
  "length (bytes_of sys_tables_schema (schema_tuple ''t'' ex_id_column)) \<le> 1000"
  by (simp_all add: bytes_of_def tuple_encode_def roots_tuple_def schema_tuple_def sys_roots_schema_def sys_tables_schema_def
      schema_new_def tuple_new_def ex_id_column_def u64_to_le_8)

lemma ex_leaves_wf: "leaf_wf ex_roots_leaf" "leaf_wf ex_columns_leaf" "leaf_wf ex_indexes_leaf" "leaf_wf ex_empty_leaf" "leaf_wf ex_row_leaf"
proof -
  show "leaf_wf ex_roots_leaf" "leaf_wf ex_columns_leaf"
    using row_leaf_wf ex_bytes(3,4) by (simp_all add: ex_roots_leaf_def ex_columns_leaf_def)
  show "leaf_wf ex_indexes_leaf" "leaf_wf ex_empty_leaf"
    by (simp_all add: leaf_wf_def leaf_cells_def ex_indexes_leaf_def ex_empty_leaf_def new_empty_leaf_def cells_size_def page_sizes)
  have "leaf_wf (row_leaf 32768 7 (0 # u64_to_le 7))" by (rule row_leaf_wf) (simp add: u64_to_le_8)
  then show "leaf_wf ex_row_leaf" by (simp add: ex_row_leaf_def leaf_wf_def leaf_cells_def)
qed

definition ex_file :: disk_manager where
  "ex_file = write_page 32768 (leaf_image ex_empty_leaf) (write_page 24576 (leaf_image ex_indexes_leaf)
     (write_page 16384 (leaf_image ex_columns_leaf) (write_page 8192 (leaf_image ex_roots_leaf)
       \<lparr>dm_file = [], dm_header = default_header\<lparr>next_free_offset := 40960\<rparr>\<rparr>)))"

definition ex_saved :: disk_manager where
  "ex_saved = (case save_header ex_file of Ok d \<Rightarrow> d | _ \<Rightarrow> ex_file)"

lemma ex_saved: "save_header ex_file = Ok ex_saved" "disk_open (dm_file ex_saved) = Ok ex_saved"
  "next_free_offset (dm_header ex_saved) = 40960"
  using save_header_open [of ex_file] by (auto simp: ex_saved_def) (auto simp: ex_file_def write_page_def default_header_def)

lemma ex_pages_aligned: "aligned 8192" "aligned 16384" "aligned 24576" "aligned 32768"
  by (simp_all add: aligned_def page_sizes)

lemma ex_saved_pages:
  "on_disk ex_saved 8192 (reloaded (Leaf ex_roots_leaf))" "on_disk ex_saved 16384 (reloaded (Leaf ex_columns_leaf))"
  "on_disk ex_saved 24576 (reloaded (Leaf ex_indexes_leaf))" "on_disk ex_saved 32768 (reloaded (Leaf ex_empty_leaf))"
proof -
  note wr = read_write_page read_write_other_page
  note len = leaf_image_decode(1) [OF ex_leaves_wf(1)] leaf_image_decode(1) [OF ex_leaves_wf(2)]
    leaf_image_decode(1) [OF ex_leaves_wf(3)] leaf_image_decode(1) [OF ex_leaves_wf(4)]
  note dec = leaf_image_decode(2) [OF ex_leaves_wf(1)] leaf_image_decode(2) [OF ex_leaves_wf(2)]
    leaf_image_decode(2) [OF ex_leaves_wf(3)] leaf_image_decode(2) [OF ex_leaves_wf(4)]
  have "read_page 8192 ex_file = Ok (leaf_image ex_roots_leaf)" "read_page 16384 ex_file = Ok (leaf_image ex_columns_leaf)"
    "read_page 24576 ex_file = Ok (leaf_image ex_indexes_leaf)" "read_page 32768 ex_file = Ok (leaf_image ex_empty_leaf)"
    unfolding ex_file_def by (auto intro!: wr simp: len ex_pages_aligned)
  then have "read_page 8192 ex_saved = Ok (leaf_image ex_roots_leaf)" "read_page 16384 ex_saved = Ok (leaf_image ex_columns_leaf)"
    "read_page 24576 ex_saved = Ok (leaf_image ex_indexes_leaf)" "read_page 32768 ex_saved = Ok (leaf_image ex_empty_leaf)"
    using save_header_pages [OF ex_saved(1)] ex_pages_aligned by blast+
  then show "on_disk ex_saved 8192 (reloaded (Leaf ex_roots_leaf))" "on_disk ex_saved 16384 (reloaded (Leaf ex_columns_leaf))"
    "on_disk ex_saved 24576 (reloaded (Leaf ex_indexes_leaf))" "on_disk ex_saved 32768 (reloaded (Leaf ex_empty_leaf))"
    by (simp_all add: on_disk_def dec)
qed

definition reopen_start :: pool where "reopen_start = pool_new ex_saved 4 (wal_open [])"

abbreviation ex_pages :: "page_id set" where "ex_pages \<equiv> {8192, 16384, 24576, 32768}"

lemma reopen_start_inv: "pool_inv ex_pages {} reopen_start" "txns_inv reopen_start"
proof -
  have k: "\<exists>n. on_disk ex_saved q n \<and> node_wf n \<and> reloaded n = n"
    if "on_disk ex_saved q (reloaded (Leaf l))" "leaf_wf l" for q l
    using that reloaded_wf [of "Leaf l"] reloaded_reloaded [of "Leaf l"] by (intro exI [of _ "reloaded (Leaf l)"]) simp_all
  have "\<forall>p \<in> ex_pages. aligned p \<and> (\<exists>n. on_disk ex_saved p n \<and> node_wf n \<and> reloaded n = n)"
    using k [OF ex_saved_pages(1) ex_leaves_wf(1)] k [OF ex_saved_pages(2) ex_leaves_wf(2)]
      k [OF ex_saved_pages(3) ex_leaves_wf(3)] k [OF ex_saved_pages(4) ex_leaves_wf(4)] ex_pages_aligned by simp
  then show "pool_inv ex_pages {} reopen_start" unfolding reopen_start_def by (rule pool_new_inv) simp
  show "txns_inv reopen_start" by (simp add: txns_inv_def reopen_start_def pool_new_def)
qed

lemma fetch_keeps_disk:
  "card (dom (bp_table s)) < bp_capacity s \<Longrightarrow> fetch_page pins p s = Some (r, s') \<Longrightarrow> bp_disk s' = bp_disk s"
  by (cases "record_access p (bp_replacer s)") (auto simp: fetch_page_def make_room_def touch_def seq_Some_iff write_frame_def modify_def gets_def lift_def ret_def fail_def
      panic_def split: option.splits res.splits)

lemma mutation_keeps_disk:
  "bp_table s p = Some n \<Longrightarrow> begin_page_mutation pins p t s = Some (r, s') \<Longrightarrow> bp_disk s' = bp_disk s"
  by (auto simp: begin_page_mutation_def fetch_page_def touch_def put_txn_def log_record_def write_record_def Let_def seq_Some_iff write_frame_def
      modify_def gets_def lift_def ret_def fail_def panic_def split: option.splits res.splits prod.splits)

text \<open>The transaction fetches the page 32768, begins its mutation and stores the row.\<close>

lemma ex_run:
  obtains s st where "txn_reach 1 ex_pages reopen_start ex_pages {} s" "bp_txns s 1 = Some st" "dirty_pages st = {32768}"
    "dirty_pages st \<subseteq> dom (bp_table s)" "page_content s 32768 = Some (reloaded (Leaf ex_row_leaf))"
    "\<forall>p \<in> {8192, 16384, 24576}. page_content s p = page_content reopen_start p" "bp_disk s = ex_saved"
proof -
  have "outcome (fetch_page {} 32768 reopen_start)
      (\<lambda>n s'. pool_inv ex_pages {} s' \<and> quiet ex_pages {} reopen_start s' \<and> bp_table s' 32768 = Some n) (\<lambda>_ _. False)"
    by (rule outcome_weaken [OF fetch_page_pins [OF reopen_start_inv(1)]]) auto
  then obtain n s1 where s1: "fetch_page {} 32768 reopen_start = ret n s1" "pool_inv ex_pages {} s1"
    "quiet ex_pages {} reopen_start s1" "bp_table s1 32768 = Some n" by (rule outcome_total) auto
  have t1: "bp_txns s1 = Map.empty" "wal_file (bp_wal s1) = []"
    using s1(3) by (simp_all add: quiet_def reopen_start_def pool_new_def wal_open_def)
  have "outcome (begin_page_mutation {} 32768 1 s1) (\<lambda>_. mutation_begun ex_pages {} {} 32768 1 s1) (\<lambda>_ _. False)"
    by (rule outcome_weaken [OF begin_page_mutation_spec [OF s1(2)]]) (use s1(4) t1 in \<open>auto simp: txns_inv_def\<close>)
  then obtain u s2 where s2: "begin_page_mutation {} 32768 1 s1 = ret u s2" "mutation_begun ex_pages {} {} 32768 1 s1 s2"
    by (rule outcome_total)
  let ?s = "s2\<lparr>bp_table := (bp_table s2)(32768 \<mapsto> Leaf ex_row_leaf)\<rparr>"
  have r1: "txn_reach 1 ex_pages reopen_start ex_pages {} s1"
    by (rule txn_reach.fetch [OF txn_reach.start _ _ s1(1) [unfolded ret_def]]) simp_all
  have r2: "txn_reach 1 ex_pages reopen_start ex_pages {} s2"
    by (rule txn_reach.mutate [OF r1 _ _ _ s2(1) [unfolded ret_def]]) (simp_all add: t1)
  have m: "32768 \<in> dom (bp_table s2)" "1 \<in> dom (bp_txns s2)" "dirty_pages (txn_entry 1 s2) = {32768}"
    "\<forall>q \<in> ex_pages. page_content s2 q = page_content s1 q"
    using s2(2) t1(1) by (simp_all add: mutation_begun_def) (simp add: txn_entry_def)
  have r3: "txn_reach 1 ex_pages reopen_start ex_pages ({} - {32768}) ?s"
    by (rule txn_reach.store [OF r2, of 32768 "Leaf ex_row_leaf" "Ok ()"])
      (use m ex_leaves_wf(5) in \<open>simp_all add: write_frame_def modify_def ex_row_leaf_def\<close>)
  obtain st where st: "bp_txns s2 1 = Some st" using m(2) by auto
  have d: "bp_disk ?s = ex_saved"
  proof -
    have "bp_disk s1 = bp_disk reopen_start"
      by (rule fetch_keeps_disk [OF _ s1(1) [unfolded ret_def]]) (simp add: reopen_start_def pool_new_def)
    moreover have "bp_disk s2 = bp_disk s1" by (rule mutation_keeps_disk [OF s1(4) s2(1) [unfolded ret_def]])
    ultimately show ?thesis by (simp add: reopen_start_def pool_new_def)
  qed
  have p: "page_content ?s q = page_content reopen_start q" if "q \<in> {8192, 16384, 24576}" for q
  proof -
    have "page_content ?s q = page_content s2 q" by (rule page_content_cong) (use that in auto)
    also have "\<dots> = page_content reopen_start q" using m(4) s1(3) that by (auto simp: quiet_def)
    finally show ?thesis .
  qed
  have w: "page_content ?s 32768 = Some (reloaded (Leaf ex_row_leaf))" by (rule content_cached) simp
  show thesis
    by (rule that [of ?s st]) (use r3 st m(3) p w d in \<open>simp_all add: txn_entry_def\<close>)
qed

text \<open>The system tables of the example, and the greatest row ids.\<close>

definition ex_ids_of :: "page_id \<Rightarrow> u64" where
  "ex_ids_of p = (if p = 8192 then 1 else if p = 16384 then 2 else if p = 32768 then 7 else 0)"

lemma one_leaf_table:
  assumes "c root = Some (Leaf (reloaded_leaf l))" "\<not> lf_has_next l"
  shows "stored_rows sc ts (leaf_cells l) \<Longrightarrow> sys_table c root sc ts" "row_counter c root (last_id (leaf_cells l))"
proof -
  have n: "\<not> lf_has_next (reloaded_leaf l)" "leaf_cells (reloaded_leaf l) = leaf_cells l"
    using assms(2) by (simp_all add: reloaded_leaf_def leaf_cells_def)
  have "start_cells c root None (leaf_cells l)"
    unfolding start_cells_def
    by (intro exI [of _ 0] exI [of _ root] exI [of _ "reloaded_leaf l"] exI [of _ "[]"]) (simp add: assms(1) n)
  then show "stored_rows sc ts (leaf_cells l) \<Longrightarrow> sys_table c root sc ts" unfolding sys_table_def by blast
  show "row_counter c root (last_id (leaf_cells l))"
    unfolding row_counter_def
    by (intro exI [of _ 0] exI [of _ root] exI [of _ "reloaded_leaf l"]) (simp add: assms(1) n)
qed

lemma ex_system_tables:
  assumes c: "c 8192 = Some (Leaf (reloaded_leaf ex_roots_leaf))" "c 16384 = Some (Leaf (reloaded_leaf ex_columns_leaf))"
    "c 24576 = Some (Leaf (reloaded_leaf ex_indexes_leaf))" "c 32768 = Some (Leaf (reloaded_leaf ex_row_leaf))"
  shows "system_tables c ex_rows_of ex_ids_of"
proof -
  have nx: "\<not> lf_has_next ex_roots_leaf" "\<not> lf_has_next ex_columns_leaf" "\<not> lf_has_next ex_indexes_leaf" "\<not> lf_has_next ex_row_leaf"
    by (simp_all add: ex_roots_leaf_def ex_columns_leaf_def ex_indexes_leaf_def ex_row_leaf_def row_leaf_def new_empty_leaf_def)
  have cells: "leaf_cells ex_roots_leaf = [\<lparr>row_id = 1, cell_data = bytes_of sys_roots_schema (roots_tuple ''t'' 32768), is_deleted = False\<rparr>]"
    "leaf_cells ex_columns_leaf = [\<lparr>row_id = 2, cell_data = bytes_of sys_tables_schema (schema_tuple ''t'' ex_id_column), is_deleted = False\<rparr>]"
    "leaf_cells ex_indexes_leaf = []"
    "leaf_cells ex_row_leaf = [\<lparr>row_id = 7, cell_data = 0 # u64_to_le 7, is_deleted = False\<rparr>]"
    by (simp_all add: ex_roots_leaf_def ex_columns_leaf_def)
      (simp_all add: ex_indexes_leaf_def ex_row_leaf_def row_leaf_def new_empty_leaf_def leaf_cells_def)
  have utf: "utf8 (string_bytes ''t'')" "utf8 (string_bytes ''id'')" by (simp_all add: string_bytes_def of_char_def)
  have ok: "list_all2 (\<lambda>col v. val_ok (col_type col) v) (sc_columns sys_roots_schema) (tp_values (roots_tuple ''t'' 32768))"
    "list_all2 (\<lambda>col v. val_ok (col_type col) v) (sc_columns sys_tables_schema) (tp_values (schema_tuple ''t'' ex_id_column))"
    using utf by (simp_all add: sys_roots_schema_def sys_tables_schema_def schema_new_def roots_tuple_def schema_tuple_def
        tuple_new_def ex_id_column_def)
  have st: "stored_rows sys_roots_schema [roots_tuple ''t'' 32768] (leaf_cells ex_roots_leaf)"
    "stored_rows sys_tables_schema [schema_tuple ''t'' ex_id_column] (leaf_cells ex_columns_leaf)"
    "stored_rows sys_index_schema [] (leaf_cells ex_indexes_leaf)"
    using ok ex_bytes(1,2) by (simp_all add: stored_rows_def cells)
  show ?thesis
    unfolding system_tables_def SYS_TABLE_ROOTS_ROOT_ID_def SYS_SCHEMAS_ROOT_ID_def SYS_INDEXES_ROOT_ID_def
    using one_leaf_table(1) [of c, OF c(1) nx(1) st(1)] one_leaf_table(1) [of c, OF c(2) nx(2) st(2)] one_leaf_table(1) [of c, OF c(3) nx(3) st(3)]
      one_leaf_table(2) [of c, OF c(1) nx(1)] one_leaf_table(2) [of c, OF c(2) nx(2)] one_leaf_table(2) [of c, OF c(3) nx(3)]
      one_leaf_table(2) [of c, OF c(4) nx(4)]
    by (simp add: ex_rows_of_def ex_ids_of_def cells)
qed

lemma reopened_database_witness:
  "\<exists>s s' d. page_content s 32768 = Some (reloaded (Leaf ex_row_leaf)) \<and> commit_transaction sorted_list_of_set 1 s = ret () s' \<and>
    database_open ex_world (dm_file (bp_disk s')) (wal_file (bp_wal s')) 4 = Some (Ok d) \<and>
    page_content (db_pool d) 32768 = Some (reloaded (Leaf ex_row_leaf)) \<and>
    ct_roots (db_catalog d) ''t'' = Some 32768 \<and> ct_schemas (db_catalog d) ''t'' = Some (schema_new [ex_id_column]) \<and>
    ct_row_ids (db_catalog d) ''t'' = Some 8 \<and> ct_sys_id (db_catalog d) = 3"
proof -
  obtain s st where s: "txn_reach 1 ex_pages reopen_start ex_pages {} s" "bp_txns s 1 = Some st" "dirty_pages st = {32768}"
    "dirty_pages st \<subseteq> dom (bp_table s)" "page_content s 32768 = Some (reloaded (Leaf ex_row_leaf))"
    "\<forall>p \<in> {8192, 16384, 24576}. page_content s p = page_content reopen_start p" "bp_disk s = ex_saved" by (rule ex_run)
  have i: "bp_txns reopen_start 1 = None" "wal_file (bp_wal reopen_start) = []" "\<forall>p \<in> ex_pages. \<not> is_dirty_in reopen_start p"
    by (simp_all add: reopen_start_def pool_new_def wal_open_def is_dirty_in_def)
  have D: "ex_pages \<union> dirty_pages st = ex_pages" using s(3) by auto
  have pg: "page_content reopen_start 8192 = Some (reloaded (Leaf ex_roots_leaf))" "page_content reopen_start 16384 = Some (reloaded (Leaf ex_columns_leaf))"
    "page_content reopen_start 24576 = Some (reloaded (Leaf ex_indexes_leaf))"
    using pool_new_page [OF ex_saved_pages(1)] pool_new_page [OF ex_saved_pages(2)] pool_new_page [OF ex_saved_pages(3)]
    by (simp_all only: reopen_start_def reloaded_reloaded)
  have sys: "system_tables (db (ex_pages \<union> dirty_pages st) s) ex_rows_of ex_ids_of"
    unfolding D by (rule ex_system_tables) (use s(5,6) pg in \<open>simp_all add: db_def\<close>)
  have hd: "disk_open (dm_file (bp_disk s)) = Ok ex_saved" "\<not> disk_is_empty ex_saved"
    using ex_saved by (simp_all add: s(7) disk_is_empty_def page_sizes)
  have w: "ev_pins (wd_env ex_world) = {}" "\<forall>S. finite S \<longrightarrow> set (ev_keys (wd_env ex_world) S) = S"
    by (simp_all add: ex_world_def ex_env_def)
  have l: "ct_roots (loaded ex_rows_of (system_id ex_ids_of) ex_ids_of) ''t'' = Some 32768"
    "ct_schemas (loaded ex_rows_of (system_id ex_ids_of) ex_ids_of) ''t'' = Some (schema_new [ex_id_column])"
    "ct_row_ids (loaded ex_rows_of (system_id ex_ids_of) ex_ids_of) ''t'' = Some 8"
    "ct_sys_id (loaded ex_rows_of (system_id ex_ids_of) ex_ids_of) = 3"
    by (simp_all add: loaded_def Let_def ex_rows_of_def ex_ids_of_def loaded_columns_def loaded_column_def ex_id_column_def
        system_id_def SYS_TABLE_ROOTS_ROOT_ID_def SYS_SCHEMAS_ROOT_ID_def SYS_INDEXES_ROOT_ID_def)
  from reopened_database [OF s(1) reopen_start_inv i s(2,4) ex_order sys hd w, of 4] s(5) l show ?thesis
    unfolding D by (metis (no_types, lifting) insertI1 insertI2 zero_less_numeral)
qed

end
