(* ===== verification/Spec2Isabelle.thy ===== *)
theory Spec2Isabelle
  imports Tables Shell Bootstrap
begin

text \<open>
  This library models hinder-db, a relational database in Rust (src/src): SQL text is parsed
  and planned into a tree of operators, which run over B+ trees whose pages live in a buffer
  pool with a write-ahead log.

  Conventions (Prelude, StateErr). A fallible function returns \<open>res\<close>: \<open>Ok\<close>, \<open>Err\<close> with the
  error enumeration of error.rs, or \<open>Panic\<close> (an index out of range, \<open>unreachable!\<close>,
  \<open>expect\<close>). A method on shared mutable state is a \<open>call\<close>: it takes the state to a result and
  the state as it is left on every outcome, errors included, since Rust undoes nothing; the
  outer \<open>None\<close> is a call that does not return (a loop over cyclic links, a deadlock).
  \<open>outcome (m s) Q E\<close> is total correctness: \<open>m\<close> returns, does not panic, and ends with a
  value in \<open>Q\<close> or an error in \<open>E\<close>. Machine integers are words that wrap around; \<open>usize\<close> is
  \<open>nat\<close>. Loops over pages and over tokens are partial functions in the call monad, and each
  theorem about them shows that they end. There is no fuel; the one bound is the nesting depth
  of a call through a tree of operators, and \<open>height\<close> of the tree is always enough, since no
  operator changes the height of its children.

  The storage layer.

    \<^item> Search: \<open>binary_search_by_key\<close> and \<open>partition_point\<close> of the standard library.

    \<^item> Lru (storage/lru.rs): the replacer as an arena of doubly linked nodes, refined to a list
      of pages by recency.

    \<^item> PageNode, PageInternal, PageLeaf (storage/page.rs): the two kinds of node with all their
      operations. An internal node is seen as a sorted list of keys (\<open>in_list\<close>), a leaf as a
      finite map of its live rows (\<open>leaf_map\<close>); \<open>internal_wf\<close> and \<open>leaf_wf\<close> are kept.

    \<^item> Bytes, PageCodec: the cursor over a page image, and \<open>encode\<close> and \<open>decode\<close> with their round
      trip. Disk: the file as a list of bytes with its header.

    \<^item> Wal, Recovery (storage/wal.rs, recovery.rs): log records, batches and torn tails, and
      the recovery engine, refined to an abstract history of transactions.

    \<^item> BufferPool (storage/buffer_pool.rs): the page table with fetch, eviction, new pages, begin
      of a mutation, commit, abort and flush. \<open>page_content\<close> is what a page holds whether it is
      cached or on disk; \<open>pool_inv D F\<close> is the invariant for the allocated pages \<open>D\<close>, of which
      \<open>F\<close> are not written yet. \<open>pins\<close> are the frames the caller holds. \<open>quiet\<close> says that a call
      changed nothing but the cache.

    \<^item> Transaction (concurrency/transaction.rs, storage/flusher.rs): the handle and the flusher,
      and the step relation \<open>txn_reach\<close> of a running transaction, with durability, rollback and
      crash atomicity by rule induction.

    \<^item> BpTree (storage/bptree.rs): descents, lookup, insert with splits, update and delete over the
      pool. \<open>tree_get\<close> is the row that routing finds for a key in a tree of a given height.

  Rows and operators.

    \<^item> Tuples (relation): values with their order, schemas, the row format and index keys.

    \<^item> Evaluator (planner/bound_expr.rs, execution/evaluator.rs): expressions in Kleene's logic.

    \<^item> Executor (execution.rs, filter.rs, limit.rs, emit.rs, value.rs): the \<open>Executor\<close> trait is the
      locale \<open>row_source\<close>; an operator that satisfies it over a child that does keeps plans
      composable. Breakers (sort.rs, aggregate.rs) and Join (join.rs) are the operators that
      buffer rows; Join has the locale \<open>join_sources\<close> of two children over one context.

    \<^item> Catalog (catalog.rs, manager.rs): the system tables and the in-memory maps, with
      bootstrap, \<open>create_table\<close>, \<open>drop_table\<close> and \<open>create_index\<close>.

    \<^item> Scan (iterator.rs, seq_scan.rs, index.rs): the leaf cursor and the two scans over the
      execution context; both scans are interpreted as row sources, and two tables as the
      children of a join.

    \<^item> Modify (insert.rs, update.rs, delete.rs, create.rs, drop.rs, show_tables.rs,
      show_indexes.rs): the operators that change the database, with the upkeep of indexes.

    \<^item> Plan (execution.rs): trees of operators, the trait objects of the code, with \<open>next\<close> and
      \<open>reset\<close> by the kind of the root. Every tree of reading operators is a row source, by
      induction on its height (interpretation \<open>executors\<close>).

  SQL.

    \<^item> Lexer, Parser (sql/token.rs, lexer.rs, parser.rs) and Ast (sql/ast.rs): tokens, the
      recursive descent with one token of lookahead, and the syntax trees. Parsing proves that it
      ends without a panic on every text. Printing has a printer of statements and the proof that
      the parser inverts it: the state of the parser on a printed text is \<open>feed\<close> of the tokens
      that are left.

    \<^item> Planner (planner.rs): binding of names and types, the choice between a scan of the table
      and a search in an index, and the plan of every statement. Queries shows what a SELECT
      returns: the rows of the table that satisfy WHERE, projected, sorted and cut to the page;
      the index search never shows.

  The engine and the shell.

    \<^item> Engine (engine.rs): opening a database with its recovery, sessions, and scripts. The mode
      machine \<open>mode_step\<close> is the contract of BEGIN, COMMIT, ROLLBACK and of statements inside and
      outside a transaction; \<open>session_reach\<close> are the states of a session. A SELECT is followed
      from its text to its rows, a ROLLBACK to the contents of the pages.

    \<^item> Bootstrap (manager.rs, engine.rs): what is loaded from the system tables of a database that
      exists. \<open>loaded\<close> is the catalog that their rows describe, \<open>bootstrap_loads\<close> that
      \<open>bootstrap\<close> gives it, and \<open>reopened_database\<close> that a database opened after a crash that
      follows a commit has the catalog and the pages of the commit.

    \<^item> Shell (bin/hinder.rs): the files of the databases, the commands on whole databases, the
      loop line by line, and the printed tables.

    \<^item> Example, Tables: a small database on which the theorems are applied.

  Parameters for what the sources leave open: the hash function of strings (\<open>hash\<close>), the
  iteration order of hash maps and sets (\<open>order\<close>, \<open>keys\<close>), the frames that other callers
  hold (\<open>pins\<close>), and the Unicode tables of the standard library (\<open>unicode\<close>). The records \<open>env\<close>
  and \<open>world\<close> collect them.

  Not modelled: threads and locks (every call is one thread's, in sequence; a guard taken
  twice by one thread is the call \<open>deadlock\<close>), the unwinding of a panic, failing system calls,
  the text interpolated into error messages, the partial content of the block buffer after an
  encoding error, the depth of the stack (deeply nested parentheses exhaust it), several
  sessions on one database at the same time, and the terminal of the shell (reading and
  history, the arguments, the directory of the databases, the help text). LockManager has no
  operations.
\<close>

end
